(* ===== verification/Prelude.thy ===== *)
theory Prelude
  imports Main "HOL-Library.Word" "HOL-Library.List_Lexorder" "HOL-Library.Multiset"
begin

text \<open>
  Shared vocabulary of the development: machine integers, the \<open>Result\<close> type of the
  source as a sum, big-endian byte strings, the ordered collections
  (\<open>BTreeMap\<close>, \<open>BTreeSet\<close>) as strictly sorted lists, and the stack driven graph
  walk that the source writes as \<open>while let Some(x) = stack.pop()\<close>.
\<close>

type_synonym byte = "8 word"
type_synonym bytes = "byte list"
type_synonym u16 = "16 word"
type_synonym u32 = "32 word"
type_synonym u64 = "64 word"
type_synonym usize = nat

named_theorems result_iff \<open>when a result is successful\<close>
named_theorems codec_simps \<open>reading back what was just written\<close>


section \<open>Results\<close>

text \<open>
  \<open>Result<T, E>\<close> is \<open>'e + 'a\<close> with \<open>Inl\<close> for \<open>Err\<close>; \<open>try_bind m f\<close> is
  \<open>let x = m?; f(x)\<close>, and \<open>map_err\<close> is the conversion the \<open>?\<close> applies.
\<close>

definition try_bind :: "'e + 'a \<Rightarrow> ('a \<Rightarrow> 'e + 'b) \<Rightarrow> 'e + 'b" where
  "try_bind m f = (case m of Inl e \<Rightarrow> Inl e | Inr x \<Rightarrow> f x)"

definition map_err :: "('e \<Rightarrow> 'f) \<Rightarrow> 'e + 'a \<Rightarrow> 'f + 'a" where
  "map_err h m = (case m of Inl e \<Rightarrow> Inl (h e) | Inr x \<Rightarrow> Inr x)"

definition ok_or :: "'a option \<Rightarrow> 'e \<Rightarrow> 'e + 'a" where
  "ok_or m e = (case m of None \<Rightarrow> Inl e | Some x \<Rightarrow> Inr x)"

definition is_ok :: "'e + 'a \<Rightarrow> bool" where
  "is_ok m = (case m of Inl e \<Rightarrow> False | Inr x \<Rightarrow> True)"

lemma try_bind_simps [simp]:
  "try_bind (Inl e) f = Inl e"
  "try_bind (Inr x) f = f x"
  by (simp_all add: try_bind_def)

lemma map_err_simps [simp]:
  "map_err h (Inl e) = Inl (h e)"
  "map_err h (Inr x) = Inr x"
  by (simp_all add: map_err_def)

lemma ok_or_simps [simp]:
  "ok_or None e = Inl e"
  "ok_or (Some x) e = Inr x"
  by (simp_all add: ok_or_def)

lemma is_ok_simps [simp]:
  "\<not> is_ok (Inl e)"
  "is_ok (Inr x)"
  by (simp_all add: is_ok_def)

lemma try_bind_Inr_iff [result_iff]:
  "try_bind m f = Inr y \<longleftrightarrow> (\<exists>x. m = Inr x \<and> f x = Inr y)"
  by (cases m) auto

lemma map_err_Inr_iff [result_iff]: "map_err h m = Inr y \<longleftrightarrow> m = Inr y"
  by (cases m) auto

lemma ok_or_Inr_iff [result_iff]: "ok_or m e = Inr y \<longleftrightarrow> m = Some y"
  by (cases m) auto

lemma if_Inl_Inr_iff [result_iff]: "(if b then Inl e else m) = Inr y \<longleftrightarrow> \<not> b \<and> m = Inr y"
  by auto


section \<open>Slices and big-endian integers\<close>

text \<open>\<open>buf.get(a..b)\<close>: the bytes from \<open>a\<close> to \<open>b\<close>, \<open>None\<close> when the range is not inside the buffer.\<close>

definition get_range :: "'a list \<Rightarrow> usize \<Rightarrow> usize \<Rightarrow> 'a list option" where
  "get_range buf a b = (if a \<le> b \<and> b \<le> length buf then Some (take (b - a) (drop a buf)) else None)"

definition get_at :: "'a list \<Rightarrow> usize \<Rightarrow> 'a option" where
  "get_at buf i = (if i < length buf then Some (buf ! i) else None)"

fun nat_to_be :: "nat \<Rightarrow> nat \<Rightarrow> bytes" where
  "nat_to_be 0 v = []"
| "nat_to_be (Suc k) v = nat_to_be k (v div 256) @ [word_of_nat (v mod 256)]"

definition nat_of_be :: "bytes \<Rightarrow> nat" where
  "nat_of_be bs = foldl (\<lambda>acc b. acc * 256 + unat b) 0 bs"

definition to_be_bytes :: "'a::len word \<Rightarrow> bytes" where
  "to_be_bytes w = nat_to_be (LENGTH('a) div 8) (unat w)"

definition from_be_bytes :: "bytes \<Rightarrow> 'a::len word" where
  "from_be_bytes bs = word_of_nat (nat_of_be bs)"

lemma length_nat_to_be [simp]: "length (nat_to_be k v) = k"
  by (induction k arbitrary: v) auto

lemma nat_of_be_simps [simp]:
  "nat_of_be [] = 0"
  "nat_of_be (bs @ [b]) = nat_of_be bs * 256 + unat b"
  by (simp_all add: nat_of_be_def)

lemma unat_word_of_nat_byte [simp]: "unat (word_of_nat (v mod 256) :: byte) = v mod 256"
  by (simp add: unat_of_nat)

lemma nat_of_be_to_be: "nat_of_be (nat_to_be k v) = v mod 256 ^ k"
proof (induction k arbitrary: v)
  case (Suc k)
  have "v mod (256 * 256 ^ k) = 256 * (v div 256 mod 256 ^ k) + v mod 256"
    by (rule mod_mult2_eq)
  with Suc show ?case by simp
qed simp

lemma nat_of_be_less: "nat_of_be bs < 256 ^ length bs"
proof (induction bs rule: rev_induct)
  case (snoc b bs)
  have "unat b < 256" using unsigned_less [of b] by simp
  with snoc show ?case by simp
qed simp

lemma nat_to_be_of_be: "nat_to_be (length bs) (nat_of_be bs) = bs"
proof (induction bs rule: rev_induct)
  case (snoc b bs)
  have "unat b < 256" using unsigned_less [of b] by simp
  with snoc show ?case by simp
qed simp

lemma unat_u8_le: "unat (b :: byte) \<le> 255"
proof -
  have "unat b < 256" using unsigned_less [of b] by simp
  then show ?thesis by simp
qed

lemma unat_u16_le: "unat (w :: u16) \<le> 65535"
proof -
  have "unat w < 65536" using unsigned_less [of w] by simp
  then show ?thesis by simp
qed

lemma length_to_be_bytes [simp]: "length (to_be_bytes (w :: 'a::len word)) = LENGTH('a) div 8"
  by (simp add: to_be_bytes_def)

lemma from_to_be_bytes:
  assumes "8 dvd LENGTH('a::len)"
  shows "from_be_bytes (to_be_bytes w) = (w :: 'a word)"
proof -
  have "(256::nat) ^ (LENGTH('a) div 8) = 2 ^ (8 * (LENGTH('a) div 8))"
    by (simp add: power_mult)
  then have "(256::nat) ^ (LENGTH('a) div 8) = 2 ^ LENGTH('a)"
    using assms by simp
  then show ?thesis
    by (simp add: from_be_bytes_def to_be_bytes_def nat_of_be_to_be)
qed

lemma to_from_be_bytes:
  assumes "length bs = LENGTH('a::len) div 8" and "8 dvd LENGTH('a)"
  shows "to_be_bytes (from_be_bytes bs :: 'a word) = bs"
proof -
  have "(256::nat) ^ length bs = 2 ^ (8 * (LENGTH('a) div 8))"
    by (simp add: power_mult assms(1))
  then have "nat_of_be bs < 2 ^ LENGTH('a)"
    using nat_of_be_less [of bs] assms(2) by simp
  then show ?thesis
    using nat_to_be_of_be [of bs] assms(1)
    by (simp add: from_be_bytes_def to_be_bytes_def unat_of_nat)
qed

lemma get_range_append [codec_simps]:
  "a = length xs \<Longrightarrow> b = length xs + length ys \<Longrightarrow> get_range (xs @ ys @ zs) a b = Some ys"
  by (simp add: get_range_def)

lemma get_range_Some_iff:
  "get_range buf a b = Some ys \<longleftrightarrow>
     a \<le> b \<and> b \<le> length buf \<and> ys = take (b - a) (drop a buf)"
  by (auto simp: get_range_def)


section \<open>Ordered collections\<close>

text \<open>
  \<open>Map\<close> and \<open>Set\<close> of the source are \<open>HashMap\<close> and \<open>HashSet\<close> with the \<open>std\<close>
  feature and \<open>BTreeMap\<close> and \<open>BTreeSet\<close> without it. The model is the second:
  a map is an association list with strictly increasing keys, so that two maps with
  the same entries are equal, and iteration is the list itself. A set that is only
  asked for membership is an Isabelle set.
\<close>

type_synonym ('k, 'v) omap = "('k \<times> 'v) list"

definition om_inv :: "('k::linorder, 'v) omap \<Rightarrow> bool" where
  "om_inv m \<longleftrightarrow> sorted_wrt (<) (map fst m)"

fun om_insert :: "'k::linorder \<Rightarrow> 'v \<Rightarrow> ('k, 'v) omap \<Rightarrow> ('k, 'v) omap" where
  "om_insert k v [] = [(k, v)]"
| "om_insert k v ((k', v') # m) =
     (if k < k' then (k, v) # (k', v') # m
      else if k = k' then (k, v) # m
      else (k', v') # om_insert k v m)"

definition om_keys :: "('k, 'v) omap \<Rightarrow> 'k list" where
  "om_keys m = map fst m"

definition om_values :: "('k, 'v) omap \<Rightarrow> 'v list" where
  "om_values m = map snd m"

definition om_remove :: "'k \<Rightarrow> ('k, 'v) omap \<Rightarrow> ('k, 'v) omap" where
  "om_remove k m = filter (\<lambda>(k', _). k' \<noteq> k) m"

definition om_retain :: "('k \<Rightarrow> 'v \<Rightarrow> bool) \<Rightarrow> ('k, 'v) omap \<Rightarrow> ('k, 'v) omap" where
  "om_retain P m = filter (\<lambda>(k, v). P k v) m"

definition om_of_list :: "('k::linorder \<times> 'v) list \<Rightarrow> ('k, 'v) omap" where
  "om_of_list kvs = foldl (\<lambda>m (k, v). om_insert k v m) [] kvs"

definition os_of_list :: "'a::linorder list \<Rightarrow> 'a list" where
  "os_of_list xs = sort (remdups xs)"

lemma om_inv_Nil [simp]: "om_inv []"
  by (simp add: om_inv_def)

lemma om_inv_Cons: "om_inv ((k, v) # m) \<longleftrightarrow> (\<forall>k' \<in> fst ` set m. k < k') \<and> om_inv m"
  by (auto simp: om_inv_def)

lemma set_om_insert_keys [simp]: "fst ` set (om_insert k v m) = insert k (fst ` set m)"
proof (induction m)
  case (Cons kv m)
  then show ?case by (cases kv) auto
qed simp

lemma om_inv_insert [simp, intro]: "om_inv m \<Longrightarrow> om_inv (om_insert k v m)"
proof (induction m)
  case (Cons kv m)
  then show ?case by (cases kv) (fastforce simp: om_inv_Cons)
qed (simp add: om_inv_Cons)

lemma om_inv_distinct: "om_inv m \<Longrightarrow> distinct (map fst m)"
  by (simp add: om_inv_def strict_sorted_iff)

lemma map_of_om_insert [simp]:
  "om_inv m \<Longrightarrow> map_of (om_insert k v m) = (map_of m)(k \<mapsto> v)"
proof (induction m)
  case (Cons kv m)
  obtain k' v' where kv: "kv = (k', v')" by (cases kv)
  with Cons.prems have "om_inv m" and lt: "\<forall>j \<in> fst ` set m. k' < j"
    by (auto simp: om_inv_Cons)
  then show ?case
    using Cons.IH kv by (auto simp: fun_eq_iff)
qed auto

lemma om_ext:
  assumes "om_inv m" and "om_inv m'" and "map_of m = map_of m'"
  shows "m = m'"
proof -
  have "set m = set m'"
    using assms by (metis map_of_inject_set om_inv_distinct)
  then have "set (map fst m) = set (map fst m')" by (metis set_map)
  then have k: "map fst m = map fst m'"
    using assms(1,2) unfolding om_inv_def by (metis strict_sorted_equal)
  have "map snd m = map (the \<circ> map_of m) (map fst m)"
    using om_inv_distinct [OF assms(1)] by (auto simp: map_of_is_SomeI)
  moreover have "map snd m' = map (the \<circ> map_of m') (map fst m')"
    using om_inv_distinct [OF assms(2)] by (auto simp: map_of_is_SomeI)
  ultimately have "map snd m = map snd m'" using k assms(3) by simp
  with k show ?thesis by (metis zip_map_fst_snd)
qed

lemma map_eqI: "(\<And>k v. m k = Some v \<longleftrightarrow> m' k = Some v) \<Longrightarrow> m = m'"
  by (rule ext) (metis option.exhaust)

lemma om_inv_retain [simp, intro]: "om_inv m \<Longrightarrow> om_inv (om_retain P m)"
  by (induction m) (auto simp: om_inv_Cons om_retain_def)

lemma map_of_om_retain [simp]:
  "om_inv m \<Longrightarrow>
   map_of (om_retain P m) k = (case map_of m k of None \<Rightarrow> None | Some v \<Rightarrow> if P k v then Some v else None)"
proof (induction m)
  case (Cons kv m)
  obtain k' v' where kv: "kv = (k', v')" by (cases kv)
  with Cons.prems have "om_inv m" and "k' \<notin> fst ` set m"
    by (auto simp: om_inv_Cons)
  moreover from \<open>k' \<notin> fst ` set m\<close> have "map_of m k' = None"
    by (simp add: map_of_eq_None_iff)
  ultimately show ?case
    using Cons.IH kv by (auto simp: om_retain_def)
qed (simp add: om_retain_def)

lemma om_inv_of_list [simp]: "om_inv (om_of_list kvs)"
proof -
  have "om_inv m \<Longrightarrow> om_inv (foldl (\<lambda>m (k, v). om_insert k v m) m kvs)" for m
    by (induction kvs arbitrary: m) auto
  then show ?thesis by (simp add: om_of_list_def)
qed

lemma map_of_om_of_list: "map_of (om_of_list kvs) = map_of (rev kvs)"
proof -
  have "om_inv m \<Longrightarrow>
    map_of (foldl (\<lambda>m (k, v). om_insert k v m) m kvs) = map_of m ++ map_of (rev kvs)" for m
    by (induction kvs arbitrary: m) (auto simp: map_add_def fun_eq_iff split: option.splits)
  then show ?thesis by (simp add: om_of_list_def)
qed

lemma set_os_of_list [simp]: "set (os_of_list xs) = set xs"
  by (simp add: os_of_list_def)

lemma sorted_os_of_list [simp]: "sorted_wrt (<) (os_of_list xs)"
  by (simp add: os_of_list_def strict_sorted_iff)

lemma os_of_list_unique: "sorted_wrt (<) ys \<Longrightarrow> set ys = set xs \<Longrightarrow> os_of_list xs = ys"
  by (rule strict_sorted_equal) simp_all

lemma os_of_list_id: "sorted_wrt (<) xs \<Longrightarrow> os_of_list xs = xs"
  by (simp add: os_of_list_def strict_sorted_iff sorted_sort_id distinct_remdups_id)


section \<open>Stack driven walks\<close>

text \<open>
  \<open>walk U norm succ stack visited\<close> is the loop
  \<^verbatim>\<open>
  while let Some(x) = stack.pop() {
      let k = norm(x);
      if !visited.insert(k) { continue; }
      if k in U { stack.extend(succ(k)); }
  }
  \<close>
  with the top of the stack at the head of the list, so that \<open>extend\<close> pushes the
  reversed successors. \<open>U\<close> is the finite set of nodes that have successors (for
  \<open>ancestors_of\<close> the commits of the tree); every visited node outside it pushes
  nothing, which is why the loop ends.
\<close>

function walk :: "'n list \<Rightarrow> ('x \<Rightarrow> 'n) \<Rightarrow> ('n \<Rightarrow> 'x list) \<Rightarrow> 'x list \<Rightarrow> 'n set \<Rightarrow> 'n set" where
  "walk U norm succ [] visited = visited"
| "walk U norm succ (x # stack) visited =
     (if norm x \<in> visited then walk U norm succ stack visited
      else if norm x \<in> set U
      then walk U norm succ (rev (succ (norm x)) @ stack) (insert (norm x) visited)
      else walk U norm succ stack (insert (norm x) visited))"
  by pat_completeness auto
termination
proof (relation "inv_image (finite_psubset <*lex*> less_than)
    (\<lambda>(U, norm, succ, stack, visited). (set U - visited, length stack))", goal_cases)
  case (4 U norm succ x stack visited)
  then have "set U - insert (norm x) visited = set U - visited" by auto
  then show ?case by simp
qed (auto simp: finite_psubset_def [THEN eq_reflection] wf_finite_psubset [unfolded finite_psubset_def])

lemma walk_visited: "visited \<subseteq> walk U norm succ stack visited"
  by (induction U norm succ stack visited rule: walk.induct) auto

text \<open>The edges a walk follows, from a node to the nodes its successors stand for.\<close>

definition walk_edge :: "'n list \<Rightarrow> ('x \<Rightarrow> 'n) \<Rightarrow> ('n \<Rightarrow> 'x list) \<Rightarrow> 'n \<Rightarrow> 'n \<Rightarrow> bool" where
  "walk_edge U norm succ k l \<longleftrightarrow> k \<in> set U \<and> l \<in> norm ` set (succ k)"

lemma walk_sound:
  assumes "k \<in> walk U norm succ stack visited"
  shows "k \<in> visited \<or> (\<exists>x \<in> set stack. (walk_edge U norm succ)\<^sup>*\<^sup>* (norm x) k)"
  using assms
proof (induction U norm succ stack visited rule: walk.induct)
  case (2 U norm succ x stack visited)
  show ?case
  proof (cases "norm x \<in> visited")
    case True
    with 2 show ?thesis by auto
  next
    case new: False
    show ?thesis
    proof (cases "norm x \<in> set U")
      case True
      with 2 new have IH: "k \<in> insert (norm x) visited \<or>
          (\<exists>y \<in> set (rev (succ (norm x)) @ stack). (walk_edge U norm succ)\<^sup>*\<^sup>* (norm y) k)"
        by simp
      have step: "walk_edge U norm succ (norm x) (norm y)" if "y \<in> set (succ (norm x))" for y
        using True that by (simp add: walk_edge_def)
      show ?thesis
        using IH by (auto dest!: step intro: converse_rtranclp_into_rtranclp)
    next
      case False
      with 2 new show ?thesis by auto
    qed
  qed
qed simp

lemma walk_stack: "norm ` set stack \<subseteq> walk U norm succ stack visited"
proof (induction U norm succ stack visited rule: walk.induct)
  case (2 U norm succ x stack visited)
  then show ?case
    using walk_visited [of visited U norm succ stack]
      walk_visited [of "insert (norm x) visited" U norm succ stack]
      walk_visited [of "insert (norm x) visited" U norm succ "rev (succ (norm x)) @ stack"]
    by (auto simp del: walk.simps simp: walk.simps(2))
qed simp

lemma walk_closed:
  assumes "\<And>k l. k \<in> visited \<Longrightarrow> walk_edge U norm succ k l \<Longrightarrow> l \<in> visited \<or> l \<in> norm ` set stack"
  assumes "k \<in> walk U norm succ stack visited" and "walk_edge U norm succ k l"
  shows "l \<in> walk U norm succ stack visited"
  using assms
proof (induction U norm succ stack visited arbitrary: k l rule: walk.induct)
  case (1 U norm succ visited)
  then show ?case by auto
next
  case (2 U norm succ x stack visited)
  show ?case
  proof (cases "norm x \<in> visited")
    case True
    with 2 show ?thesis by (fastforce simp: image_iff)
  next
    case new: False
    show ?thesis
    proof (cases "norm x \<in> set U")
      case True
      have "l' \<in> insert (norm x) visited \<or> l' \<in> norm ` set (rev (succ (norm x)) @ stack)"
        if "k' \<in> insert (norm x) visited" "walk_edge U norm succ k' l'" for k' l'
        using that 2(4) [of k' l'] by (auto simp: walk_edge_def)
      with 2(2) [OF new True] 2(5,6) new True show ?thesis by simp
    next
      case False
      have "l' \<in> insert (norm x) visited \<or> l' \<in> norm ` set stack"
        if "k' \<in> insert (norm x) visited" "walk_edge U norm succ k' l'" for k' l'
        using that 2(4) [of k' l'] False by (auto simp: walk_edge_def)
      with 2(3) [OF new False] 2(5,6) new False show ?thesis by simp
    qed
  qed
qed

text \<open>A walk from a fresh visited set finds exactly what its edges reach.\<close>

lemma walk_reach:
  "walk U norm succ stack {} = {k. \<exists>x \<in> set stack. (walk_edge U norm succ)\<^sup>*\<^sup>* (norm x) k}"
proof
  show "walk U norm succ stack {} \<subseteq> {k. \<exists>x \<in> set stack. (walk_edge U norm succ)\<^sup>*\<^sup>* (norm x) k}"
    using walk_sound [of _ U norm succ stack "{}"] by auto
  have "k \<in> walk U norm succ stack {}"
    if "(walk_edge U norm succ)\<^sup>*\<^sup>* (norm x) k" and "x \<in> set stack" for x k
    using that
  proof (induction rule: rtranclp_induct)
    case base
    then show ?case using walk_stack [of norm stack U succ "{}"] by auto
  next
    case (step k l)
    then show ?case by (auto intro: walk_closed)
  qed
  then show "{k. \<exists>x \<in> set stack. (walk_edge U norm succ)\<^sup>*\<^sup>* (norm x) k} \<subseteq> walk U norm succ stack {}"
    by auto
qed

end
