(* ===== verification/Codec.thy ===== *)
theory Codec
  imports Prelude
begin

text \<open>
  The canonical binary codec of \<^verbatim>\<open>sedimentree_core/src/codec\<close>: its errors, the primitive
  readers and writers, the ordering check on arrays, and the traits \<open>Schema\<close>,
  \<open>EncodeFields\<close> and \<open>DecodeFields\<close> as a record of operations with the locale
  \<open>payload_codec\<close> as their contract.
\<close>

section \<open>Errors\<close>

datatype ReadingType = ReadU8 | ReadU16 | ReadU32 | ReadU64 | ReadArray usize | ReadSlice usize

text \<open>The fields are \<open>reading\<close>, \<open>offset\<close>, \<open>need\<close> and \<open>have\<close>.\<close>

datatype BufferTooShort = BufferTooShort ReadingType usize usize usize

text \<open>\<open>bijoux::u64::DecodeError\<close> belongs to the crate \<open>bijoux\<close>; its values are opaque here.\<close>

datatype bijou_error = BijouError string

datatype DecodeError =
    DecodeBufferTooShort BufferTooShort
  | MessageTooShort string usize usize
  | InvalidSchema bytes bytes
  | UnsupportedVersion byte
  | InvalidSignature
  | InvalidVerifyingKey
  | UnsortedArray usize
  | InvalidEnumTag byte string
  | InvalidDiscriminant byte byte
  | SizeMismatch usize usize
  | BlobTooLarge u64 u64
  | ArrayTooLarge usize usize string
  | DuplicateElement usize string
  | Bijou64 usize bijou_error


section \<open>Primitive readers\<close>

definition decode_u8 :: "bytes \<Rightarrow> usize \<Rightarrow> BufferTooShort + byte" where
  "decode_u8 buf off = ok_or (get_at buf off) (BufferTooShort ReadU8 off 1 (length buf - off))"

definition decode_u16 :: "bytes \<Rightarrow> usize \<Rightarrow> BufferTooShort + u16" where
  "decode_u16 buf off =
     try_bind (ok_or (get_range buf off (off + 2)) (BufferTooShort ReadU16 off 2 (length buf - off)))
       (\<lambda>bs. Inr (from_be_bytes bs))"

definition decode_u32 :: "bytes \<Rightarrow> usize \<Rightarrow> BufferTooShort + u32" where
  "decode_u32 buf off =
     try_bind (ok_or (get_range buf off (off + 4)) (BufferTooShort ReadU32 off 4 (length buf - off)))
       (\<lambda>bs. Inr (from_be_bytes bs))"

definition decode_u64 :: "bytes \<Rightarrow> usize \<Rightarrow> BufferTooShort + u64" where
  "decode_u64 buf off =
     try_bind (ok_or (get_range buf off (off + 8)) (BufferTooShort ReadU64 off 8 (length buf - off)))
       (\<lambda>bs. Inr (from_be_bytes bs))"

definition decode_array :: "nat \<Rightarrow> bytes \<Rightarrow> usize \<Rightarrow> BufferTooShort + bytes" where
  "decode_array n buf off =
     ok_or (get_range buf off (off + n)) (BufferTooShort (ReadArray n) off n (length buf - off))"

text \<open>\<open>usize\<close> has 64 bits on the native targets; \<open>slice\<close> is the reader that checks the sum.\<close>

definition checked_add_usize :: "usize \<Rightarrow> usize \<Rightarrow> usize option" where
  "checked_add_usize a b = (if a + b < 2 ^ 64 then Some (a + b) else None)"

definition decode_slice :: "bytes \<Rightarrow> usize \<Rightarrow> usize \<Rightarrow> BufferTooShort + bytes" where
  "decode_slice buf off len =
     (let err = BufferTooShort (ReadSlice len) off len (length buf - off)
      in try_bind (ok_or (checked_add_usize off len) err)
           (\<lambda>e. ok_or (get_range buf off e) err))"

text \<open>The loop over \<open>windows(2)\<close>; \<open>i\<close> is the index of the window.\<close>

fun verify_sorted_from :: "usize \<Rightarrow> 'a::linorder list \<Rightarrow> usize + unit" where
  "verify_sorted_from i (prev # cur # xs) =
     (if cur \<le> prev then Inl (i + 1) else verify_sorted_from (i + 1) (cur # xs))"
| "verify_sorted_from i xs = Inr ()"

definition verify_sorted :: "'a::linorder list \<Rightarrow> usize + unit" where
  "verify_sorted xs = verify_sorted_from 0 xs"

text \<open>\<open>for _ in 0..k { let a: [u8; N] = decode::array(buf, offset)?; v.push(a); offset += N; }\<close>\<close>

fun decode_arrays :: "nat \<Rightarrow> nat \<Rightarrow> bytes \<Rightarrow> usize \<Rightarrow> BufferTooShort + (bytes list \<times> usize)" where
  "decode_arrays n 0 buf off = Inr ([], off)"
| "decode_arrays n (Suc k) buf off =
     try_bind (decode_array n buf off)
       (\<lambda>a. try_bind (decode_arrays n k buf (off + n)) (\<lambda>(as, off'). Inr (a # as, off')))"


section \<open>Primitive writers\<close>

text \<open>Each writer appends to a buffer; the model is the bytes it appends.\<close>

definition encode_u8 :: "byte \<Rightarrow> bytes" where
  "encode_u8 v = [v]"

definition encode_u16 :: "u16 \<Rightarrow> bytes" where
  "encode_u16 v = to_be_bytes v"

definition encode_u32 :: "u32 \<Rightarrow> bytes" where
  "encode_u32 v = to_be_bytes v"

definition encode_u64 :: "u64 \<Rightarrow> bytes" where
  "encode_u64 v = to_be_bytes v"

definition encode_array :: "bytes \<Rightarrow> bytes" where
  "encode_array a = a"


section \<open>Payload types\<close>

text \<open>
  A type that implements \<open>Schema\<close>, \<open>EncodeFields\<close> and \<open>DecodeFields\<close> is a value of
  this record; \<open>TYPE_NAME\<close> is the \<open>type_name\<close> its errors carry.
\<close>

record 'a Payload =
  TYPE_NAME :: string
  SCHEMA :: bytes
  DISCRIMINANT :: "byte option"
  MIN_SIGNED :: usize
  encode_fields :: "'a \<Rightarrow> bytes"
  fields_size :: "'a \<Rightarrow> usize"
  try_decode_fields :: "bytes \<Rightarrow> DecodeError + ('a \<times> usize)"

definition SEDIMENTREE_PREFIX :: bytes where
  "SEDIMENTREE_PREFIX = [0x53, 0x54]"

definition SUBDUCTION_PREFIX :: bytes where
  "SUBDUCTION_PREFIX = [0x53, 0x55]"

definition schema_header :: "bytes \<Rightarrow> byte \<Rightarrow> byte \<Rightarrow> bytes" where
  "schema_header prefix type_byte version = [prefix ! 0, prefix ! 1, type_byte, version]"

definition disc_size :: "'a Payload \<Rightarrow> usize" where
  "disc_size P = (case DISCRIMINANT P of None \<Rightarrow> 0 | Some _ \<Rightarrow> 1)"

definition signed_size :: "'a Payload \<Rightarrow> 'a \<Rightarrow> usize" where
  "signed_size P x = 4 + disc_size P + 32 + fields_size P x + 64"

definition encode :: "'a Payload \<Rightarrow> 'a \<Rightarrow> bytes" where
  "encode P x = SCHEMA P @ encode_fields P x"

definition encoded_size :: "'a Payload \<Rightarrow> 'a \<Rightarrow> usize" where
  "encoded_size P x = 4 + fields_size P x"


section \<open>Reading back\<close>

lemma decode_u8_Inr_iff [result_iff]:
  "decode_u8 buf off = Inr b \<longleftrightarrow> off < length buf \<and> b = buf ! off"
  by (auto simp: decode_u8_def get_at_def)

lemma decode_array_Inr_iff [result_iff]:
  "decode_array n buf off = Inr a \<longleftrightarrow> off + n \<le> length buf \<and> a = take n (drop off buf)"
  by (auto simp: decode_array_def get_range_def)

lemma decode_u16_Inr_iff [result_iff]:
  "decode_u16 buf off = Inr w \<longleftrightarrow> off + 2 \<le> length buf \<and> w = from_be_bytes (take 2 (drop off buf))"
  by (auto simp: decode_u16_def get_range_def)

lemma decode_u32_Inr_iff [result_iff]:
  "decode_u32 buf off = Inr w \<longleftrightarrow> off + 4 \<le> length buf \<and> w = from_be_bytes (take 4 (drop off buf))"
  by (auto simp: decode_u32_def get_range_def)

lemma decode_u64_Inr_iff [result_iff]:
  "decode_u64 buf off = Inr w \<longleftrightarrow> off + 8 \<le> length buf \<and> w = from_be_bytes (take 8 (drop off buf))"
  by (auto simp: decode_u64_def get_range_def)

lemma length_encode [simp]:
  "length (encode_u8 b) = 1" "length (encode_u16 v) = 2"
  "length (encode_u32 w) = 4" "length (encode_u64 x) = 8"
  by (simp_all add: encode_u8_def encode_u16_def encode_u32_def encode_u64_def)

lemma from_be_encode [simp]:
  "from_be_bytes (encode_u16 v) = v" "from_be_bytes (encode_u32 w) = w" "from_be_bytes (encode_u64 x) = x"
  by (simp_all add: encode_u16_def encode_u32_def encode_u64_def from_to_be_bytes)

lemma encode_u16_from_be [simp]: "length bs = 2 \<Longrightarrow> encode_u16 (from_be_bytes bs) = bs"
  by (simp add: encode_u16_def to_from_be_bytes)

lemma encode_u32_from_be [simp]: "length bs = 4 \<Longrightarrow> encode_u32 (from_be_bytes bs) = bs"
  by (simp add: encode_u32_def to_from_be_bytes)

lemma encode_u64_from_be [simp]: "length bs = 8 \<Longrightarrow> encode_u64 (from_be_bytes bs) = bs"
  by (simp add: encode_u64_def to_from_be_bytes)

lemma verify_sorted_from_ok:
  "verify_sorted_from i xs = Inr () \<longleftrightarrow> sorted_wrt (<) xs"
proof (induction i xs rule: verify_sorted_from.induct)
  case (1 i prev cur xs)
  show ?case
  proof (cases "cur \<le> prev")
    case False
    then have "prev < cur" by simp
    with 1 show ?thesis by (auto intro: less_trans)
  qed auto
qed auto

lemma verify_sorted_from_err:
  assumes "verify_sorted_from i xs = Inl j"
  shows "i < j \<and> j - i < length xs \<and> xs ! (j - i) \<le> xs ! (j - i - 1) \<and> sorted_wrt (<) (take (j - i) xs)"
  using assms
proof (induction i xs rule: verify_sorted_from.induct)
  case (1 i prev cur xs)
  show ?case
  proof (cases "cur \<le> prev")
    case True
    with 1 show ?thesis by auto
  next
    case False
    with 1 have j: "i + 1 < j" "j - (i + 1) < length (cur # xs)"
      "(cur # xs) ! (j - (i + 1)) \<le> (cur # xs) ! (j - (i + 1) - 1)"
      "sorted_wrt (<) (take (j - (i + 1)) (cur # xs))" by auto
    then obtain d where d: "j = i + 2 + d"
      by (metis Suc_1 add_2_eq_Suc' add_Suc_right add_Suc_shift le_Suc_ex less_eq_Suc_le plus_1_eq_Suc)
    have "sorted_wrt (<) (prev # cur # take d xs)"
      using j(4) False d by (auto intro: less_trans)
    with j(2,3) d show ?thesis by (auto simp: numeral_2_eq_2)
  qed
qed auto

lemma verify_sorted_ok [result_iff]: "verify_sorted xs = Inr u \<longleftrightarrow> sorted_wrt (<) xs"
  by (simp add: verify_sorted_def verify_sorted_from_ok)

lemma decode_arrays_concat:
  assumes "\<forall>a \<in> set as. length a = n"
  shows "decode_arrays n (length as) (pre @ concat as @ rest) (length pre)
       = Inr (as, length pre + n * length as)"
  using assms
proof (induction as arbitrary: pre)
  case (Cons a as)
  then have "decode_arrays n (length as) ((pre @ a) @ concat as @ rest) (length (pre @ a))
      = Inr (as, length (pre @ a) + n * length as)" by (intro Cons.IH) simp
  with Cons.prems show ?case by (simp add: decode_array_def get_range_def algebra_simps)
qed simp

lemma decode_arrays_Inr:
  assumes "decode_arrays n k buf off = Inr (as, off')" and "off \<le> length buf"
  shows "off' = off + n * k \<and> off' \<le> length buf \<and> length as = k \<and> (\<forall>a \<in> set as. length a = n)
       \<and> concat as = take (n * k) (drop off buf)"
  using assms
proof (induction n k buf off arbitrary: as off' rule: decode_arrays.induct)
  case (2 n k buf off)
  then obtain as' where as: "as = take n (drop off buf) # as'"
    and rec: "decode_arrays n k buf (off + n) = Inr (as', off')" and le: "off + n \<le> length buf"
    by (auto simp: result_iff)
  from 2(1) [OF rec le]
  have "off' = off + n + n * k" "off' \<le> length buf" "length as' = k" "\<forall>a \<in> set as'. length a = n"
    and c: "concat as' = take (n * k) (drop (off + n) buf)"
    by (auto simp: decode_array_def get_range_def)
  moreover have "take (n + n * k) (drop off buf) = take n (drop off buf) @ take (n * k) (drop (off + n) buf)"
    by (simp add: take_add add.commute)
  ultimately show ?case using as le by (simp add: algebra_simps)
qed simp


section \<open>The contract of a payload type\<close>

text \<open>
  What the signing and storage code relies on: \<open>valid\<close> values survive a round trip, also
  with trailing bytes; a successful decode read exactly the encoding of its result, so
  every value has one encoding; and the announced sizes are the real ones.
\<close>

locale payload_codec =
  fixes P :: "'a Payload"
    and valid :: "'a \<Rightarrow> bool"
  assumes schema_length: "length (SCHEMA P) = 4"
    and decode_encode: "valid x \<Longrightarrow>
      try_decode_fields P (encode_fields P x @ rest) = Inr (x, length (encode_fields P x))"
    and encode_decode: "try_decode_fields P buf = Inr (x, n) \<Longrightarrow>
      valid x \<and> n \<le> length buf \<and> take n buf = encode_fields P x"
    and fields_size_length: "valid x \<Longrightarrow> fields_size P x = length (encode_fields P x)"
    and min_signed_le: "valid x \<Longrightarrow> MIN_SIGNED P \<le> signed_size P x"
    and min_signed_header: "100 \<le> MIN_SIGNED P"
begin

lemma decode_size: "try_decode_fields P buf = Inr (x, n) \<Longrightarrow> n = length (encode_fields P x)"
  using encode_decode [of buf x n] by (metis length_take min.absorb2)

lemma decode_take:
  assumes "try_decode_fields P buf = Inr (x, n)"
  shows "try_decode_fields P (take n buf) = Inr (x, n)"
proof -
  have "valid x" and "take n buf = encode_fields P x" and "n = length (encode_fields P x)"
    using encode_decode [OF assms] decode_size [OF assms] by auto
  then show ?thesis using decode_encode [of x "[]"] by simp
qed

lemma encode_fields_inj:
  assumes "valid x" and "valid y" and "encode_fields P x @ r = encode_fields P y @ s"
  shows "x = y \<and> r = s"
proof -
  have "(x, length (encode_fields P x)) = (y, length (encode_fields P y))"
    using decode_encode [OF assms(1), of r] decode_encode [OF assms(2), of s] assms(3) by simp
  with assms(3) show ?thesis by auto
qed

lemma encode_inj: "valid x \<Longrightarrow> valid y \<Longrightarrow> encode P x = encode P y \<Longrightarrow> x = y"
  using encode_fields_inj [of x y "[]" "[]"] by (simp add: encode_def)

lemma encoded_size_length: "valid x \<Longrightarrow> encoded_size P x = length (encode P x)"
  by (simp add: encoded_size_def encode_def schema_length fields_size_length)

end

end
