(* ===== verification/Types.thy ===== *)
theory Types
  imports Codec
begin

text \<open>
  The data of \<^verbatim>\<open>sedimentree_core\<close>: identifiers, digests, blob metadata, depth metrics,
  fingerprints, loose commits and fragments, with their wire formats. The crates
  \<open>blake3\<close>, \<open>siphasher\<close> and \<open>bijoux\<close> are parameters of the definitions.
\<close>

section \<open>Identifiers\<close>

text \<open>
  The newtypes over \<open>[u8; n]\<close> order by their bytes. The length is the array type of the
  source and a well-formedness condition here.
\<close>

datatype CommitId = CommitId (commit_id_bytes: bytes)

datatype SedimentreeId = SedimentreeId (sedimentree_id_bytes: bytes)

datatype Digest = Digest (digest_bytes: bytes)

datatype Checkpoint = Checkpoint (checkpoint_bytes: bytes)

instantiation CommitId :: linorder
begin
definition less_eq_CommitId where "a \<le> b \<longleftrightarrow> commit_id_bytes a \<le> commit_id_bytes b"
definition less_CommitId where "a < b \<longleftrightarrow> commit_id_bytes a < commit_id_bytes b"
instance
  by standard (auto simp: less_eq_CommitId_def less_CommitId_def intro: CommitId.expand)
end

instantiation SedimentreeId :: linorder
begin
definition less_eq_SedimentreeId where "a \<le> b \<longleftrightarrow> sedimentree_id_bytes a \<le> sedimentree_id_bytes b"
definition less_SedimentreeId where "a < b \<longleftrightarrow> sedimentree_id_bytes a < sedimentree_id_bytes b"
instance
  by standard (auto simp: less_eq_SedimentreeId_def less_SedimentreeId_def intro: SedimentreeId.expand)
end

instantiation Digest :: linorder
begin
definition less_eq_Digest where "a \<le> b \<longleftrightarrow> digest_bytes a \<le> digest_bytes b"
definition less_Digest where "a < b \<longleftrightarrow> digest_bytes a < digest_bytes b"
instance
  by standard (auto simp: less_eq_Digest_def less_Digest_def intro: Digest.expand)
end

instantiation Checkpoint :: linorder
begin
definition less_eq_Checkpoint where "a \<le> b \<longleftrightarrow> checkpoint_bytes a \<le> checkpoint_bytes b"
definition less_Checkpoint where "a < b \<longleftrightarrow> checkpoint_bytes a < checkpoint_bytes b"
instance
  by standard (auto simp: less_eq_Checkpoint_def less_Checkpoint_def intro: Checkpoint.expand)
end

text \<open>\<open>blake3::hash\<close> is a parameter; \<open>Digest::hash\<close> hashes the encoding.\<close>

type_synonym blake3 = "bytes \<Rightarrow> bytes"

definition digest_hash_raw :: "blake3 \<Rightarrow> bytes \<Rightarrow> Digest" where
  "digest_hash_raw blake3 d = Digest (blake3 d)"

definition digest_hash :: "blake3 \<Rightarrow> 'a Payload \<Rightarrow> 'a \<Rightarrow> Digest" where
  "digest_hash blake3 P x = digest_hash_raw blake3 (encode P x)"

definition checkpoint_new :: "CommitId \<Rightarrow> Checkpoint" where
  "checkpoint_new i = Checkpoint (take 12 (commit_id_bytes i))"


section \<open>Blobs\<close>

type_synonym Blob = bytes

record BlobMeta =
  bm_digest :: Digest
  bm_size_bytes :: u64

text \<open>\<open>Encode for Blob\<close> is the contents, so the digest is the hash of the blob itself.\<close>

definition blob_meta_new :: "blake3 \<Rightarrow> Blob \<Rightarrow> BlobMeta" where
  "blob_meta_new blake3 blob =
     \<lparr>bm_digest = digest_hash_raw blake3 blob, bm_size_bytes = word_of_nat (length blob)\<rparr>"

record VerifiedBlobMeta =
  vbm_meta :: BlobMeta
  vbm_blob :: Blob

definition verified_blob_meta_new :: "blake3 \<Rightarrow> Blob \<Rightarrow> VerifiedBlobMeta" where
  "verified_blob_meta_new blake3 blob = \<lparr>vbm_meta = blob_meta_new blake3 blob, vbm_blob = blob\<rparr>"


section \<open>Depth\<close>

type_synonym Depth = u32
type_synonym DepthMetric = "CommitId \<Rightarrow> Depth"

definition is_boundary :: "Depth \<Rightarrow> bool" where
  "is_boundary d \<longleftrightarrow> 0 < d"

fun count_zero_bytes :: "u32 \<Rightarrow> bytes \<Rightarrow> u32" where
  "count_zero_bytes acc [] = acc"
| "count_zero_bytes acc (b # bs) = (if b = 0 then count_zero_bytes (acc + 1) bs else acc)"

definition CountLeadingZeroBytes :: DepthMetric where
  "CountLeadingZeroBytes i = count_zero_bytes 0 (commit_id_bytes i)"


section \<open>Fingerprints\<close>

record FingerprintSeed =
  key0 :: u64
  key1 :: u64

text \<open>SipHash-2-4 with two keys, from the crate \<open>siphasher\<close>.\<close>

type_synonym siphash = "u64 \<Rightarrow> u64 \<Rightarrow> bytes \<Rightarrow> u64"
type_synonym Fingerprint = u64

definition fingerprint_new :: "siphash \<Rightarrow> FingerprintSeed \<Rightarrow> CommitId \<Rightarrow> Fingerprint" where
  "fingerprint_new sip seed i = sip (key0 seed) (key1 seed) (commit_id_bytes i)"


section \<open>Loose commits\<close>

record LooseCommit =
  lc_sedimentree_id :: SedimentreeId
  lc_head :: CommitId
  lc_parents :: "CommitId list"
  lc_blob_meta :: BlobMeta

text \<open>
  The crate \<open>bijoux\<close>: a variable length encoding of \<open>u64\<close>, between one and nine bytes,
  in which every value has exactly one encoding.
\<close>

record Bijoux =
  bj_encode :: "u64 \<Rightarrow> bytes"
  bj_encoded_len :: "u64 \<Rightarrow> usize"
  bj_decode :: "bytes \<Rightarrow> bijou_error + (u64 \<times> usize)"

definition bijoux_laws :: "Bijoux \<Rightarrow> bool" where
  "bijoux_laws bj \<longleftrightarrow>
     (\<forall>v. 1 \<le> length (bj_encode bj v) \<and> length (bj_encode bj v) \<le> 9
        \<and> bj_encoded_len bj v = length (bj_encode bj v)) \<and>
     (\<forall>v rest. bj_decode bj (bj_encode bj v @ rest) = Inr (v, length (bj_encode bj v))) \<and>
     (\<forall>buf v n. bj_decode bj buf = Inr (v, n) \<longrightarrow> n \<le> length buf \<and> take n buf = bj_encode bj v)"

definition LC_FIXED_FIELDS_SIZE :: usize where
  "LC_FIXED_FIELDS_SIZE = 32 + 32 + 32 + 1"

definition LC_MIN_FIELDS_SIZE :: usize where
  "LC_MIN_FIELDS_SIZE = LC_FIXED_FIELDS_SIZE + 1"

definition LC_MIN_SIZE :: usize where
  "LC_MIN_SIZE = 4 + 32 + LC_MIN_FIELDS_SIZE + 64"

definition loose_commit_encode_fields :: "Bijoux \<Rightarrow> LooseCommit \<Rightarrow> bytes" where
  "loose_commit_encode_fields bj c =
     encode_array (sedimentree_id_bytes (lc_sedimentree_id c))
     @ encode_array (commit_id_bytes (lc_head c))
     @ encode_array (digest_bytes (bm_digest (lc_blob_meta c)))
     @ encode_u8 (word_of_nat (length (lc_parents c)))
     @ bj_encode bj (bm_size_bytes (lc_blob_meta c))
     @ concat (map (\<lambda>p. encode_array (commit_id_bytes p)) (lc_parents c))"

definition loose_commit_fields_size :: "Bijoux \<Rightarrow> LooseCommit \<Rightarrow> usize" where
  "loose_commit_fields_size bj c =
     LC_FIXED_FIELDS_SIZE + bj_encoded_len bj (bm_size_bytes (lc_blob_meta c))
     + length (lc_parents c) * 32"

definition lift_bts :: "BufferTooShort + 'a \<Rightarrow> DecodeError + 'a" where
  "lift_bts m = map_err DecodeBufferTooShort m"

definition loose_commit_try_decode_fields :: "Bijoux \<Rightarrow> bytes \<Rightarrow> DecodeError + (LooseCommit \<times> usize)" where
  "loose_commit_try_decode_fields bj buf =
     (if length buf < LC_MIN_FIELDS_SIZE
      then Inl (MessageTooShort ''LooseCommit'' LC_MIN_FIELDS_SIZE (length buf))
      else
        try_bind (lift_bts (decode_array 32 buf 0)) (\<lambda>sedimentree_id.
        try_bind (lift_bts (decode_array 32 buf 32)) (\<lambda>head.
        try_bind (lift_bts (decode_array 32 buf 64)) (\<lambda>blob_digest.
        try_bind (lift_bts (decode_u8 buf 96)) (\<lambda>parent_count.
        try_bind (map_err (Bijou64 97) (bj_decode bj (drop 97 buf))) (\<lambda>(blob_size, consumed).
        (let off = 97 + consumed; parents_size = unat parent_count * 32 in
         if length buf < off + parents_size
         then Inl (DecodeBufferTooShort
                (BufferTooShort (ReadSlice parents_size) off parents_size (length buf - off)))
         else
           try_bind (lift_bts (decode_arrays 32 (unat parent_count) buf off)) (\<lambda>(parent_arrays, off').
           try_bind (map_err UnsortedArray (verify_sorted parent_arrays)) (\<lambda>_.
           Inr (\<lparr>lc_sedimentree_id = SedimentreeId sedimentree_id,
                 lc_head = CommitId head,
                 lc_parents = os_of_list (map CommitId parent_arrays),
                 lc_blob_meta = \<lparr>bm_digest = Digest blob_digest, bm_size_bytes = blob_size\<rparr>\<rparr>,
                off'))))))))))"

definition loose_commit_payload :: "Bijoux \<Rightarrow> LooseCommit Payload" where
  "loose_commit_payload bj =
     \<lparr>TYPE_NAME = ''LooseCommit'',
      SCHEMA = schema_header SEDIMENTREE_PREFIX 0x43 0,
      DISCRIMINANT = None,
      MIN_SIGNED = LC_MIN_SIZE,
      encode_fields = loose_commit_encode_fields bj,
      fields_size = loose_commit_fields_size bj,
      try_decode_fields = loose_commit_try_decode_fields bj\<rparr>"

text \<open>What the types of the source guarantee, and the limit of 255 parents of the wire format.\<close>

definition wf_BlobMeta :: "BlobMeta \<Rightarrow> bool" where
  "wf_BlobMeta m \<longleftrightarrow> length (digest_bytes (bm_digest m)) = 32"

definition wf_LooseCommit :: "LooseCommit \<Rightarrow> bool" where
  "wf_LooseCommit c \<longleftrightarrow>
     length (sedimentree_id_bytes (lc_sedimentree_id c)) = 32 \<and>
     length (commit_id_bytes (lc_head c)) = 32 \<and>
     wf_BlobMeta (lc_blob_meta c) \<and>
     (\<forall>p \<in> set (lc_parents c). length (commit_id_bytes p) = 32) \<and>
     sorted_wrt (<) (lc_parents c) \<and>
     length (lc_parents c) \<le> 255"


section \<open>Fragments\<close>

record FragmentSummary =
  fs_head :: CommitId
  fs_boundary :: "CommitId list"
  fs_blob_meta :: BlobMeta

record Fragment =
  fr_sedimentree_id :: SedimentreeId
  fr_summary :: FragmentSummary
  fr_checkpoints :: "Checkpoint list"

definition fr_head :: "Fragment \<Rightarrow> CommitId" where
  "fr_head f = fs_head (fr_summary f)"

definition fr_boundary :: "Fragment \<Rightarrow> CommitId list" where
  "fr_boundary f = fs_boundary (fr_summary f)"

definition fragment_from_parts ::
    "SedimentreeId \<Rightarrow> CommitId \<Rightarrow> CommitId list \<Rightarrow> Checkpoint list \<Rightarrow> BlobMeta \<Rightarrow> Fragment" where
  "fragment_from_parts sid head boundary checkpoints blob_meta =
     \<lparr>fr_sedimentree_id = sid,
      fr_summary = \<lparr>fs_head = head, fs_boundary = boundary, fs_blob_meta = blob_meta\<rparr>,
      fr_checkpoints = checkpoints\<rparr>"

definition fragment_new ::
    "SedimentreeId \<Rightarrow> CommitId \<Rightarrow> CommitId list \<Rightarrow> CommitId list \<Rightarrow> BlobMeta \<Rightarrow> Fragment" where
  "fragment_new sid head boundary checkpoints blob_meta =
     fragment_from_parts sid head boundary (os_of_list (map checkpoint_new checkpoints)) blob_meta"

definition fragment_summary_depth :: "FragmentSummary \<Rightarrow> DepthMetric \<Rightarrow> Depth" where
  "fragment_summary_depth s to_depth = to_depth (fs_head s)"

definition fragment_depth :: "Fragment \<Rightarrow> DepthMetric \<Rightarrow> Depth" where
  "fragment_depth f to_depth = fragment_summary_depth (fr_summary f) to_depth"

definition supports_block :: "Fragment \<Rightarrow> CommitId \<Rightarrow> bool" where
  "supports_block f i \<longleftrightarrow>
     fr_head f = i \<or> checkpoint_new i \<in> set (fr_checkpoints f) \<or> i \<in> set (fr_boundary f)"

definition supports :: "Fragment \<Rightarrow> FragmentSummary \<Rightarrow> DepthMetric \<Rightarrow> bool" where
  "supports f other to_depth \<longleftrightarrow>
     (if fr_summary f = other then True
      else if fragment_depth f to_depth < fragment_summary_depth other to_depth then False
      else if \<not> supports_block f (fs_head other) then False
      else (\<forall>b \<in> set (fs_boundary other). supports_block f b)
           \<or> set (fs_boundary other) \<subseteq> set (fr_boundary f))"

definition FR_FIXED_FIELDS_SIZE :: usize where
  "FR_FIXED_FIELDS_SIZE = 32 + 32 + 32 + 1 + 2"

definition FR_MIN_FIELDS_SIZE :: usize where
  "FR_MIN_FIELDS_SIZE = FR_FIXED_FIELDS_SIZE + 1"

definition FR_MIN_SIZE :: usize where
  "FR_MIN_SIZE = 4 + 32 + FR_MIN_FIELDS_SIZE + 64"

definition fragment_encode_fields :: "Bijoux \<Rightarrow> Fragment \<Rightarrow> bytes" where
  "fragment_encode_fields bj f =
     encode_array (sedimentree_id_bytes (fr_sedimentree_id f))
     @ encode_array (commit_id_bytes (fr_head f))
     @ encode_array (digest_bytes (bm_digest (fs_blob_meta (fr_summary f))))
     @ encode_u8 (word_of_nat (length (fr_boundary f)))
     @ encode_u16 (word_of_nat (length (fr_checkpoints f)))
     @ bj_encode bj (bm_size_bytes (fs_blob_meta (fr_summary f)))
     @ concat (map (\<lambda>b. encode_array (commit_id_bytes b)) (fr_boundary f))
     @ concat (map (\<lambda>c. encode_array (checkpoint_bytes c)) (fr_checkpoints f))"

definition fragment_fields_size :: "Bijoux \<Rightarrow> Fragment \<Rightarrow> usize" where
  "fragment_fields_size bj f =
     FR_FIXED_FIELDS_SIZE + bj_encoded_len bj (bm_size_bytes (fs_blob_meta (fr_summary f)))
     + length (fr_boundary f) * 32 + length (fr_checkpoints f) * 12"

definition fragment_try_decode_fields :: "Bijoux \<Rightarrow> bytes \<Rightarrow> DecodeError + (Fragment \<times> usize)" where
  "fragment_try_decode_fields bj buf =
     (if length buf < FR_MIN_FIELDS_SIZE
      then Inl (MessageTooShort ''Fragment'' FR_MIN_FIELDS_SIZE (length buf))
      else
        try_bind (lift_bts (decode_array 32 buf 0)) (\<lambda>sedimentree_id.
        try_bind (lift_bts (decode_array 32 buf 32)) (\<lambda>head.
        try_bind (lift_bts (decode_array 32 buf 64)) (\<lambda>blob_digest.
        try_bind (lift_bts (decode_u8 buf 96)) (\<lambda>boundary_count.
        try_bind (lift_bts (decode_u16 buf 97)) (\<lambda>checkpoint_count.
        try_bind (map_err (Bijou64 99) (bj_decode bj (drop 99 buf))) (\<lambda>(blob_size, consumed).
        (let off = 99 + consumed;
             total_variable_size = unat boundary_count * 32 + unat checkpoint_count * 12 in
         if length buf < off + total_variable_size
         then Inl (DecodeBufferTooShort
                (BufferTooShort (ReadSlice total_variable_size) off total_variable_size (length buf - off)))
         else
           try_bind (lift_bts (decode_arrays 32 (unat boundary_count) buf off)) (\<lambda>(boundary_arrays, off').
           try_bind (map_err UnsortedArray (verify_sorted boundary_arrays)) (\<lambda>_.
           try_bind (lift_bts (decode_arrays 12 (unat checkpoint_count) buf off')) (\<lambda>(checkpoint_arrays, off'').
           try_bind (map_err UnsortedArray (verify_sorted checkpoint_arrays)) (\<lambda>_.
           Inr (fragment_from_parts (SedimentreeId sedimentree_id) (CommitId head)
                  (os_of_list (map CommitId boundary_arrays))
                  (os_of_list (map Checkpoint checkpoint_arrays))
                  \<lparr>bm_digest = Digest blob_digest, bm_size_bytes = blob_size\<rparr>,
                off'')))))))))))))"

definition fragment_payload :: "Bijoux \<Rightarrow> Fragment Payload" where
  "fragment_payload bj =
     \<lparr>TYPE_NAME = ''Fragment'',
      SCHEMA = schema_header SEDIMENTREE_PREFIX 0x46 0,
      DISCRIMINANT = None,
      MIN_SIGNED = FR_MIN_SIZE,
      encode_fields = fragment_encode_fields bj,
      fields_size = fragment_fields_size bj,
      try_decode_fields = fragment_try_decode_fields bj\<rparr>"

definition wf_Fragment :: "Fragment \<Rightarrow> bool" where
  "wf_Fragment f \<longleftrightarrow>
     length (sedimentree_id_bytes (fr_sedimentree_id f)) = 32 \<and>
     length (commit_id_bytes (fr_head f)) = 32 \<and>
     wf_BlobMeta (fs_blob_meta (fr_summary f)) \<and>
     (\<forall>b \<in> set (fr_boundary f). length (commit_id_bytes b) = 32) \<and>
     sorted_wrt (<) (fr_boundary f) \<and> length (fr_boundary f) \<le> 255 \<and>
     (\<forall>c \<in> set (fr_checkpoints f). length (checkpoint_bytes c) = 12) \<and>
     sorted_wrt (<) (fr_checkpoints f) \<and> length (fr_checkpoints f) \<le> 65535"


section \<open>The wire formats meet the contract\<close>

lemma lift_bts_Inr_iff [result_iff]: "lift_bts m = Inr y \<longleftrightarrow> m = Inr y"
  by (simp add: lift_bts_def result_iff)

lemma lift_bts_Inr [simp]: "lift_bts (Inr y) = Inr y"
  by (simp add: lift_bts_def)

lemma bijoux_lawsD:
  assumes "bijoux_laws bj"
  shows "1 \<le> length (bj_encode bj v)" and "length (bj_encode bj v) \<le> 9"
    and "bj_encoded_len bj v = length (bj_encode bj v)"
    and "bj_decode bj (bj_encode bj v @ rest) = Inr (v, length (bj_encode bj v))"
  using assms by (simp_all add: bijoux_laws_def)

lemma bijoux_decodeD:
  assumes "bijoux_laws bj" and "bj_decode bj buf = Inr (v, n)"
  shows "n \<le> length buf" and "take n buf = bj_encode bj v"
  using assms by (simp_all add: bijoux_laws_def)

lemma sorted_map_CommitId: "sorted_wrt (<) (map CommitId as) \<longleftrightarrow> sorted_wrt (<) as"
  by (simp add: sorted_wrt_map less_CommitId_def)

lemma sorted_map_commit_id_bytes:
  "sorted_wrt (<) (map commit_id_bytes is) \<longleftrightarrow> sorted_wrt (<) is"
  by (simp add: sorted_wrt_map flip: less_CommitId_def)

lemma sorted_map_Checkpoint: "sorted_wrt (<) (map Checkpoint as) \<longleftrightarrow> sorted_wrt (<) as"
  by (simp add: sorted_wrt_map less_Checkpoint_def)

lemma sorted_map_checkpoint_bytes:
  "sorted_wrt (<) (map checkpoint_bytes cs) \<longleftrightarrow> sorted_wrt (<) cs"
  by (simp add: sorted_wrt_map flip: less_Checkpoint_def)

lemmas sorted_id_maps =
  sorted_map_CommitId sorted_map_commit_id_bytes sorted_map_Checkpoint sorted_map_checkpoint_bytes

lemma length_concat_const: "\<forall>x \<in> set xs. length (g x) = n \<Longrightarrow> length (concat (map g xs)) = length xs * n"
  by (induction xs) auto

lemma loose_commit_decode_encode:
  assumes bj: "bijoux_laws bj" and wf: "wf_LooseCommit c"
  shows "loose_commit_try_decode_fields bj (loose_commit_encode_fields bj c @ rest)
       = Inr (c, length (loose_commit_encode_fields bj c))"
proof -
  define sid where "sid = sedimentree_id_bytes (lc_sedimentree_id c)"
  define hd where "hd = commit_id_bytes (lc_head c)"
  define dg where "dg = digest_bytes (bm_digest (lc_blob_meta c))"
  define bs where "bs = bj_encode bj (bm_size_bytes (lc_blob_meta c))"
  define ps where "ps = map commit_id_bytes (lc_parents c)"
  note len = wf [unfolded wf_LooseCommit_def wf_BlobMeta_def, folded sid_def hd_def dg_def]
  let ?n = "word_of_nat (length (lc_parents c)) :: byte"
  let ?buf = "sid @ hd @ dg @ ?n # bs @ concat ps @ rest"
  have enc: "loose_commit_encode_fields bj c = sid @ hd @ dg @ [?n] @ bs @ concat ps"
    by (simp add: loose_commit_encode_fields_def encode_array_def encode_u8_def
        sid_def hd_def dg_def bs_def ps_def map_concat comp_def)
  have n: "unat ?n = length ps"
    using len by (simp add: unat_of_nat ps_def)
  have ps: "\<forall>a \<in> set ps. length a = 32" and srt: "sorted_wrt (<) ps"
    using len by (auto simp: ps_def sorted_id_maps)
  have lbs: "bs \<noteq> []" using bijoux_lawsD(1) [OF bj, of "bm_size_bytes (lc_blob_meta c)"] by (auto simp: bs_def)
  have "decode_arrays 32 (length ps) ((sid @ hd @ dg @ [?n] @ bs) @ concat ps @ rest)
      (length (sid @ hd @ dg @ [?n] @ bs)) = Inr (ps, length (sid @ hd @ dg @ [?n] @ bs) + 32 * length ps)"
    by (rule decode_arrays_concat [OF ps])
  then have arr: "decode_arrays 32 (length ps) ?buf (97 + length bs) = Inr (ps, 97 + length bs + 32 * length ps)"
    using len by simp
  have lps: "length (concat ps) = 32 * length ps"
    using length_concat_const [of ps "\<lambda>a. a" 32] ps by simp
  have dbj: "bj_decode bj (bs @ concat ps @ rest) = Inr (bm_size_bytes (lc_blob_meta c), length bs)"
    unfolding bs_def by (rule bijoux_lawsD(4) [OF bj])
  have vs: "verify_sorted ps = Inr ()"
    using srt by (simp add: result_iff)
  have par: "os_of_list (map CommitId ps) = lc_parents c"
    using len by (simp add: ps_def comp_def os_of_list_id)
  show ?thesis
    using len lbs lps srt unfolding enc
    by (simp add: loose_commit_try_decode_fields_def LC_MIN_FIELDS_SIZE_def LC_FIXED_FIELDS_SIZE_def
        decode_array_def decode_u8_def get_range_def get_at_def nth_append n arr dbj par
        vs Let_def)
      (simp add: sid_def hd_def dg_def)
qed


lemma take_chain: "a \<le> b \<Longrightarrow> take b xs = take a xs @ take (b - a) (drop a xs)"
  by (metis le_add_diff_inverse take_add)

lemma take_1_drop: "i < length xs \<Longrightarrow> take (Suc 0) (drop i xs) = [xs ! i]"
  by (simp add: take_Suc_conv_app_nth)

lemma loose_commit_encode_decode:
  assumes bj: "bijoux_laws bj" and dec: "loose_commit_try_decode_fields bj buf = Inr (c, n)"
  shows "wf_LooseCommit c \<and> n \<le> length buf \<and> take n buf = loose_commit_encode_fields bj c"
proof -
  from dec obtain bsz k as where
    min: "98 \<le> length buf"
    and dbj: "bj_decode bj (drop 97 buf) = Inr (bsz, k)"
    and room: "97 + k + unat (buf ! 96) * 32 \<le> length buf"
    and arr: "decode_arrays 32 (unat (buf ! 96)) buf (97 + k) = Inr (as, n)"
    and srt: "sorted_wrt (<) as"
    and c: "c = \<lparr>lc_sedimentree_id = SedimentreeId (take 32 buf), lc_head = CommitId (take 32 (drop 32 buf)),
       lc_parents = os_of_list (map CommitId as),
       lc_blob_meta = \<lparr>bm_digest = Digest (take 32 (drop 64 buf)), bm_size_bytes = bsz\<rparr>\<rparr>"
    by (auto simp: loose_commit_try_decode_fields_def result_iff Let_def not_less
        LC_MIN_FIELDS_SIZE_def LC_FIXED_FIELDS_SIZE_def split: if_splits)
  let ?cnt = "unat (buf ! 96)"
  have a: "n = 97 + k + 32 * ?cnt" "n \<le> length buf" "length as = ?cnt" "\<forall>a \<in> set as. length a = 32"
    "concat as = take (32 * ?cnt) (drop (97 + k) buf)"
    using decode_arrays_Inr [OF arr] room by auto
  have par: "os_of_list (map CommitId as) = map CommitId as"
    using srt by (simp add: os_of_list_id sorted_id_maps)
  have cnt: "?cnt \<le> 255" by (rule unat_u8_le)
  have wf: "wf_LooseCommit c"
    using a srt cnt min by (auto simp: c par wf_LooseCommit_def wf_BlobMeta_def sorted_id_maps)
  have "take n buf = take 32 buf @ take 32 (drop 32 buf) @ take 32 (drop 64 buf) @ take 1 (drop 96 buf)
      @ take k (drop 97 buf) @ take (32 * ?cnt) (drop (97 + k) buf)"
    using a(1) take_chain [of 32 n buf] take_chain [of 32 "n - 32" "drop 32 buf"]
      take_chain [of 32 "n - 64" "drop 64 buf"] take_chain [of 1 "n - 96" "drop 96 buf"]
      take_chain [of k "n - 97" "drop 97 buf"]
    by (simp add: add.commute)
  moreover have "take 1 (drop 96 buf) = [buf ! 96]"
    using min by (simp add: take_1_drop)
  moreover have "take k (drop 97 buf) = bj_encode bj bsz"
    using bijoux_decodeD(2) [OF bj dbj] .
  ultimately have "take n buf = loose_commit_encode_fields bj c"
    using a by (simp add: c par loose_commit_encode_fields_def encode_array_def encode_u8_def comp_def)
  with wf a(2) show ?thesis by simp
qed

lemma loose_commit_fields_length:
  assumes "bijoux_laws bj" and "wf_LooseCommit c"
  shows "loose_commit_fields_size bj c = length (loose_commit_encode_fields bj c)"
proof -
  have "length (concat (map (\<lambda>p. encode_array (commit_id_bytes p)) (lc_parents c))) = length (lc_parents c) * 32"
    using assms(2) by (intro length_concat_const) (simp add: wf_LooseCommit_def encode_array_def)
  then show ?thesis
    using assms bijoux_lawsD [OF assms(1)]
    by (simp add: loose_commit_fields_size_def loose_commit_encode_fields_def LC_FIXED_FIELDS_SIZE_def
        encode_array_def wf_LooseCommit_def wf_BlobMeta_def)
qed

lemma loose_commit_payload_codec:
  assumes "bijoux_laws bj"
  shows "payload_codec (loose_commit_payload bj) wf_LooseCommit"
proof
  show "length (SCHEMA (loose_commit_payload bj)) = 4"
    by (simp add: loose_commit_payload_def schema_header_def)
  show "100 \<le> MIN_SIGNED (loose_commit_payload bj)"
    by (simp add: loose_commit_payload_def LC_MIN_SIZE_def LC_MIN_FIELDS_SIZE_def LC_FIXED_FIELDS_SIZE_def)
next
  fix c rest
  assume wf: "wf_LooseCommit c"
  show "try_decode_fields (loose_commit_payload bj) (encode_fields (loose_commit_payload bj) c @ rest)
      = Inr (c, length (encode_fields (loose_commit_payload bj) c))"
    using loose_commit_decode_encode [OF assms wf] by (simp add: loose_commit_payload_def)
  show "fields_size (loose_commit_payload bj) c = length (encode_fields (loose_commit_payload bj) c)"
    using loose_commit_fields_length [OF assms wf] by (simp add: loose_commit_payload_def)
  show "MIN_SIGNED (loose_commit_payload bj) \<le> signed_size (loose_commit_payload bj) c"
    using bijoux_lawsD(1,3) [OF assms, of "bm_size_bytes (lc_blob_meta c)"]
    by (simp add: loose_commit_payload_def signed_size_def disc_size_def loose_commit_fields_size_def
        LC_MIN_SIZE_def LC_MIN_FIELDS_SIZE_def LC_FIXED_FIELDS_SIZE_def)
next
  fix buf c n
  assume "try_decode_fields (loose_commit_payload bj) buf = Inr (c, n)"
  then show "wf_LooseCommit c \<and> n \<le> length buf \<and> take n buf = encode_fields (loose_commit_payload bj) c"
    using loose_commit_encode_decode [OF assms] by (simp add: loose_commit_payload_def)
qed


lemma fragment_decode_encode:
  assumes bj: "bijoux_laws bj" and wf: "wf_Fragment f"
  shows "fragment_try_decode_fields bj (fragment_encode_fields bj f @ rest)
       = Inr (f, length (fragment_encode_fields bj f))"
proof -
  define sid where "sid = sedimentree_id_bytes (fr_sedimentree_id f)"
  define hd where "hd = commit_id_bytes (fr_head f)"
  define dg where "dg = digest_bytes (bm_digest (fs_blob_meta (fr_summary f)))"
  define bs where "bs = bj_encode bj (bm_size_bytes (fs_blob_meta (fr_summary f)))"
  define ps where "ps = map commit_id_bytes (fr_boundary f)"
  define cs where "cs = map checkpoint_bytes (fr_checkpoints f)"
  define nc where "nc = encode_u16 (word_of_nat (length (fr_checkpoints f)))"
  note len = wf [unfolded wf_Fragment_def wf_BlobMeta_def, folded sid_def hd_def dg_def]
  let ?n = "word_of_nat (length (fr_boundary f)) :: byte"
  let ?pre = "sid @ hd @ dg @ ?n # nc @ bs"
  let ?buf = "sid @ hd @ dg @ ?n # nc @ bs @ concat ps @ concat cs @ rest"
  have enc: "fragment_encode_fields bj f = sid @ hd @ dg @ ?n # nc @ bs @ concat ps @ concat cs"
    by (simp add: fragment_encode_fields_def encode_array_def encode_u8_def
        sid_def hd_def dg_def bs_def ps_def cs_def nc_def comp_def)
  have n: "unat ?n = length ps" and m: "unat (word_of_nat (length (fr_checkpoints f)) :: u16) = length cs"
    using len by (simp_all add: unat_of_nat ps_def cs_def)
  have nc: "length nc = 2" "from_be_bytes nc = (word_of_nat (length (fr_checkpoints f)) :: u16)"
    by (simp_all add: nc_def)
  have ps: "\<forall>a \<in> set ps. length a = 32" and cs: "\<forall>a \<in> set cs. length a = 12"
    and srt: "verify_sorted ps = Inr ()" "verify_sorted cs = Inr ()"
    using len by (auto simp: ps_def cs_def sorted_id_maps result_iff)
  have lbs: "bs \<noteq> []"
    using bijoux_lawsD(1) [OF bj, of "bm_size_bytes (fs_blob_meta (fr_summary f))"] by (auto simp: bs_def)
  have lps: "length (concat ps) = 32 * length ps" and lcs: "length (concat cs) = 12 * length cs"
    using length_concat_const [of ps "\<lambda>a. a" 32] length_concat_const [of cs "\<lambda>a. a" 12] ps cs by simp_all
  have arr: "decode_arrays 32 (length ps) ?buf (99 + length bs) = Inr (ps, 99 + length bs + 32 * length ps)"
    using decode_arrays_concat [OF ps, of ?pre "concat cs @ rest"] len nc by simp
  have arr': "decode_arrays 12 (length cs) ?buf (99 + length bs + 32 * length ps)
      = Inr (cs, 99 + length bs + 32 * length ps + 12 * length cs)"
    using decode_arrays_concat [OF cs, of "?pre @ concat ps" rest] len nc lps by (simp add: add.assoc)
  have dbj: "bj_decode bj (bs @ concat ps @ concat cs @ rest)
      = Inr (bm_size_bytes (fs_blob_meta (fr_summary f)), length bs)"
    unfolding bs_def by (rule bijoux_lawsD(4) [OF bj])
  have par: "os_of_list (map CommitId ps) = fr_boundary f" "os_of_list (map Checkpoint cs) = fr_checkpoints f"
    using len by (simp_all add: ps_def cs_def comp_def os_of_list_id)
  show ?thesis
    using len lbs lps lcs unfolding enc
    by (simp add: fragment_try_decode_fields_def FR_MIN_FIELDS_SIZE_def FR_FIXED_FIELDS_SIZE_def
        decode_array_def decode_u8_def decode_u16_def get_range_def get_at_def nth_append n m nc
        arr arr' dbj par srt Let_def fragment_from_parts_def)
      (simp add: sid_def hd_def dg_def fr_head_def fr_boundary_def)
qed

lemma fragment_encode_decode:
  assumes bj: "bijoux_laws bj" and dec: "fragment_try_decode_fields bj buf = Inr (f, n)"
  shows "wf_Fragment f \<and> n \<le> length buf \<and> take n buf = fragment_encode_fields bj f"
proof -
  define nb where "nb = unat (buf ! 96)"
  define nc where "nc = unat (from_be_bytes (take 2 (drop 97 buf)) :: u16)"
  from dec obtain bsz k as bs n' where
    min: "100 \<le> length buf"
    and dbj: "bj_decode bj (drop 99 buf) = Inr (bsz, k)"
    and room: "99 + k + (nb * 32 + nc * 12) \<le> length buf"
    and arr: "decode_arrays 32 nb buf (99 + k) = Inr (as, n')"
    and brr: "decode_arrays 12 nc buf n' = Inr (bs, n)"
    and srt: "sorted_wrt (<) as" "sorted_wrt (<) bs"
    and f: "f = fragment_from_parts (SedimentreeId (take 32 buf)) (CommitId (take 32 (drop 32 buf)))
        (os_of_list (map CommitId as)) (os_of_list (map Checkpoint bs))
        \<lparr>bm_digest = Digest (take 32 (drop 64 buf)), bm_size_bytes = bsz\<rparr>"
    by (auto simp: fragment_try_decode_fields_def result_iff Let_def not_less nb_def nc_def
        FR_MIN_FIELDS_SIZE_def FR_FIXED_FIELDS_SIZE_def split: if_splits)
  have a: "n' = 99 + k + 32 * nb" "n' \<le> length buf" "length as = nb" "\<forall>a \<in> set as. length a = 32"
    "concat as = take (32 * nb) (drop (99 + k) buf)"
    using decode_arrays_Inr [OF arr] room by auto
  have b: "n = n' + 12 * nc" "n \<le> length buf" "length bs = nc" "\<forall>a \<in> set bs. length a = 12"
    "concat bs = take (12 * nc) (drop n' buf)"
    using decode_arrays_Inr [OF brr a(2)] by auto
  have par: "os_of_list (map CommitId as) = map CommitId as" "os_of_list (map Checkpoint bs) = map Checkpoint bs"
    using srt by (simp_all add: os_of_list_id sorted_id_maps)
  have cnt: "nb \<le> 255" "nc \<le> 65535"
    by (simp_all add: nb_def nc_def unat_u8_le unat_u16_le)
  have wf: "wf_Fragment f"
    using a b srt cnt min
    by (auto simp: f par wf_Fragment_def wf_BlobMeta_def sorted_id_maps fragment_from_parts_def
        fr_head_def fr_boundary_def)
  have "take n buf = take 32 buf @ take 32 (drop 32 buf) @ take 32 (drop 64 buf) @ take 1 (drop 96 buf)
      @ take 2 (drop 97 buf) @ take k (drop 99 buf) @ take (32 * nb) (drop (99 + k) buf) @ take (12 * nc) (drop n' buf)"
    using a(1) b(1) take_chain [of 32 n buf] take_chain [of 32 "n - 32" "drop 32 buf"]
      take_chain [of 32 "n - 64" "drop 64 buf"] take_chain [of 1 "n - 96" "drop 96 buf"]
      take_chain [of 2 "n - 97" "drop 97 buf"] take_chain [of k "n - 99" "drop 99 buf"]
      take_chain [of "32 * nb" "n - (99 + k)" "drop (99 + k) buf"]
    by (simp add: add.commute add.left_commute)
  moreover have "take 1 (drop 96 buf) = [word_of_nat nb]"
    using min by (simp add: take_1_drop nb_def)
  moreover have "take 2 (drop 97 buf) = encode_u16 (word_of_nat nc)"
    using min by (simp add: nc_def)
  moreover have "take k (drop 99 buf) = bj_encode bj bsz"
    using bijoux_decodeD(2) [OF bj dbj] .
  ultimately have "take n buf = fragment_encode_fields bj f"
    using a b by (simp add: f par fragment_encode_fields_def encode_array_def encode_u8_def comp_def
        fragment_from_parts_def fr_head_def fr_boundary_def)
  with wf b(2) show ?thesis by simp
qed

lemma fragment_fields_length:
  assumes "bijoux_laws bj" and "wf_Fragment f"
  shows "fragment_fields_size bj f = length (fragment_encode_fields bj f)"
proof -
  have "length (concat (map (\<lambda>p. encode_array (commit_id_bytes p)) (fr_boundary f))) = length (fr_boundary f) * 32"
    and "length (concat (map (\<lambda>p. encode_array (checkpoint_bytes p)) (fr_checkpoints f))) = length (fr_checkpoints f) * 12"
    using assms(2) by (intro length_concat_const; simp add: wf_Fragment_def encode_array_def)+
  then show ?thesis
    using assms bijoux_lawsD [OF assms(1)]
    by (simp add: fragment_fields_size_def fragment_encode_fields_def FR_FIXED_FIELDS_SIZE_def
        encode_array_def wf_Fragment_def wf_BlobMeta_def)
qed

lemma fragment_payload_codec:
  assumes "bijoux_laws bj"
  shows "payload_codec (fragment_payload bj) wf_Fragment"
proof
  show "length (SCHEMA (fragment_payload bj)) = 4"
    by (simp add: fragment_payload_def schema_header_def)
  show "100 \<le> MIN_SIGNED (fragment_payload bj)"
    by (simp add: fragment_payload_def FR_MIN_SIZE_def FR_MIN_FIELDS_SIZE_def FR_FIXED_FIELDS_SIZE_def)
next
  fix f rest
  assume wf: "wf_Fragment f"
  show "try_decode_fields (fragment_payload bj) (encode_fields (fragment_payload bj) f @ rest)
      = Inr (f, length (encode_fields (fragment_payload bj) f))"
    using fragment_decode_encode [OF assms wf] by (simp add: fragment_payload_def)
  show "fields_size (fragment_payload bj) f = length (encode_fields (fragment_payload bj) f)"
    using fragment_fields_length [OF assms wf] by (simp add: fragment_payload_def)
  show "MIN_SIGNED (fragment_payload bj) \<le> signed_size (fragment_payload bj) f"
    using bijoux_lawsD(1,3) [OF assms, of "bm_size_bytes (fs_blob_meta (fr_summary f))"]
    by (simp add: fragment_payload_def signed_size_def disc_size_def fragment_fields_size_def
        FR_MIN_SIZE_def FR_MIN_FIELDS_SIZE_def FR_FIXED_FIELDS_SIZE_def)
next
  fix buf f n
  assume "try_decode_fields (fragment_payload bj) buf = Inr (f, n)"
  then show "wf_Fragment f \<and> n \<le> length buf \<and> take n buf = encode_fields (fragment_payload bj) f"
    using fragment_encode_decode [OF assms] by (simp add: fragment_payload_def)
qed

end
