(* ===== verification/Signed.thy ===== *)
theory Signed
  imports Types
begin

text \<open>
  Signed payloads, \<^verbatim>\<open>subduction_crypto/src\<close>: the wire format of \<open>Signed<T>\<close>, verification
  witnesses and blob checked payloads. Ed25519 is a parameter: which byte strings are
  verifying keys and which signatures verify.
\<close>

section \<open>Keys and signers\<close>

type_synonym VerifyingKey = bytes
type_synonym Signature = bytes

record Ed25519 =
  key_from_bytes_ok :: "bytes \<Rightarrow> bool"
  verify_strict :: "VerifyingKey \<Rightarrow> bytes \<Rightarrow> Signature \<Rightarrow> bool"

record Signer =
  sign :: "bytes \<Rightarrow> Signature"
  verifying_key :: VerifyingKey

text \<open>The signer holds the key it names: keys and signatures have their sizes and its signatures verify.\<close>

definition signer_ok :: "Ed25519 \<Rightarrow> Signer \<Rightarrow> bool" where
  "signer_ok ed s \<longleftrightarrow>
     length (verifying_key s) = 32 \<and> key_from_bytes_ok ed (verifying_key s) \<and>
     (\<forall>m. length (sign s m) = 64 \<and> verify_strict ed (verifying_key s) m (sign s m))"


section \<open>Signed payloads\<close>

definition SCHEMA_SIZE :: usize where "SCHEMA_SIZE = 4"
definition VERIFYING_KEY_SIZE :: usize where "VERIFYING_KEY_SIZE = 32"
definition SIGNATURE_SIZE :: usize where "SIGNATURE_SIZE = 64"

record Signed =
  sg_issuer :: VerifyingKey
  sg_signature :: Signature
  sg_bytes :: bytes

definition payload_bytes :: "Signed \<Rightarrow> bytes" where
  "payload_bytes s = take (length (sg_bytes s) - SIGNATURE_SIZE) (sg_bytes s)"

definition fields_bytes :: "'a Payload \<Rightarrow> Signed \<Rightarrow> bytes" where
  "fields_bytes P s =
     (let start = SCHEMA_SIZE + disc_size P + VERIFYING_KEY_SIZE;
          stop = length (sg_bytes s) - SIGNATURE_SIZE
      in case get_range (sg_bytes s) start stop of None \<Rightarrow> [] | Some bs \<Rightarrow> bs)"

text \<open>\<open>decode_header\<close>: the checks on the header and the size of the whole message.\<close>

definition decode_header :: "Ed25519 \<Rightarrow> 'a Payload \<Rightarrow> bytes \<Rightarrow> DecodeError + (VerifyingKey \<times> Signature \<times> usize)" where
  "decode_header ed P bs =
     (let too_short = (\<lambda>need. MessageTooShort (TYPE_NAME P) need (length bs)) in
      if length bs < MIN_SIGNED P then Inl (too_short (MIN_SIGNED P))
      else
        try_bind (ok_or (get_range bs 0 SCHEMA_SIZE) (too_short SCHEMA_SIZE)) (\<lambda>schema.
        if schema \<noteq> SCHEMA P then Inl (InvalidSchema (SCHEMA P) schema)
        else
        try_bind
          (case DISCRIMINANT P of
             None \<Rightarrow> Inr ()
           | Some expected_disc \<Rightarrow>
               try_bind (ok_or (get_at bs SCHEMA_SIZE) (too_short (SCHEMA_SIZE + 1))) (\<lambda>got_disc.
               if got_disc \<noteq> expected_disc then Inl (InvalidDiscriminant expected_disc got_disc)
               else Inr ()))
          (\<lambda>_.
        let issuer_start = SCHEMA_SIZE + disc_size P in
        try_bind (ok_or (get_range bs issuer_start (issuer_start + VERIFYING_KEY_SIZE))
            (too_short (issuer_start + VERIFYING_KEY_SIZE))) (\<lambda>issuer.
        if \<not> key_from_bytes_ok ed issuer then Inl InvalidVerifyingKey
        else
        let fields_start = issuer_start + VERIFYING_KEY_SIZE in
        try_bind (ok_or (get_range bs fields_start (length bs)) (too_short (fields_start + 1))) (\<lambda>fields.
        try_bind (try_decode_fields P fields) (\<lambda>(_, fields_len).
        let actual_size = SCHEMA_SIZE + disc_size P + VERIFYING_KEY_SIZE + fields_len + SIGNATURE_SIZE in
        if length bs < actual_size then Inl (too_short actual_size)
        else
        let sig_start = fields_start + fields_len in
        try_bind (ok_or (get_range bs sig_start (sig_start + SIGNATURE_SIZE))
            (MessageTooShort (TYPE_NAME P) SIGNATURE_SIZE (length bs - sig_start))) (\<lambda>signature.
        Inr (issuer, signature, actual_size))))))))"

definition try_decode_prefix :: "Ed25519 \<Rightarrow> 'a Payload \<Rightarrow> bytes \<Rightarrow> DecodeError + (Signed \<times> usize)" where
  "try_decode_prefix ed P bs =
     try_bind (decode_header ed P bs) (\<lambda>(issuer, signature, actual_size).
     try_bind (ok_or (get_range bs 0 actual_size)
         (MessageTooShort (TYPE_NAME P) actual_size (length bs))) (\<lambda>message.
     Inr (\<lparr>sg_issuer = issuer, sg_signature = signature, sg_bytes = message\<rparr>, actual_size)))"

definition signed_try_decode :: "Ed25519 \<Rightarrow> 'a Payload \<Rightarrow> bytes \<Rightarrow> DecodeError + Signed" where
  "signed_try_decode ed P bs = try_bind (try_decode_prefix ed P bs) (\<lambda>(s, _). Inr s)"

definition try_decode_trusted_payload :: "'a Payload \<Rightarrow> Signed \<Rightarrow> DecodeError + 'a" where
  "try_decode_trusted_payload P s =
     try_bind (try_decode_fields P (fields_bytes P s)) (\<lambda>(payload, _). Inr payload)"

definition seal_payload_bytes :: "'a Payload \<Rightarrow> VerifyingKey \<Rightarrow> 'a \<Rightarrow> bytes" where
  "seal_payload_bytes P issuer x =
     SCHEMA P @ (case DISCRIMINANT P of None \<Rightarrow> [] | Some d \<Rightarrow> [d]) @ issuer @ encode_fields P x"

text \<open>The low-level constructor writes no discriminant.\<close>

definition from_parts :: "'a Payload \<Rightarrow> VerifyingKey \<Rightarrow> Signature \<Rightarrow> 'a \<Rightarrow> Signed" where
  "from_parts P issuer signature x =
     \<lparr>sg_issuer = issuer, sg_signature = signature,
      sg_bytes = SCHEMA P @ issuer @ encode_fields P x @ signature\<rparr>"


section \<open>Verification witnesses\<close>

datatype VerificationError = VerificationInvalidSignature | VerificationCodec DecodeError

record 'a VerifiedSignature =
  vs_signed :: Signed
  vs_payload :: 'a

definition try_from_signed :: "Ed25519 \<Rightarrow> 'a Payload \<Rightarrow> Signed \<Rightarrow> VerificationError + 'a VerifiedSignature" where
  "try_from_signed ed P s =
     (if \<not> verify_strict ed (sg_issuer s) (payload_bytes s) (sg_signature s)
      then Inl VerificationInvalidSignature
      else
        try_bind (map_err VerificationCodec (try_decode_fields P (fields_bytes P s))) (\<lambda>(payload, _).
        Inr \<lparr>vs_signed = s, vs_payload = payload\<rparr>))"

definition try_verify :: "Ed25519 \<Rightarrow> 'a Payload \<Rightarrow> Signed \<Rightarrow> VerificationError + 'a VerifiedSignature" where
  "try_verify ed P s = try_from_signed ed P s"

definition try_from_trusted :: "'a Payload \<Rightarrow> Signed \<Rightarrow> DecodeError + 'a VerifiedSignature" where
  "try_from_trusted P s =
     try_bind (try_decode_trusted_payload P s) (\<lambda>payload. Inr \<lparr>vs_signed = s, vs_payload = payload\<rparr>)"

definition seal :: "Signer \<Rightarrow> 'a Payload \<Rightarrow> 'a \<Rightarrow> 'a VerifiedSignature" where
  "seal signer P x =
     (let issuer = verifying_key signer;
          bs = seal_payload_bytes P issuer x;
          signature = sign signer bs
      in \<lparr>vs_signed = \<lparr>sg_issuer = issuer, sg_signature = signature, sg_bytes = bs @ signature\<rparr>,
          vs_payload = x\<rparr>)"


section \<open>Blob checked payloads\<close>

datatype BlobMismatch = BlobMismatch BlobMeta BlobMeta

record 'a VerifiedMeta =
  vm_verified :: "'a VerifiedSignature"
  vm_blob :: Blob

text \<open>\<open>HasBlobMeta::blob_meta\<close> of the payload type is the argument \<open>blob_meta\<close>.\<close>

definition verified_meta_new ::
    "blake3 \<Rightarrow> ('a \<Rightarrow> BlobMeta) \<Rightarrow> 'a VerifiedSignature \<Rightarrow> Blob \<Rightarrow> BlobMismatch + 'a VerifiedMeta" where
  "verified_meta_new blake3 blob_meta verified blob =
     (let actual = blob_meta_new blake3 blob; claimed = blob_meta (vs_payload verified) in
      if actual \<noteq> claimed then Inl (BlobMismatch claimed actual)
      else Inr \<lparr>vm_verified = verified, vm_blob = blob\<rparr>)"

text \<open>\<open>from_args\<close> is \<open>HasBlobMeta::from_args\<close> applied to the arguments other than the metadata.\<close>

definition verified_meta_seal ::
    "Signer \<Rightarrow> 'a Payload \<Rightarrow> (BlobMeta \<Rightarrow> 'a) \<Rightarrow> VerifiedBlobMeta \<Rightarrow> 'a VerifiedMeta" where
  "verified_meta_seal signer P from_args vb =
     \<lparr>vm_verified = seal signer P (from_args (vbm_meta vb)), vm_blob = vbm_blob vb\<rparr>"

definition verified_meta_try_from_trusted :: "'a Payload \<Rightarrow> Signed \<Rightarrow> Blob \<Rightarrow> DecodeError + 'a VerifiedMeta" where
  "verified_meta_try_from_trusted P s blob =
     try_bind (try_from_trusted P s) (\<lambda>verified. Inr \<lparr>vm_verified = verified, vm_blob = blob\<rparr>)"


section \<open>Lemmas for every payload type\<close>

lemmas sizes = SCHEMA_SIZE_def VERIFYING_KEY_SIZE_def SIGNATURE_SIZE_def

definition disc_bytes :: "'a Payload \<Rightarrow> bytes" where
  "disc_bytes P = (case DISCRIMINANT P of None \<Rightarrow> [] | Some d \<Rightarrow> [d])"

lemma length_disc_bytes [simp]: "length (disc_bytes P) = disc_size P"
  by (simp add: disc_bytes_def disc_size_def split: option.splits)

lemma seal_payload_bytes_disc:
  "seal_payload_bytes P issuer x = SCHEMA P @ disc_bytes P @ issuer @ encode_fields P x"
  by (simp add: seal_payload_bytes_def disc_bytes_def)

context payload_codec
begin

text \<open>A buffer with the layout of a signed message passes the header check.\<close>

lemma decode_header_layout:
  assumes "valid x" and "length issuer = 32" and "key_from_bytes_ok ed issuer" and "length sg = 64"
  shows "decode_header ed P (seal_payload_bytes P issuer x @ sg @ rest) = Inr (issuer, sg, signed_size P x)"
proof -
  let ?bs = "SCHEMA P @ disc_bytes P @ issuer @ encode_fields P x @ sg @ rest"
  have min: "\<not> length ?bs < MIN_SIGNED P"
    using min_signed_le [OF assms(1)] assms(2,4) fields_size_length [OF assms(1)]
    by (simp add: signed_size_def schema_length)
  have disc: "(case DISCRIMINANT P of None \<Rightarrow> Inr ()
      | Some e \<Rightarrow> try_bind (ok_or (get_at ?bs SCHEMA_SIZE) err) (\<lambda>g. if g \<noteq> e then Inl (InvalidDiscriminant e g) else Inr ()))
      = Inr ()" for err
    by (auto simp: disc_bytes_def get_at_def nth_append schema_length sizes split: option.splits)
  show ?thesis
    using min assms(2-4) disc fields_size_length [OF assms(1)]
    by (simp add: seal_payload_bytes_disc decode_header_def sizes get_range_def schema_length Let_def
        decode_encode [OF assms(1)] signed_size_def)
qed

lemma try_decode_prefix_layout:
  assumes "valid x" and "length issuer = 32" and "key_from_bytes_ok ed issuer" and "length sg = 64"
  shows "try_decode_prefix ed P (seal_payload_bytes P issuer x @ sg @ rest)
    = Inr (\<lparr>sg_issuer = issuer, sg_signature = sg, sg_bytes = seal_payload_bytes P issuer x @ sg\<rparr>, signed_size P x)"
proof -
  have "length (seal_payload_bytes P issuer x @ sg) = signed_size P x"
    using assms fields_size_length [OF assms(1)]
    by (simp add: seal_payload_bytes_disc schema_length signed_size_def)
  then show ?thesis
    using decode_header_layout [OF assms] by (simp add: try_decode_prefix_def get_range_def)
qed

text \<open>Conversely, whatever decodes has this layout.\<close>

lemma try_decode_prefix_inv:
  assumes "try_decode_prefix ed P bs = Inr (s, n)"
  shows "\<exists>x. valid x \<and> sg_bytes s = seal_payload_bytes P (sg_issuer s) x @ sg_signature s
    \<and> length (sg_issuer s) = 32 \<and> length (sg_signature s) = 64 \<and> key_from_bytes_ok ed (sg_issuer s)
    \<and> n = signed_size P x \<and> n \<le> length bs \<and> take n bs = sg_bytes s"
proof -
  let ?d = "disc_size P"
  from assms obtain x fl where
    sch: "take 4 bs = SCHEMA P"
    and disc: "DISCRIMINANT P = None \<or> (\<exists>d. DISCRIMINANT P = Some d \<and> 4 < length bs \<and> bs ! 4 = d)"
    and len: "36 + ?d \<le> length bs" and n: "n = 100 + ?d + fl" "n \<le> length bs"
    and key: "key_from_bytes_ok ed (take 32 (drop (4 + ?d) bs))"
    and dec: "try_decode_fields P (drop (36 + ?d) bs) = Inr (x, fl)"
    and s: "s = \<lparr>sg_issuer = take 32 (drop (4 + ?d) bs), sg_signature = take 64 (drop (36 + ?d + fl) bs),
      sg_bytes = take n bs\<rparr>"
    by (fastforce simp: try_decode_prefix_def decode_header_def Let_def result_iff sizes get_range_def get_at_def
        algebra_simps split: if_splits option.splits)
  have x: "valid x" "take fl (drop (36 + ?d) bs) = encode_fields P x" "fl = length (encode_fields P x)"
    using encode_decode [OF dec] decode_size [OF dec] by auto
  have "take ?d (drop 4 bs) = disc_bytes P"
    using disc by (auto simp: disc_bytes_def disc_size_def take_1_drop)
  moreover have "take n bs = take 4 bs @ take ?d (drop 4 bs) @ take 32 (drop (4 + ?d) bs)
      @ take fl (drop (36 + ?d) bs) @ take 64 (drop (36 + ?d + fl) bs)"
    using n take_chain [of 4 n bs] take_chain [of ?d "n - 4" "drop 4 bs"]
      take_chain [of 32 "n - (4 + ?d)" "drop (4 + ?d) bs"] take_chain [of fl "n - (36 + ?d)" "drop (36 + ?d) bs"]
    by (simp add: algebra_simps)
  ultimately have "sg_bytes s = seal_payload_bytes P (sg_issuer s) x @ sg_signature s"
    using sch x(2) by (simp add: s seal_payload_bytes_disc)
  moreover have "n = signed_size P x"
    using n(1) x(1,3) fields_size_length by (simp add: signed_size_def)
  ultimately show ?thesis
    using x(1) n len key by (auto simp: s)
qed

lemma fields_bytes_layout:
  assumes "sg_bytes s = seal_payload_bytes P issuer x @ sg" and "length issuer = 32" and "length sg = 64"
  shows "fields_bytes P s = encode_fields P x" and "payload_bytes s = seal_payload_bytes P issuer x"
  using assms by (simp_all add: fields_bytes_def payload_bytes_def Let_def sizes get_range_def
      seal_payload_bytes_disc schema_length)

lemma try_verify_layout:
  assumes "sg_bytes s = seal_payload_bytes P issuer x @ sg" and "length issuer = 32" and "length sg = 64"
    and "valid x"
  shows "try_verify ed P s =
    (if verify_strict ed (sg_issuer s) (seal_payload_bytes P issuer x) (sg_signature s)
     then Inr \<lparr>vs_signed = s, vs_payload = x\<rparr> else Inl VerificationInvalidSignature)"
  using fields_bytes_layout [OF assms(1-3)] decode_encode [OF assms(4), of "[]"]
  by (simp add: try_verify_def try_from_signed_def)

lemma signed_size_seal:
  assumes "valid x" and "signer_ok ed signer"
  shows "length (sg_bytes (vs_signed (seal signer P x))) = signed_size P x"
  using assms fields_size_length
  by (simp add: seal_def Let_def seal_payload_bytes_disc schema_length signed_size_def signer_ok_def)

text \<open>What is sealed decodes, with any bytes after it, and verifies to the payload.\<close>

lemma seal_roundtrip:
  assumes "valid x" and "signer_ok ed signer"
  shows "try_decode_prefix ed P (sg_bytes (vs_signed (seal signer P x)) @ rest)
      = Inr (vs_signed (seal signer P x), signed_size P x)"
    and "try_verify ed P (vs_signed (seal signer P x)) = Inr (seal signer P x)"
proof -
  have ok: "length (verifying_key signer) = 32" "key_from_bytes_ok ed (verifying_key signer)"
    "\<And>m. length (sign signer m) = 64" "\<And>m. verify_strict ed (verifying_key signer) m (sign signer m)"
    using assms(2) by (simp_all add: signer_ok_def)
  show "try_decode_prefix ed P (sg_bytes (vs_signed (seal signer P x)) @ rest)
      = Inr (vs_signed (seal signer P x), signed_size P x)"
    using try_decode_prefix_layout [OF assms(1) ok(1,2,3)] by (simp add: seal_def Let_def)
  show "try_verify ed P (vs_signed (seal signer P x)) = Inr (seal signer P x)"
    using ok try_verify_layout [OF _ ok(1) ok(3) assms(1), of "vs_signed (seal signer P x)"]
    by (simp add: seal_def Let_def)
qed

text \<open>
  A message that decodes and verifies carries a valid signature over the schema, the
  discriminant, the issuer and the canonical encoding of the payload that is returned.
\<close>

lemma verify_sound:
  assumes "signed_try_decode ed P bs = Inr s" and "try_verify ed P s = Inr v"
  shows "valid (vs_payload v) \<and> vs_signed v = s
    \<and> verify_strict ed (sg_issuer s) (seal_payload_bytes P (sg_issuer s) (vs_payload v)) (sg_signature s)
    \<and> sg_bytes s = seal_payload_bytes P (sg_issuer s) (vs_payload v) @ sg_signature s"
proof -
  obtain n where "try_decode_prefix ed P bs = Inr (s, n)"
    using assms(1) by (auto simp: signed_try_decode_def result_iff)
  from try_decode_prefix_inv [OF this] obtain x where x: "valid x"
    "sg_bytes s = seal_payload_bytes P (sg_issuer s) x @ sg_signature s"
    "length (sg_issuer s) = 32" "length (sg_signature s) = 64" by blast
  then have "vs_payload v = x" "vs_signed v = s"
    "verify_strict ed (sg_issuer s) (seal_payload_bytes P (sg_issuer s) x) (sg_signature s)"
    using assms(2) try_verify_layout [OF x(2,3,4,1), of ed] by (auto split: if_splits)
  with x show ?thesis by simp
qed

end

text \<open>Two payload types with one schema and different discriminants share no message.\<close>

lemma decode_disc:
  assumes "signed_try_decode ed P bs = Inr s" and "DISCRIMINANT P = Some d"
  shows "get_at bs 4 = Some d"
  using assms by (auto simp: signed_try_decode_def try_decode_prefix_def decode_header_def Let_def result_iff
      sizes split: if_splits)

lemma decode_schema:
  assumes "signed_try_decode ed P bs = Inr s"
  shows "take 4 bs = SCHEMA P"
  using assms by (auto simp: signed_try_decode_def try_decode_prefix_def decode_header_def Let_def result_iff
      sizes get_range_def split: if_splits)

end
