(* ===== verification/Instances.thy ===== *)
theory Instances
  imports Signed
begin

text \<open>
  Concrete functions for the external parameters, with the laws the development assumes of
  them. They show that the named hypotheses can hold and let the witnesses compute.
\<close>

section \<open>A canonical variable length integer\<close>

definition sample_bj_encode :: "u64 \<Rightarrow> bytes" where
  "sample_bj_encode v = (if unat v < 248 then [of_nat (unat v)] else 255 # to_be_bytes v)"

definition sample_bj_decode :: "bytes \<Rightarrow> bijou_error + (u64 \<times> nat)" where
  "sample_bj_decode bs = (case bs of
     [] \<Rightarrow> Inl (BijouError ''buffer too short'')
   | b # rest \<Rightarrow>
       if unat b < 248 then Inr (of_nat (unat b), 1)
       else if b = 255 then
         (if length rest < 8 then Inl (BijouError ''buffer too short'')
          else let v = from_be_bytes (take 8 rest) in
            if unat v < 248 then Inl (BijouError ''non-canonical'') else Inr (v, 9))
       else Inl (BijouError ''non-canonical''))"

definition sample_bijoux :: Bijoux where
  "sample_bijoux = \<lparr>bj_encode = sample_bj_encode, bj_encoded_len = (\<lambda>v. if unat v < 248 then 1 else 9),
     bj_decode = sample_bj_decode\<rparr>"

lemma small_ucast:
  assumes "unat (v :: u64) < 248"
  shows "unat (ucast v :: byte) = unat v" and "ucast (ucast v :: byte) = v" and "(ucast v :: byte) \<noteq> 255"
proof -
  show u: "unat (ucast v :: byte) = unat v"
    using assms by (simp add: unsigned_ucast_eq unsigned_take_bit_eq take_bit_nat_eq_self)
  have "unat (ucast (ucast v :: byte) :: u64) = unat v"
    using u assms by (simp add: unsigned_ucast_eq unsigned_take_bit_eq take_bit_nat_eq_self)
  then show "ucast (ucast v :: byte) = v"
    by (rule unsigned_word_eqI)
  show "(ucast v :: byte) \<noteq> 255"
    using u assms by auto
qed

lemma wide_ucast: "unat (ucast (b :: byte) :: u64) = unat b" "ucast (ucast b :: u64) = b"
proof -
  have "unat b < 256" using unsigned_less [of b] by simp
  then show u: "unat (ucast b :: u64) = unat b"
    by (simp add: unsigned_ucast_eq unsigned_take_bit_eq take_bit_nat_eq_self)
  have "unat (ucast (ucast b :: u64) :: byte) = unat b"
    using u \<open>unat b < 256\<close> by (simp add: unsigned_ucast_eq unsigned_take_bit_eq take_bit_nat_eq_self)
  then show "ucast (ucast b :: u64) = b"
    by (rule unsigned_word_eqI)
qed

lemma sample_bijoux_laws: "bijoux_laws sample_bijoux"
proof -
  have a: "sample_bj_decode (sample_bj_encode v @ rest) = Inr (v, length (sample_bj_encode v))" for v rest
    by (auto simp: sample_bj_decode_def sample_bj_encode_def small_ucast from_to_be_bytes Let_def)
  have b: "n \<le> length buf \<and> take n buf = sample_bj_encode v" if "sample_bj_decode buf = Inr (v, n)" for buf v n
    using that by (auto simp: sample_bj_decode_def sample_bj_encode_def wide_ucast to_from_be_bytes Let_def
        split: list.splits if_splits)
  show ?thesis
    using a b by (auto simp: bijoux_laws_def sample_bijoux_def sample_bj_encode_def)
qed

section \<open>A signature scheme and a signer\<close>

text \<open>The signature of a message is its first bytes under the key's first byte, padded to 64.\<close>

definition sample_sign :: "byte \<Rightarrow> bytes \<Rightarrow> bytes" where
  "sample_sign k m = take 64 (k # m @ replicate 64 0)"

definition sample_ed25519 :: Ed25519 where
  "sample_ed25519 = \<lparr>key_from_bytes_ok = (\<lambda>k. length k = 32),
     verify_strict = (\<lambda>k m s. length k = 32 \<and> s = sample_sign (hd k) m)\<rparr>"

definition sample_signer :: "byte \<Rightarrow> Signer" where
  "sample_signer k = \<lparr>sign = sample_sign k, verifying_key = replicate 32 k\<rparr>"

lemma sample_signer_ok: "signer_ok sample_ed25519 (sample_signer k)"
  by (auto simp add: signer_ok_def sample_ed25519_def sample_signer_def sample_sign_def min_def)

end
