(* ===== verification/Payload_Props.thy ===== *)
theory Payload_Props
  imports Instances
begin

text \<open>
  The properties of the wire formats, of signed payloads and of blob checked payloads, each
  with a witness on the sample instances.
\<close>

section \<open>Sample values\<close>

definition sample_id :: "byte \<Rightarrow> CommitId" where
  "sample_id b = CommitId (b # replicate 31 0)"

definition sample_meta :: BlobMeta where
  "sample_meta = \<lparr>bm_digest = Digest (replicate 32 9), bm_size_bytes = 300\<rparr>"

definition sample_commit :: LooseCommit where
  "sample_commit = \<lparr>lc_sedimentree_id = SedimentreeId (replicate 32 7), lc_head = sample_id 5,
     lc_parents = [sample_id 1, sample_id 2], lc_blob_meta = sample_meta\<rparr>"

definition sample_fragment :: Fragment where
  "sample_fragment = fragment_new (SedimentreeId (replicate 32 7)) (sample_id 0) [sample_id 1, sample_id 2]
     [sample_id 4, sample_id 3] sample_meta"

definition sample_parents :: "CommitId list" where
  "sample_parents = map (\<lambda>i. sample_id (word_of_nat i)) [0..<256]"

lemma sample_id_less [simp]: "a < b \<Longrightarrow> sample_id a < sample_id b"
  by (simp add: sample_id_def less_CommitId_def)

lemma length_sample_id [simp]: "length (commit_id_bytes (sample_id b)) = 32"
  by (simp add: sample_id_def)

lemma length_checkpoint_sample [simp]: "length (checkpoint_bytes (checkpoint_new (sample_id b))) = 12"
  by (simp add: sample_id_def checkpoint_new_def)

lemma sample_checkpoint_less [simp]: "a < b \<Longrightarrow> checkpoint_new (sample_id a) < checkpoint_new (sample_id b)"
  by (simp add: sample_id_def checkpoint_new_def less_Checkpoint_def)

lemma wf_sample_meta [simp]: "wf_BlobMeta sample_meta"
  by (simp add: wf_BlobMeta_def sample_meta_def)

lemma sample_commit_wf: "wf_LooseCommit sample_commit"
  by (simp add: wf_LooseCommit_def sample_commit_def)

lemma sample_fragment_eq: "sample_fragment = fragment_from_parts (SedimentreeId (replicate 32 7)) (sample_id 0)
    [sample_id 1, sample_id 2] [checkpoint_new (sample_id 3), checkpoint_new (sample_id 4)] sample_meta"
proof -
  have "os_of_list [checkpoint_new (sample_id 4), checkpoint_new (sample_id 3)]
      = [checkpoint_new (sample_id 3), checkpoint_new (sample_id 4)]"
    by (rule os_of_list_unique) auto
  then show ?thesis
    by (simp add: sample_fragment_def fragment_new_def)
qed

lemma sample_fragment_wf: "wf_Fragment sample_fragment"
  by (simp add: wf_Fragment_def sample_fragment_eq fragment_from_parts_def fr_head_def fr_boundary_def)

lemma length_sample_parents: "length sample_parents = 256"
  by (simp only: sample_parents_def length_map length_upt)

lemma sample_parents_bytes: "p \<in> set sample_parents \<Longrightarrow> length (commit_id_bytes p) = 32"
  unfolding sample_parents_def set_map by (erule imageE) simp


section \<open>Wire formats\<close>

text \<open>C15: A loose commit whose byte arrays have their sizes and with at most 255 parents decodes to itself
  from its encoding, whatever bytes follow, and the decoder consumes exactly the encoding.\<close>

theorem loose_commit_roundtrip:
  assumes "bijoux_laws bj" and "wf_LooseCommit c"
  shows "loose_commit_try_decode_fields bj (loose_commit_encode_fields bj c @ rest)
    = Inr (c, loose_commit_fields_size bj c)"
  using loose_commit_decode_encode [OF assms] loose_commit_fields_length [OF assms] by simp

theorem loose_commit_roundtrip_witness:
  "loose_commit_try_decode_fields sample_bijoux
     (loose_commit_encode_fields sample_bijoux sample_commit @ [1, 2, 3])
   = Inr (sample_commit, loose_commit_fields_size sample_bijoux sample_commit)"
  by (rule loose_commit_roundtrip [OF sample_bijoux_laws sample_commit_wf])

text \<open>C16: The decoder of loose commits accepts canonical bytes only: what it reads is the encoding of what it
  returns, so parents are strictly ascending and two accepted buffers of one value agree.\<close>

theorem loose_commit_canonical:
  assumes "bijoux_laws bj" and "loose_commit_try_decode_fields bj buf = Inr (c, n)"
  shows "wf_LooseCommit c \<and> n \<le> length buf \<and> take n buf = loose_commit_encode_fields bj c"
  using loose_commit_encode_decode [OF assms] .

theorem loose_commit_canonical_witness:
  "\<exists>n. loose_commit_try_decode_fields sample_bijoux (loose_commit_encode_fields sample_bijoux sample_commit)
        = Inr (sample_commit, n)
     \<and> take n (loose_commit_encode_fields sample_bijoux sample_commit)
        = loose_commit_encode_fields sample_bijoux sample_commit"
proof -
  have d: "loose_commit_try_decode_fields sample_bijoux (loose_commit_encode_fields sample_bijoux sample_commit)
      = Inr (sample_commit, length (loose_commit_encode_fields sample_bijoux sample_commit))"
    using loose_commit_decode_encode [OF sample_bijoux_laws sample_commit_wf, of "[]"] by simp
  then show ?thesis
    using loose_commit_canonical [OF sample_bijoux_laws d] by blast
qed

text \<open>C17: A fragment with at most 255 boundary commits and 65535 checkpoints decodes to itself from its encoding,
  whatever bytes follow, and the decoder consumes exactly the encoding.\<close>

theorem fragment_roundtrip:
  assumes "bijoux_laws bj" and "wf_Fragment f"
  shows "fragment_try_decode_fields bj (fragment_encode_fields bj f @ rest) = Inr (f, fragment_fields_size bj f)"
  using fragment_decode_encode [OF assms] fragment_fields_length [OF assms] by simp

theorem fragment_roundtrip_witness:
  "fragment_try_decode_fields sample_bijoux (fragment_encode_fields sample_bijoux sample_fragment @ [1, 2, 3])
   = Inr (sample_fragment, fragment_fields_size sample_bijoux sample_fragment)"
  by (rule fragment_roundtrip [OF sample_bijoux_laws sample_fragment_wf])

text \<open>C18: The decoder of fragments accepts canonical bytes only.\<close>

theorem fragment_canonical:
  assumes "bijoux_laws bj" and "fragment_try_decode_fields bj buf = Inr (f, n)"
  shows "wf_Fragment f \<and> n \<le> length buf \<and> take n buf = fragment_encode_fields bj f"
  using fragment_encode_decode [OF assms] .

theorem fragment_canonical_witness:
  "\<exists>n. fragment_try_decode_fields sample_bijoux (fragment_encode_fields sample_bijoux sample_fragment)
        = Inr (sample_fragment, n)
     \<and> take n (fragment_encode_fields sample_bijoux sample_fragment)
        = fragment_encode_fields sample_bijoux sample_fragment"
proof -
  have d: "fragment_try_decode_fields sample_bijoux (fragment_encode_fields sample_bijoux sample_fragment)
      = Inr (sample_fragment, length (fragment_encode_fields sample_bijoux sample_fragment))"
    using fragment_decode_encode [OF sample_bijoux_laws sample_fragment_wf, of "[]"] by simp
  then show ?thesis
    using fragment_canonical [OF sample_bijoux_laws d] by blast
qed

text \<open>C20: The parent count is one byte. A commit with 256 parents is encoded with count 0, and its encoding
  decodes, without an error, to the commit with no parents; the parents are left as trailing bytes.\<close>

theorem loose_commit_256_parents:
  assumes "bijoux_laws bj" and "wf_LooseCommit (c\<lparr>lc_parents := []\<rparr>)" and "length (lc_parents c) = 256"
    and "\<forall>p \<in> set (lc_parents c). length (commit_id_bytes p) = 32"
  shows "\<exists>n. n + 256 * 32 = length (loose_commit_encode_fields bj c) \<and>
    loose_commit_try_decode_fields bj (loose_commit_encode_fields bj c) = Inr (c\<lparr>lc_parents := []\<rparr>, n)"
proof -
  let ?c = "c\<lparr>lc_parents := []\<rparr>"
  let ?ps = "concat (map (\<lambda>p. encode_array (commit_id_bytes p)) (lc_parents c))"
  have "(word_of_nat 256 :: byte) = 0" by simp
  then have split: "loose_commit_encode_fields bj c = loose_commit_encode_fields bj ?c @ ?ps"
    using assms(3) by (simp add: loose_commit_encode_fields_def del: of_nat_numeral)
  moreover have "length ?ps = 256 * 32"
    using assms(3,4) length_concat_const [of "lc_parents c" commit_id_bytes 32] by (simp add: encode_array_def)
  ultimately show ?thesis
    using loose_commit_decode_encode [OF assms(1,2), of ?ps] by auto
qed

theorem loose_commit_256_parents_witness:
  "\<exists>n. loose_commit_try_decode_fields sample_bijoux
         (loose_commit_encode_fields sample_bijoux (sample_commit\<lparr>lc_parents := sample_parents\<rparr>))
     = Inr (sample_commit\<lparr>lc_parents := []\<rparr>, n)"
proof -
  let ?c = "sample_commit\<lparr>lc_parents := sample_parents\<rparr>"
  have "wf_LooseCommit (?c\<lparr>lc_parents := []\<rparr>)"
    using sample_commit_wf by (simp add: wf_LooseCommit_def)
  then show ?thesis
    using loose_commit_256_parents [OF sample_bijoux_laws, of ?c] length_sample_parents sample_parents_bytes
    by auto
qed


section \<open>Signed payloads\<close>

text \<open>C11: Whatever a signer seals is read back from the wire, with any bytes after it, as the same signed value,
  and verifies to the sealed payload. This holds for every payload type that meets the codec contract.\<close>

theorem seal_decode_verify:
  assumes "payload_codec P valid" and "valid x" and "signer_ok ed signer"
  shows "try_decode_prefix ed P (sg_bytes (vs_signed (seal signer P x)) @ rest)
      = Inr (vs_signed (seal signer P x), signed_size P x)
    \<and> try_verify ed P (vs_signed (seal signer P x)) = Inr (seal signer P x)
    \<and> vs_payload (seal signer P x) = x"
  using payload_codec.seal_roundtrip [OF assms] by (simp add: seal_def Let_def)

theorem seal_decode_verify_witness:
  "try_verify sample_ed25519 (loose_commit_payload sample_bijoux)
     (vs_signed (seal (sample_signer 3) (loose_commit_payload sample_bijoux) sample_commit))
   = Inr (seal (sample_signer 3) (loose_commit_payload sample_bijoux) sample_commit)"
  using seal_decode_verify [OF loose_commit_payload_codec [OF sample_bijoux_laws] sample_commit_wf sample_signer_ok]
  by blast

text \<open>C2: A message that decodes and verifies carries a signature, valid under the issuer's key, over the
  schema, the discriminant, the issuer and the canonical encoding of the returned payload.\<close>

theorem decode_verify_sound:
  assumes "payload_codec P valid" and "signed_try_decode ed P bs = Inr s" and "try_verify ed P s = Inr v"
  shows "valid (vs_payload v) \<and> vs_signed v = s
    \<and> verify_strict ed (sg_issuer s) (seal_payload_bytes P (sg_issuer s) (vs_payload v)) (sg_signature s)
    \<and> sg_bytes s = seal_payload_bytes P (sg_issuer s) (vs_payload v) @ sg_signature s"
  using payload_codec.verify_sound [OF assms] .

theorem decode_verify_sound_witness:
  "let P = loose_commit_payload sample_bijoux; v = seal (sample_signer 3) P sample_commit in
   verify_strict sample_ed25519 (sg_issuer (vs_signed v))
     (seal_payload_bytes P (sg_issuer (vs_signed v)) (vs_payload v)) (sg_signature (vs_signed v))"
proof -
  let ?P = "loose_commit_payload sample_bijoux"
  let ?v = "seal (sample_signer 3) ?P sample_commit"
  note pc = loose_commit_payload_codec [OF sample_bijoux_laws]
  have "signed_try_decode sample_ed25519 ?P (sg_bytes (vs_signed ?v)) = Inr (vs_signed ?v)"
    and "try_verify sample_ed25519 ?P (vs_signed ?v) = Inr ?v"
    using payload_codec.seal_roundtrip(1) [OF pc sample_commit_wf sample_signer_ok [of 3], of "[]"]
      payload_codec.seal_roundtrip(2) [OF pc sample_commit_wf sample_signer_ok [of 3]]
    by (simp_all add: signed_try_decode_def)
  from decode_verify_sound [OF pc this] show ?thesis by (simp add: Let_def)
qed

text \<open>C14: Decoding keeps exactly the bytes of the message and drops what follows: a decoded message has the
  layout of a sealed one, its size is the announced one and its bytes are that prefix of the input.\<close>

theorem decode_prefix_exact:
  assumes "payload_codec P valid" and "try_decode_prefix ed P bs = Inr (s, n)"
  shows "n \<le> length bs \<and> sg_bytes s = take n bs \<and> key_from_bytes_ok ed (sg_issuer s)
    \<and> (\<exists>x. valid x \<and> n = signed_size P x \<and> try_decode_trusted_payload P s = Inr x
         \<and> sg_bytes s = seal_payload_bytes P (sg_issuer s) x @ sg_signature s)"
proof -
  from payload_codec.try_decode_prefix_inv [OF assms] obtain x where x: "valid x"
    "sg_bytes s = seal_payload_bytes P (sg_issuer s) x @ sg_signature s"
    "length (sg_issuer s) = 32" "length (sg_signature s) = 64" "key_from_bytes_ok ed (sg_issuer s)"
    "n = signed_size P x" "n \<le> length bs" "take n bs = sg_bytes s"
    by blast
  moreover have "try_decode_trusted_payload P s = Inr x"
    using payload_codec.fields_bytes_layout(1) [OF assms(1) x(2,3,4)]
      payload_codec.decode_encode [OF assms(1) x(1), of "[]"]
    by (simp add: try_decode_trusted_payload_def)
  ultimately show ?thesis by metis
qed

theorem decode_prefix_exact_witness:
  "let P = fragment_payload sample_bijoux; s = vs_signed (seal (sample_signer 3) P sample_fragment) in
   sg_bytes s = take (signed_size P sample_fragment) (sg_bytes s @ [1, 2, 3])"
proof -
  let ?P = "fragment_payload sample_bijoux"
  note pc = fragment_payload_codec [OF sample_bijoux_laws]
  from decode_prefix_exact [OF pc payload_codec.seal_roundtrip(1) [OF pc sample_fragment_wf sample_signer_ok,
      of 3 "[1, 2, 3]"]]
  show ?thesis by (simp add: Let_def)
qed

text \<open>A blob is attached to a verified payload exactly when its size and digest are the claimed ones; otherwise
  the error carries the claimed and the actual metadata.\<close>

theorem verified_meta_iff:
  "verified_meta_new blake3 blob_meta v blob =
     (if bm_digest (blob_meta (vs_payload v)) = Digest (blake3 blob)
         \<and> bm_size_bytes (blob_meta (vs_payload v)) = of_nat (length blob)
      then Inr \<lparr>vm_verified = v, vm_blob = blob\<rparr>
      else Inl (BlobMismatch (blob_meta (vs_payload v)) (blob_meta_new blake3 blob)))"
  by (cases "blob_meta (vs_payload v)")
    (auto simp: verified_meta_new_def blob_meta_new_def digest_hash_raw_def Let_def)

text \<open>C19: What \<open>VerifiedMeta::seal\<close> builds passes the check of \<open>VerifiedMeta::new\<close> and survives storage: the
  signed bytes verify and the trusted loading path rebuilds the same value.\<close>

theorem verified_meta_seal_accepted:
  assumes "payload_codec P valid" and "signer_ok ed signer"
    and "\<forall>m. blob_meta (from_args m) = m" and "valid (from_args (blob_meta_new blake3 blob))"
  shows "let m = verified_meta_seal signer P from_args (verified_blob_meta_new blake3 blob) in
    verified_meta_new blake3 blob_meta (vm_verified m) (vm_blob m) = Inr m
    \<and> try_verify ed P (vs_signed (vm_verified m)) = Inr (vm_verified m)
    \<and> verified_meta_try_from_trusted P (vs_signed (vm_verified m)) (vm_blob m) = Inr m"
proof -
  let ?x = "from_args (blob_meta_new blake3 blob)"
  let ?v = "seal signer P ?x"
  have layout: "sg_bytes (vs_signed ?v) = seal_payload_bytes P (verifying_key signer) ?x
      @ sign signer (seal_payload_bytes P (verifying_key signer) ?x)" "vs_payload ?v = ?x"
    by (simp_all add: seal_def Let_def)
  have "try_decode_trusted_payload P (vs_signed ?v) = Inr ?x"
    using payload_codec.fields_bytes_layout(1) [OF assms(1) layout(1)] assms(2)
      payload_codec.decode_encode [OF assms(1,4), of "[]"]
    by (simp add: try_decode_trusted_payload_def signer_ok_def)
  then have "try_from_trusted P (vs_signed ?v) = Inr ?v"
    by (simp add: try_from_trusted_def) (simp add: seal_def Let_def)
  then show ?thesis
    using assms(3) payload_codec.seal_roundtrip(2) [OF assms(1,4,2)] layout(2)
    by (simp add: verified_meta_seal_def verified_blob_meta_new_def Let_def verified_meta_new_def
        verified_meta_try_from_trusted_def)
qed

theorem verified_meta_seal_accepted_witness:
  "let P = loose_commit_payload sample_bijoux;
       m = verified_meta_seal (sample_signer 3) P (\<lambda>bm. sample_commit\<lparr>lc_blob_meta := bm\<rparr>)
             (verified_blob_meta_new (\<lambda>b. take 32 (b @ replicate 32 0)) [1, 2, 3])
   in verified_meta_new (\<lambda>b. take 32 (b @ replicate 32 0)) lc_blob_meta (vm_verified m) (vm_blob m) = Inr m"
proof -
  let ?h = "\<lambda>b. take 32 (b @ replicate 32 0)" and ?f = "\<lambda>bm. sample_commit\<lparr>lc_blob_meta := bm\<rparr>"
  have "wf_LooseCommit (?f (blob_meta_new ?h [1, 2, 3]))" by code_simp
  then show ?thesis
    using verified_meta_seal_accepted [where from_args = ?f and blob_meta = lc_blob_meta and ?blake3.0 = ?h
      and blob = "[1, 2, 3]", OF loose_commit_payload_codec [OF sample_bijoux_laws] sample_signer_ok [of 3]]
    by (simp add: Let_def)
qed

end
