(* ===== verification/Commit_Dag.thy ===== *)
theory Commit_Dag
  imports Types
begin

text \<open>
  The adjacency representation of the loose commits, \<^verbatim>\<open>sedimentree_core/src/sedimentree/commit_dag.rs\<close>:
  nodes and edges in vectors, edge lists threaded through the edge vector by index, and the
  walk that decides which commits a set of fragments makes redundant. A failing \<open>expect\<close>
  is the value \<open>None\<close>.
\<close>

section \<open>Representation\<close>

type_synonym NodeIdx = usize
type_synonym EdgeIdx = usize

record Node =
  nd_id :: CommitId
  nd_parents :: "EdgeIdx option"
  nd_children :: "EdgeIdx option"

record Edge =
  ed_source :: NodeIdx
  ed_next :: "EdgeIdx option"

record CommitDag =
  cd_nodes :: "Node list"
  cd_node_map :: "(CommitId, NodeIdx) omap"
  cd_edges :: "Edge list"

definition add_edge :: "CommitDag \<Rightarrow> NodeIdx \<Rightarrow> NodeIdx \<Rightarrow> CommitDag option" where
  "add_edge dag source target =
     (let nodes = cd_nodes dag; edges = cd_edges dag; parent_edge_idx = length edges in
      if length nodes \<le> target then None
      else
        let target_node = nodes ! target;
            prev_parent_head = nd_parents target_node;
            nodes = nodes[target := target_node\<lparr>nd_parents := Some parent_edge_idx\<rparr>];
            edges = edges @ [\<lparr>ed_source = source, ed_next = prev_parent_head\<rparr>];
            child_edge_idx = length edges
        in if length nodes \<le> source then None
        else
          let source_node = nodes ! source;
              prev_child_head = nd_children source_node;
              nodes = nodes[source := source_node\<lparr>nd_children := Some child_edge_idx\<rparr>];
              edges = edges @ [\<lparr>ed_source = target, ed_next = prev_child_head\<rparr>]
          in Some (dag\<lparr>cd_nodes := nodes, cd_edges := edges\<rparr>))"

fun add_parents :: "CommitDag \<Rightarrow> NodeIdx \<Rightarrow> CommitId list \<Rightarrow> CommitDag option" where
  "add_parents dag child_idx [] = Some dag"
| "add_parents dag child_idx (parent # ps) =
     (case map_of (cd_node_map dag) parent of
        None \<Rightarrow> add_parents dag child_idx ps
      | Some p \<Rightarrow> Option.bind (add_edge dag p child_idx) (\<lambda>dag. add_parents dag child_idx ps))"

fun add_commits :: "CommitDag \<Rightarrow> LooseCommit list \<Rightarrow> CommitDag option" where
  "add_commits dag [] = Some dag"
| "add_commits dag (commit # cs) =
     Option.bind (map_of (cd_node_map dag) (lc_head commit)) (\<lambda>child_idx.
     Option.bind (add_parents dag child_idx (lc_parents commit)) (\<lambda>dag. add_commits dag cs))"

definition from_commits :: "LooseCommit list \<Rightarrow> CommitDag option" where
  "from_commits commits =
     (let nodes = map (\<lambda>c. \<lparr>nd_id = lc_head c, nd_parents = None, nd_children = None\<rparr>) commits;
          node_map = om_of_list (map (\<lambda>(idx, node). (nd_id node, idx)) (enumerate 0 nodes))
      in add_commits \<lparr>cd_nodes = nodes, cd_node_map = node_map, cd_edges = []\<rparr> commits)"

text \<open>
  \<open>ParentsIter\<close>. Every call of \<open>next\<close> follows one edge; the fuel is the number of edges,
  which is enough because the links of a dag built by \<open>from_commits\<close> strictly descend.
\<close>

fun parents_iter :: "nat \<Rightarrow> Edge list \<Rightarrow> EdgeIdx option \<Rightarrow> NodeIdx list" where
  "parents_iter 0 edges edge = []"
| "parents_iter (Suc fuel) edges edge =
     (case edge of
        None \<Rightarrow> []
      | Some e \<Rightarrow>
          if e < length edges
          then ed_source (edges ! e) # parents_iter fuel edges (ed_next (edges ! e))
          else [])"

definition dag_parents :: "CommitDag \<Rightarrow> NodeIdx \<Rightarrow> NodeIdx list" where
  "dag_parents dag node =
     parents_iter (length (cd_edges dag)) (cd_edges dag)
       (if node < length (cd_nodes dag) then nd_parents (cd_nodes dag ! node) else None)"

definition tips :: "CommitDag \<Rightarrow> NodeIdx list" where
  "tips dag =
     map fst (filter (\<lambda>(_, node). nd_children node = None) (enumerate 0 (cd_nodes dag)))"


section \<open>Simplification\<close>

definition enter_range :: "DepthMetric \<Rightarrow> CommitId option \<Rightarrow> CommitId \<Rightarrow> CommitId option" where
  "enter_range strategy range_head i = (if is_boundary (strategy i) then Some i else range_head)"

type_synonym range_state = "(CommitId, CommitId list) omap \<times> CommitId set"

definition note_visit :: "CommitId \<Rightarrow> CommitId option \<Rightarrow> range_state \<Rightarrow> range_state" where
  "note_visit i range_head = (\<lambda>(commits_to_ranges, rangeless_commits).
     case range_head of
       Some head \<Rightarrow>
         (om_insert i ((case map_of commits_to_ranges i of None \<Rightarrow> [] | Some hs \<Rightarrow> hs) @ [head])
            commits_to_ranges, rangeless_commits)
     | None \<Rightarrow> (commits_to_ranges, insert i rangeless_commits))"

text \<open>The pairs the loop can still visit: every node with every range head in sight.\<close>

definition loop_pairs :: "CommitDag \<Rightarrow> (NodeIdx \<times> CommitId option) list \<Rightarrow> (NodeIdx \<times> CommitId option) set" where
  "loop_pairs dag stack =
     {..<length (cd_nodes dag)} \<times> (insert None (Some ` nd_id ` set (cd_nodes dag)) \<union> snd ` set stack)"

lemma finite_loop_pairs [simp]: "finite (loop_pairs dag stack)"
  by (simp add: loop_pairs_def)

lemma loop_pairs_extend:
  assumes "idx < length (cd_nodes dag)"
  shows "loop_pairs dag (rev (map (\<lambda>p. (p, enter_range s r (nd_id (cd_nodes dag ! idx)))) ps) @ stack)
    \<subseteq> loop_pairs dag ((idx, r) # stack)"
    and "(idx, enter_range s r (nd_id (cd_nodes dag ! idx))) \<in> loop_pairs dag ((idx, r) # stack)"
  using assms by (auto simp: loop_pairs_def enter_range_def)

function simplify_loop ::
    "CommitDag \<Rightarrow> DepthMetric \<Rightarrow> (NodeIdx \<times> CommitId option) list \<Rightarrow> (NodeIdx \<times> CommitId option) set
     \<Rightarrow> range_state \<Rightarrow> range_state option" where
  "simplify_loop dag strategy [] visited st = Some st"
| "simplify_loop dag strategy ((node_idx, range_head) # stack) visited st =
     (if length (cd_nodes dag) \<le> node_idx then None
      else
        let i = nd_id (cd_nodes dag ! node_idx); range_head = enter_range strategy range_head i in
        if (node_idx, range_head) \<in> visited then simplify_loop dag strategy stack visited st
        else
          simplify_loop dag strategy
            (rev (map (\<lambda>parent. (parent, range_head)) (dag_parents dag node_idx)) @ stack)
            (insert (node_idx, range_head) visited)
            (note_visit i range_head st))"
  by pat_completeness auto
termination
proof (relation "measures [\<lambda>(dag, s, stack, visited, st). card (loop_pairs dag stack - visited),
    \<lambda>(dag, s, stack, visited, st). length stack]", goal_cases)
  case (2 dag s idx r stack visited st i r')
  have "loop_pairs dag stack - visited \<subseteq> loop_pairs dag ((idx, r) # stack) - visited"
    by (auto simp: loop_pairs_def)
  then have "card (loop_pairs dag stack - visited) \<le> card (loop_pairs dag ((idx, r) # stack) - visited)"
    by (intro card_mono) auto
  then show ?case by auto
next
  case (3 dag s idx r stack visited st i r')
  then have lt: "idx < length (cd_nodes dag)" by simp
  have "loop_pairs dag (rev (map (\<lambda>p. (p, r')) (dag_parents dag idx)) @ stack) - insert (idx, r') visited
      \<subset> loop_pairs dag ((idx, r) # stack) - visited"
    using loop_pairs_extend(1) [OF lt, of s r "dag_parents dag idx" stack]
      loop_pairs_extend(2) [OF lt, of s r stack] 3 by (auto simp: psubset_eq)
  then have "card (loop_pairs dag (rev (map (\<lambda>p. (p, r')) (dag_parents dag idx)) @ stack) - insert (idx, r') visited)
      < card (loop_pairs dag ((idx, r) # stack) - visited)"
    by (intro psubset_card_mono) auto
  then show ?case by auto
qed auto

definition range_covered :: "Fragment list \<Rightarrow> CommitId \<Rightarrow> bool" where
  "range_covered fragments r \<longleftrightarrow>
     r \<in> set (map fr_head fragments) \<or>
     checkpoint_new r \<in> set (concat (map fr_checkpoints fragments))"

definition simplify :: "CommitDag \<Rightarrow> Fragment list \<Rightarrow> DepthMetric \<Rightarrow> CommitId set option" where
  "simplify dag fragments strategy =
     (let tip_idxs = sort_key (\<lambda>idx. nd_id (cd_nodes dag ! idx)) (tips dag);
          stack = rev (map (\<lambda>tip. (tip, None)) tip_idxs) in
      Option.bind (simplify_loop dag strategy stack {} ([], {})) (\<lambda>(commits_to_ranges, rangeless_commits).
      Some (set (map fst (filter (\<lambda>(_, ranges). \<not> list_all (range_covered fragments) ranges) commits_to_ranges))
            \<union> rangeless_commits)))"


section \<open>Edge lists\<close>

text \<open>Links point to earlier edges, list heads into the edge vector and sources into the node vector.\<close>

definition links_ok :: "Edge list \<Rightarrow> bool" where
  "links_ok edges \<longleftrightarrow> (\<forall>e < length edges. \<forall>e'. ed_next (edges ! e) = Some e' \<longrightarrow> e' < e)"

definition dag_inv :: "CommitDag \<Rightarrow> bool" where
  "dag_inv dag \<longleftrightarrow>
     links_ok (cd_edges dag) \<and>
     (\<forall>node \<in> set (cd_nodes dag). \<forall>e. nd_parents node = Some e \<or> nd_children node = Some e
        \<longrightarrow> e < length (cd_edges dag)) \<and>
     (\<forall>edge \<in> set (cd_edges dag). ed_source edge < length (cd_nodes dag)) \<and>
     (\<forall>i \<in> ran (map_of (cd_node_map dag)). i < length (cd_nodes dag))"

lemma parents_iter_None [simp]: "parents_iter n edges None = []"
  by (cases n) auto

lemma parents_iter_fuel:
  assumes "links_ok edges" and "e < n" and "e < m" and "e < length edges"
  shows "parents_iter n edges (Some e) = parents_iter m edges (Some e)"
  using assms(2-)
proof (induction e arbitrary: n m rule: less_induct)
  case (less e)
  obtain n' m' where nm: "n = Suc n'" "m = Suc m'"
    using less.prems by (metis not_less0 not0_implies_Suc)
  show ?case
  proof (cases "ed_next (edges ! e)")
    case None
    then show ?thesis using nm by simp
  next
    case (Some e')
    then have "e' < e" using assms(1) less.prems(3) by (auto simp: links_ok_def)
    then have "parents_iter n' edges (Some e') = parents_iter m' edges (Some e')"
      using less.prems nm by (intro less.IH) auto
    with nm Some show ?thesis by simp
  qed
qed

lemma parents_iter_append:
  assumes "links_ok edges" and "e < length edges"
  shows "parents_iter n (edges @ es) (Some e) = parents_iter n edges (Some e)"
  using assms(2)
proof (induction n arbitrary: e)
  case (Suc n)
  show ?case
  proof (cases "ed_next (edges ! e)")
    case None
    with Suc.prems show ?thesis by (simp add: nth_append)
  next
    case (Some e')
    then have "e' < length edges"
      using assms(1) Suc.prems by (meson links_ok_def less_trans)
    from Suc.IH [OF this] Some Suc.prems show ?thesis by (simp add: nth_append)
  qed
qed simp

lemma set_parents_iter: "set (parents_iter n edges e) \<subseteq> ed_source ` set edges"
  by (induction n edges e rule: parents_iter.induct) (auto split: option.splits)

text \<open>\<open>dag'\<close> is \<open>dag\<close> with the edges \<open>E\<close>, pairs of a source and a target, added.\<close>

definition dag_ext :: "CommitDag \<Rightarrow> (NodeIdx \<times> NodeIdx) set \<Rightarrow> CommitDag \<Rightarrow> bool" where
  "dag_ext dag E dag' \<longleftrightarrow>
     dag_inv dag' \<and> map nd_id (cd_nodes dag') = map nd_id (cd_nodes dag) \<and>
     cd_node_map dag' = cd_node_map dag \<and>
     (\<forall>i < length (cd_nodes dag). set (dag_parents dag' i) = set (dag_parents dag i) \<union> {s. (s, i) \<in> E}) \<and>
     (\<forall>i < length (cd_nodes dag). nd_children (cd_nodes dag' ! i) = None
        \<longleftrightarrow> nd_children (cd_nodes dag ! i) = None \<and> (\<forall>t. (i, t) \<notin> E))"

lemma dag_ext_refl: "dag_inv dag \<Longrightarrow> dag_ext dag {} dag"
  by (simp add: dag_ext_def)

lemma dag_ext_length: "dag_ext dag E dag' \<Longrightarrow> length (cd_nodes dag') = length (cd_nodes dag)"
  unfolding dag_ext_def by (metis length_map)

lemma dag_ext_trans:
  assumes "dag_ext d E d'" and "dag_ext d' F d''"
  shows "dag_ext d (E \<union> F) d''"
  using assms dag_ext_length [OF assms(1)] unfolding dag_ext_def by (simp add: Un_assoc) blast

lemma links_ok_add:
  assumes "links_ok edges" and "\<And>e. p = Some e \<Longrightarrow> e < length edges"
  shows "links_ok (edges @ [\<lparr>ed_source = s, ed_next = p\<rparr>])"
  using assms by (auto simp: links_ok_def nth_append less_Suc_eq)


lemma dag_inv_heads:
  assumes "dag_inv dag" and "i < length (cd_nodes dag)"
  shows "nd_parents (cd_nodes dag ! i) = Some e \<Longrightarrow> e < length (cd_edges dag)"
    and "nd_children (cd_nodes dag ! i) = Some e \<Longrightarrow> e < length (cd_edges dag)"
  using assms nth_mem [OF assms(2)] unfolding dag_inv_def by blast+

lemma dag_parents_eq:
  "i < length (cd_nodes dag) \<Longrightarrow>
   dag_parents dag i = parents_iter (length (cd_edges dag)) (cd_edges dag) (nd_parents (cd_nodes dag ! i))"
  by (simp add: dag_parents_def)

lemma parents_iter_grow:
  assumes "links_ok edges" and "\<And>e. p = Some e \<Longrightarrow> e < length edges"
  shows "parents_iter (length edges + k) (edges @ es) p = parents_iter (length edges) edges p"
proof (cases p)
  case (Some e)
  then have "e < length edges" using assms(2) by simp
  then show ?thesis
    using Some parents_iter_append [OF assms(1)] parents_iter_fuel [OF assms(1), of e "length edges + k" "length edges"]
    by simp
qed simp

lemma add_edge_shape:
  assumes s: "s < length (cd_nodes dag)" and t: "t < length (cd_nodes dag)"
  obtains dag' e1 e2 where "add_edge dag s t = Some dag'"
    and "length (cd_nodes dag') = length (cd_nodes dag)" and "cd_node_map dag' = cd_node_map dag"
    and "cd_edges dag' = cd_edges dag @ [e1, e2]"
    and "ed_source e1 = s" and "ed_next e1 = nd_parents (cd_nodes dag ! t)"
    and "ed_source e2 = t" and "ed_next e2 = nd_children (cd_nodes dag ! s)"
    and "\<And>i. nd_id (cd_nodes dag' ! i) = nd_id (cd_nodes dag ! i)"
    and "\<And>i. nd_parents (cd_nodes dag' ! i)
      = (if i = t then Some (length (cd_edges dag)) else nd_parents (cd_nodes dag ! i))"
    and "\<And>i. nd_children (cd_nodes dag' ! i)
      = (if i = s then Some (Suc (length (cd_edges dag))) else nd_children (cd_nodes dag ! i))"
proof -
  let ?N = "cd_nodes dag" and ?E = "cd_edges dag"
  define e1 where "e1 = \<lparr>ed_source = s, ed_next = nd_parents (?N ! t)\<rparr>"
  define N1 where "N1 = ?N[t := (?N ! t)\<lparr>nd_parents := Some (length ?E)\<rparr>]"
  define e2 where "e2 = \<lparr>ed_source = t, ed_next = nd_children (N1 ! s)\<rparr>"
  define N2 where "N2 = N1[s := (N1 ! s)\<lparr>nd_children := Some (Suc (length ?E))\<rparr>]"
  define d where "d = dag\<lparr>cd_nodes := N2, cd_edges := ?E @ [e1, e2]\<rparr>"
  have res: "add_edge dag s t = Some d"
    using s t by (simp add: add_edge_def Let_def d_def N2_def e2_def N1_def e1_def)
  have chN1: "nd_children (N1 ! i) = nd_children (?N ! i)" for i
    using t by (cases "i = t") (auto simp: N1_def)
  have len: "length N1 = length ?N" "length N2 = length ?N"
    by (simp_all add: N1_def N2_def)
  have ids: "nd_id (N2 ! i) = nd_id (?N ! i)" for i
    using s t len(1) by (cases "i = s"; cases "i = t") (auto simp: N2_def N1_def)
  have par: "nd_parents (N2 ! i) = (if i = t then Some (length ?E) else nd_parents (?N ! i))" for i
    using s t len(1) by (cases "i = s"; cases "i = t") (auto simp: N2_def N1_def)
  have chl: "nd_children (N2 ! i) = (if i = s then Some (Suc (length ?E)) else nd_children (?N ! i))" for i
    using s len(1) chN1 by (cases "i = s") (auto simp: N2_def)
  show ?thesis
    by (rule that [of d e1 e2]) (use res len ids par chl chN1 in \<open>simp_all add: d_def e1_def e2_def\<close>)
qed

lemma add_edge_ext:
  assumes inv: "dag_inv dag" and s: "s < length (cd_nodes dag)" and t: "t < length (cd_nodes dag)"
  shows "\<exists>dag'. add_edge dag s t = Some dag' \<and> dag_ext dag {(s, t)} dag'"
proof -
  let ?N = "cd_nodes dag" and ?E = "cd_edges dag"
  obtain d e1 e2 where res: "add_edge dag s t = Some d"
    and len: "length (cd_nodes d) = length ?N" and nm: "cd_node_map d = cd_node_map dag"
    and E: "cd_edges d = ?E @ [e1, e2]"
    and e1: "ed_source e1 = s" "ed_next e1 = nd_parents (?N ! t)"
    and e2: "ed_source e2 = t" "ed_next e2 = nd_children (?N ! s)"
    and ids: "\<And>i. nd_id (cd_nodes d ! i) = nd_id (?N ! i)"
    and par: "\<And>i. nd_parents (cd_nodes d ! i) = (if i = t then Some (length ?E) else nd_parents (?N ! i))"
    and chl: "\<And>i. nd_children (cd_nodes d ! i) = (if i = s then Some (Suc (length ?E)) else nd_children (?N ! i))"
    using add_edge_shape [OF s t] by metis
  note heads = dag_inv_heads [OF inv]
  have links: "links_ok ?E" using inv by (simp add: dag_inv_def)
  have links': "links_ok (?E @ [e1, e2])"
    using links heads(1) [OF t] heads(2) [OF s] e1(2) e2(2)
    by (auto simp: links_ok_def nth_append less_Suc_eq nth_Cons' dest: heads(2) [OF s, THEN less_SucI])
  have "e < length ?E + 2" if "i < length ?N"
    and "nd_parents (cd_nodes d ! i) = Some e \<or> nd_children (cd_nodes d ! i) = Some e" for i e
    using that heads [OF that(1), of e] par [of i] chl [of i] by (auto split: if_splits)
  then have inv': "dag_inv d"
    using inv s t links' len nm e1(1) e2(1) unfolding dag_inv_def E by (auto simp: all_set_conv_all_nth)
  have parents': "dag_parents d i = (if i = t then s # dag_parents dag i else dag_parents dag i)"
    if i: "i < length ?N" for i
  proof -
    have grow: "parents_iter (length ?E + k) (?E @ [e1, e2]) (nd_parents (?N ! i)) = dag_parents dag i" for k
      using parents_iter_grow [OF links heads(1) [OF i]] i by (simp add: dag_parents_eq)
    show ?thesis
      using i len par [of i] grow [of 1] grow [of 2] e1 by (auto simp: dag_parents_eq E nth_append)
  qed
  have "map nd_id (cd_nodes d) = map nd_id ?N"
    using len ids by (auto intro: nth_equalityI)
  then have "dag_ext dag {(s, t)} d"
    using inv' nm parents' chl by (auto simp: dag_ext_def)
  with res show ?thesis by blast
qed


lemma dag_invD_map: "dag_inv dag \<Longrightarrow> map_of (cd_node_map dag) c = Some i \<Longrightarrow> i < length (cd_nodes dag)"
  unfolding dag_inv_def by (meson ranI)

lemma dag_ext_inv: "dag_ext dag E dag' \<Longrightarrow> dag_inv dag'"
  by (simp add: dag_ext_def)

lemma add_parents_ext:
  assumes "dag_inv dag" and "child < length (cd_nodes dag)"
  shows "\<exists>dag'. add_parents dag child ps = Some dag'
    \<and> dag_ext dag {(s, t). t = child \<and> (\<exists>p \<in> set ps. map_of (cd_node_map dag) p = Some s)} dag'"
  using assms
proof (induction ps arbitrary: dag)
  case Nil
  then show ?case by (simp add: dag_ext_refl)
next
  case (Cons p ps)
  show ?case
  proof (cases "map_of (cd_node_map dag) p")
    case None
    with Cons.IH [OF Cons.prems] show ?thesis by (simp cong: conj_cong)
  next
    case (Some i)
    then obtain d where d: "add_edge dag i child = Some d" "dag_ext dag {(i, child)} d"
      using add_edge_ext [OF Cons.prems(1) dag_invD_map [OF Cons.prems(1)] Cons.prems(2)] by blast
    let ?F = "{(s, t). t = child \<and> (\<exists>p \<in> set ps. map_of (cd_node_map dag) p = Some s)}"
    have nm: "cd_node_map d = cd_node_map dag" using d(2) by (simp add: dag_ext_def)
    obtain d' where d': "add_parents d child ps = Some d'" "dag_ext d ?F d'"
      using Cons.IH [of d] Cons.prems(2) dag_ext_length [OF d(2)] dag_ext_inv [OF d(2)] nm by auto
    have "{(i, child)} \<union> ?F = {(s, t). t = child \<and> (\<exists>p \<in> set (p # ps). map_of (cd_node_map dag) p = Some s)}"
      using Some by auto
    with dag_ext_trans [OF d(2) d'(2)] d(1) d'(1) Some show ?thesis by simp
  qed
qed

text \<open>The edges of a list of commits, by node index.\<close>

definition commit_edges :: "(CommitId \<rightharpoonup> NodeIdx) \<Rightarrow> LooseCommit list \<Rightarrow> (NodeIdx \<times> NodeIdx) set" where
  "commit_edges nm cs =
     {(s, t). \<exists>c \<in> set cs. nm (lc_head c) = Some t \<and> (\<exists>p \<in> set (lc_parents c). nm p = Some s)}"

lemma add_commits_ext:
  assumes "dag_inv dag" and "\<forall>c \<in> set cs. map_of (cd_node_map dag) (lc_head c) \<noteq> None"
  shows "\<exists>dag'. add_commits dag cs = Some dag' \<and> dag_ext dag (commit_edges (map_of (cd_node_map dag)) cs) dag'"
  using assms
proof (induction cs arbitrary: dag)
  case Nil
  then show ?case by (simp add: dag_ext_refl commit_edges_def)
next
  case (Cons c cs)
  let ?nm = "map_of (cd_node_map dag)"
  obtain i where i: "?nm (lc_head c) = Some i" using Cons.prems(2) by auto
  let ?F = "{(s, t). t = i \<and> (\<exists>p \<in> set (lc_parents c). ?nm p = Some s)}"
  obtain d where d: "add_parents dag i (lc_parents c) = Some d" "dag_ext dag ?F d"
    using add_parents_ext [OF Cons.prems(1) dag_invD_map [OF Cons.prems(1) i]] by blast
  have nm: "cd_node_map d = cd_node_map dag" using d(2) by (simp add: dag_ext_def)
  then obtain d' where d': "add_commits d cs = Some d'" "dag_ext d (commit_edges ?nm cs) d'"
    using Cons.IH [OF dag_ext_inv [OF d(2)]] Cons.prems(2) by auto
  have "?F \<union> commit_edges ?nm cs = commit_edges ?nm (c # cs)"
    using i by (auto simp: commit_edges_def)
  with dag_ext_trans [OF d(2) d'(2)] d(1) d'(1) i show ?case by simp
qed

lemma map_of_enumerate_heads:
  assumes "distinct (map lc_head cs)"
  shows "map_of (om_of_list (map (\<lambda>(idx, node). (nd_id node, idx))
      (enumerate 0 (map (\<lambda>c. \<lparr>nd_id = lc_head c, nd_parents = None, nd_children = None\<rparr>) cs)))) h = Some i
    \<longleftrightarrow> i < length cs \<and> lc_head (cs ! i) = h"
proof -
  let ?kvs = "map (\<lambda>(idx, node). (nd_id node, idx))
    (enumerate 0 (map (\<lambda>c. \<lparr>nd_id = lc_head c, nd_parents = None, nd_children = None\<rparr>) cs))"
  have kvs: "?kvs = map (\<lambda>i. (lc_head (cs ! i), i)) [0..<length cs]"
    by (rule nth_equalityI) (simp_all add: nth_enumerate_eq)
  have "map fst ?kvs = map lc_head cs"
    unfolding kvs by (rule nth_equalityI) simp_all
  then have "distinct (map fst (rev ?kvs))"
    using assms by (simp add: rev_map [symmetric])
  then have "map_of (rev ?kvs) h = Some i \<longleftrightarrow> (h, i) \<in> set ?kvs"
    by (metis map_of_eq_Some_iff set_rev)
  then show ?thesis
    unfolding map_of_om_of_list by (auto simp: kvs)
qed

text \<open>A dag that represents a list of commits: node \<open>i\<close> is commit \<open>i\<close>.\<close>

definition represents :: "LooseCommit list \<Rightarrow> CommitDag \<Rightarrow> bool" where
  "represents cs dag \<longleftrightarrow>
     map nd_id (cd_nodes dag) = map lc_head cs \<and>
     (\<forall>i < length cs. set (dag_parents dag i) = {j. j < length cs \<and> lc_head (cs ! j) \<in> set (lc_parents (cs ! i))}) \<and>
     (\<forall>i < length cs. nd_children (cd_nodes dag ! i) = None
        \<longleftrightarrow> (\<forall>c \<in> set cs. lc_head (cs ! i) \<notin> set (lc_parents c)))"

lemma from_commits_represents:
  assumes "distinct (map lc_head cs)"
  shows "\<exists>dag. from_commits cs = Some dag \<and> represents cs dag"
proof -
  let ?nodes = "map (\<lambda>c. \<lparr>nd_id = lc_head c, nd_parents = None, nd_children = None\<rparr>) cs"
  let ?nm = "om_of_list (map (\<lambda>(idx, node). (nd_id node, idx)) (enumerate 0 ?nodes))"
  let ?d = "\<lparr>cd_nodes = ?nodes, cd_node_map = ?nm, cd_edges = []\<rparr>"
  note nm = map_of_enumerate_heads [OF assms]
  have inv: "dag_inv ?d"
    using nm by (auto simp: dag_inv_def links_ok_def ran_def)
  have "map_of ?nm (lc_head c) \<noteq> None" if "c \<in> set cs" for c
    using that nm [of "lc_head c"] by (metis in_set_conv_nth option.distinct(1))
  then obtain d where d: "add_commits ?d cs = Some d" "dag_ext ?d (commit_edges (map_of ?nm) cs) d"
    using add_commits_ext [OF inv, of cs] by auto
  have edges: "(s, t) \<in> commit_edges (map_of ?nm) cs \<longleftrightarrow>
      s < length cs \<and> t < length cs \<and> lc_head (cs ! s) \<in> set (lc_parents (cs ! t))" for s t
  proof -
    have "c = cs ! t" if "c \<in> set cs" "lc_head (cs ! t) = lc_head c" "t < length cs" for c
      using that assms by (metis distinct_map inj_onD nth_mem)
    then show ?thesis unfolding commit_edges_def by (auto simp: nm)
  qed
  have "(\<forall>t. (i, t) \<notin> commit_edges (map_of ?nm) cs) \<longleftrightarrow> (\<forall>c \<in> set cs. lc_head (cs ! i) \<notin> set (lc_parents c))"
    if "i < length cs" for i
    using that by (auto simp: edges all_set_conv_all_nth)
  then have "represents cs d"
    using d(2) edges by (auto simp: represents_def dag_ext_def dag_parents_def)
  with d(1) show ?thesis by (simp add: from_commits_def Let_def)
qed


section \<open>What simplification keeps\<close>

text \<open>The loop as an instance of the generic walk, over pairs of a node and its range head.\<close>

definition node_id :: "CommitDag \<Rightarrow> NodeIdx \<Rightarrow> CommitId" where
  "node_id dag i = nd_id (cd_nodes dag ! i)"

definition range_norm :: "CommitDag \<Rightarrow> DepthMetric \<Rightarrow> NodeIdx \<times> CommitId option \<Rightarrow> NodeIdx \<times> CommitId option" where
  "range_norm dag strategy = (\<lambda>(i, r). (i, enter_range strategy r (node_id dag i)))"

definition range_succ :: "CommitDag \<Rightarrow> NodeIdx \<times> CommitId option \<Rightarrow> (NodeIdx \<times> CommitId option) list" where
  "range_succ dag = (\<lambda>(i, r). map (\<lambda>p. (p, r)) (dag_parents dag i))"

definition range_nodes :: "CommitDag \<Rightarrow> (NodeIdx \<times> CommitId option) list" where
  "range_nodes dag =
     List.product [0..<length (cd_nodes dag)] (None # map (Some \<circ> nd_id) (cd_nodes dag))"

definition notes_ok :: "CommitDag \<Rightarrow> (NodeIdx \<times> CommitId option) set \<Rightarrow> range_state \<Rightarrow> bool" where
  "notes_ok dag visited = (\<lambda>(ranges, rangeless).
     om_inv ranges \<and>
     (\<forall>c h. (\<exists>hs. map_of ranges c = Some hs \<and> h \<in> set hs) \<longleftrightarrow> (\<exists>i. (i, Some h) \<in> visited \<and> node_id dag i = c)) \<and>
     rangeless = {node_id dag i | i. (i, None) \<in> visited})"

lemma notes_ok_visit:
  assumes "notes_ok dag visited st"
  shows "notes_ok dag (insert (i, r) visited) (note_visit (node_id dag i) r st)"
proof (cases r)
  case None
  with assms show ?thesis by (auto simp: notes_ok_def note_visit_def)
next
  case (Some head)
  obtain ranges rl where st: "st = (ranges, rl)" by (cases st)
  let ?hs = "(case map_of ranges (node_id dag i) of None \<Rightarrow> [] | Some hs \<Rightarrow> hs)"
  have inv: "om_inv ranges" and rl: "rl = {node_id dag i | i. (i, None) \<in> visited}"
    and iff: "\<And>c h. (\<exists>hs. map_of ranges c = Some hs \<and> h \<in> set hs) \<longleftrightarrow> (\<exists>i. (i, Some h) \<in> visited \<and> node_id dag i = c)"
    using assms by (simp_all add: notes_ok_def st)
  have "h \<in> set ?hs \<longleftrightarrow> (\<exists>hs. map_of ranges (node_id dag i) = Some hs \<and> h \<in> set hs)" for h
    by (cases "map_of ranges (node_id dag i)") auto
  then have "(\<exists>hs. (if c = node_id dag i then Some (?hs @ [head]) else map_of ranges c) = Some hs \<and> h \<in> set hs)
      \<longleftrightarrow> (\<exists>j. (j, Some h) \<in> insert (i, Some head) visited \<and> node_id dag j = c)" for c h
    using iff [of c h] by auto
  with inv rl show ?thesis
    by (simp add: notes_ok_def note_visit_def st Some fun_upd_def eq_commute)
qed

lemma simplify_loop_walk:
  assumes "\<And>i. i < length (cd_nodes dag) \<Longrightarrow> set (dag_parents dag i) \<subseteq> {..<length (cd_nodes dag)}"
    and "\<forall>(i, r) \<in> set stack. i < length (cd_nodes dag) \<and> r \<in> insert None (Some ` nd_id ` set (cd_nodes dag))"
    and "notes_ok dag visited st"
  shows "\<exists>st'. simplify_loop dag strategy stack visited st = Some st'
    \<and> notes_ok dag (walk (range_nodes dag) (range_norm dag strategy) (range_succ dag) stack visited) st'"
  using assms
proof (induction dag strategy stack visited st rule: simplify_loop.induct)
  case (1 dag strategy visited st)
  then show ?case by simp
next
  case (2 dag strategy idx r stack visited st)
  let ?id = "nd_id (cd_nodes dag ! idx)"
  let ?r = "enter_range strategy r ?id"
  have idx: "idx < length (cd_nodes dag)" and "r \<in> insert None (Some ` nd_id ` set (cd_nodes dag))"
    using 2(4) by auto
  then have r: "?r \<in> insert None (Some ` nd_id ` set (cd_nodes dag))"
    by (auto simp: enter_range_def)
  have norm: "range_norm dag strategy (idx, r) = (idx, ?r)"
    by (simp add: range_norm_def node_id_def)
  have U: "(idx, ?r) \<in> set (range_nodes dag)"
    using idx r by (auto simp: range_nodes_def)
  show ?case
  proof (cases "(idx, ?r) \<in> visited")
    case True
    with 2 idx norm show ?thesis by (simp add: Let_def)
  next
    case False
    let ?stack = "rev (map (\<lambda>p. (p, ?r)) (dag_parents dag idx)) @ stack"
    have "\<forall>(i, r) \<in> set ?stack. i < length (cd_nodes dag) \<and> r \<in> insert None (Some ` nd_id ` set (cd_nodes dag))"
      using 2(3) [OF idx] 2(4) r by auto
    moreover have "notes_ok dag (insert (idx, ?r) visited) (note_visit ?id ?r st)"
      using notes_ok_visit [OF 2(5), of idx ?r] by (simp add: node_id_def)
    ultimately obtain st' where
      "simplify_loop dag strategy ?stack (insert (idx, ?r) visited) (note_visit ?id ?r st) = Some st'"
      "notes_ok dag (walk (range_nodes dag) (range_norm dag strategy) (range_succ dag) ?stack (insert (idx, ?r) visited)) st'"
      using 2(2) [OF _ refl refl False] 2(3) idx by auto
    then show ?thesis
      using idx False norm U by (simp add: Let_def range_succ_def)
  qed
qed

text \<open>
  The specification over the commits: \<open>in_range strategy cs c r\<close> holds when some path of
  parent links from a tip reaches \<open>c\<close> and \<open>r\<close> is the last boundary commit on it.
\<close>

definition is_tip :: "LooseCommit list \<Rightarrow> LooseCommit \<Rightarrow> bool" where
  "is_tip cs c \<longleftrightarrow> c \<in> set cs \<and> (\<forall>d \<in> set cs. lc_head c \<notin> set (lc_parents d))"

inductive in_range :: "DepthMetric \<Rightarrow> LooseCommit list \<Rightarrow> LooseCommit \<Rightarrow> CommitId option \<Rightarrow> bool"
  for strategy :: DepthMetric and cs :: "LooseCommit list" where
  tip: "is_tip cs c \<Longrightarrow> in_range strategy cs c (enter_range strategy None (lc_head c))"
| parent: "in_range strategy cs c r \<Longrightarrow> p \<in> set cs \<Longrightarrow> lc_head p \<in> set (lc_parents c)
    \<Longrightarrow> in_range strategy cs p (enter_range strategy r (lc_head p))"

definition kept_commit :: "Fragment list \<Rightarrow> DepthMetric \<Rightarrow> LooseCommit list \<Rightarrow> LooseCommit \<Rightarrow> bool" where
  "kept_commit fragments strategy cs c \<longleftrightarrow>
     (\<exists>r. in_range strategy cs c r \<and> (case r of None \<Rightarrow> True | Some h \<Rightarrow> \<not> range_covered fragments h))"

lemma in_range_mem: "in_range strategy cs c r \<Longrightarrow> c \<in> set cs"
  by (induction rule: in_range.induct) (auto simp: is_tip_def)


lemma representsD:
  assumes "represents cs dag"
  shows "length (cd_nodes dag) = length cs" and "i < length cs \<Longrightarrow> node_id dag i = lc_head (cs ! i)"
    and "i < length cs \<Longrightarrow> set (dag_parents dag i) = {j. j < length cs \<and> lc_head (cs ! j) \<in> set (lc_parents (cs ! i))}"
    and "nd_id ` set (cd_nodes dag) = lc_head ` set cs"
    and "set (tips dag) = {i. i < length cs \<and> is_tip cs (cs ! i)}"
proof -
  have ids: "map nd_id (cd_nodes dag) = map lc_head cs" using assms by (simp add: represents_def)
  then show len: "length (cd_nodes dag) = length cs" by (metis length_map)
  show "node_id dag i = lc_head (cs ! i)" if "i < length cs"
    using ids len that unfolding node_id_def by (metis nth_map)
  show "nd_id ` set (cd_nodes dag) = lc_head ` set cs"
    using ids by (metis list.set_map)
  show "set (dag_parents dag i) = {j. j < length cs \<and> lc_head (cs ! j) \<in> set (lc_parents (cs ! i))}"
    if "i < length cs" using assms that by (simp add: represents_def)
  have "set (tips dag) = {i. i < length cs \<and> nd_children (cd_nodes dag ! i) = None}"
    by (force simp: tips_def in_set_enumerate_eq len image_iff)
  then show "set (tips dag) = {i. i < length cs \<and> is_tip cs (cs ! i)}"
    using assms by (auto simp: represents_def is_tip_def)
qed

lemma walk_in_range:
  assumes rep: "represents cs dag"
  shows "(i, r) \<in> walk (range_nodes dag) (range_norm dag strategy) (range_succ dag)
      (rev (map (\<lambda>t. (t, None)) (sort_key f (tips dag)))) {}
    \<longleftrightarrow> i < length cs \<and> in_range strategy cs (cs ! i) r"
    (is "_ \<in> walk ?U ?norm ?succ ?stack {} \<longleftrightarrow> _")
proof -
  note D = representsD [OF rep]
  let ?ok = "\<lambda>r. r \<in> insert None (Some ` lc_head ` set cs)"
  have ok: "?ok r" if "in_range strategy cs c r" for c r
    using that by induction (auto simp: enter_range_def is_tip_def)
  have U: "(i, r) \<in> set ?U \<longleftrightarrow> i < length cs \<and> ?ok r" for i r
    using D(1,4) by (auto simp: range_nodes_def image_image [symmetric] simp del: image_image)
  have edge: "walk_edge ?U ?norm ?succ (i, r) (j, r') \<longleftrightarrow> i < length cs \<and> ?ok r \<and> j < length cs
      \<and> lc_head (cs ! j) \<in> set (lc_parents (cs ! i)) \<and> r' = enter_range strategy r (lc_head (cs ! j))" for i r j r'
    using D(2,3) by (auto simp: walk_edge_def U range_succ_def range_norm_def image_iff)
  have norm: "?norm (i, None) = (i, enter_range strategy None (lc_head (cs ! i)))" if "i < length cs" for i
    using D(2) that by (simp add: range_norm_def)
  have sound: "fst k < length cs \<and> in_range strategy cs (cs ! fst k) (snd k)"
    if "(walk_edge ?U ?norm ?succ)\<^sup>*\<^sup>* (?norm (t, None)) k" "t \<in> set (tips dag)" for t k
    using that
  proof (induction rule: rtranclp_induct)
    case base
    then show ?case using D(5) norm [of t] by (auto intro: in_range.tip)
  next
    case (step k l)
    then show ?case
      using edge [of "fst k" "snd k" "fst l" "snd l"] by (auto intro: in_range.parent)
  qed
  have complete: "\<exists>t \<in> set (tips dag). (walk_edge ?U ?norm ?succ)\<^sup>*\<^sup>* (?norm (t, None)) (i, r)"
    if "in_range strategy cs c r" "i < length cs" "cs ! i = c" for c r i
    using that
  proof (induction arbitrary: i)
    case (tip c)
    then show ?case using D(5) norm by auto
  next
    case (parent c r p)
    obtain j where j: "j < length cs" "cs ! j = c"
      using in_range_mem [OF parent(1)] by (metis in_set_conv_nth)
    with parent edge [of j r i] ok show ?case
      by (metis (no_types, lifting) rtranclp.rtrancl_into_rtrancl)
  qed
  have "(i, r) \<in> walk ?U ?norm ?succ ?stack {} \<longleftrightarrow>
      (\<exists>t \<in> set (tips dag). (walk_edge ?U ?norm ?succ)\<^sup>*\<^sup>* (?norm (t, None)) (i, r))"
    unfolding walk_reach by auto
  then show ?thesis
    using sound [of _ "(i, r)"] complete [of "cs ! i" r i] by auto
qed

lemma simplify_spec:
  assumes "distinct (map lc_head cs)"
  shows "\<exists>dag K. from_commits cs = Some dag \<and> simplify dag fragments strategy = Some K
    \<and> (\<forall>c \<in> set cs. lc_head c \<in> K \<longleftrightarrow> kept_commit fragments strategy cs c) \<and> K \<subseteq> lc_head ` set cs"
proof -
  obtain dag where dag: "from_commits cs = Some dag" and rep: "represents cs dag"
    using from_commits_represents [OF assms] by blast
  note D = representsD [OF rep]
  let ?stack = "rev (map (\<lambda>t. (t, None)) (sort_key (\<lambda>idx. nd_id (cd_nodes dag ! idx)) (tips dag)))"
  let ?V = "walk (range_nodes dag) (range_norm dag strategy) (range_succ dag) ?stack {}"
  have p: "set (dag_parents dag i) \<subseteq> {..<length (cd_nodes dag)}" if "i < length (cd_nodes dag)" for i
    using D(1,3) that by auto
  have q: "\<forall>(i, r) \<in> set ?stack. i < length (cd_nodes dag) \<and> r \<in> insert None (Some ` nd_id ` set (cd_nodes dag))"
    using D(1,5) by auto
  have "notes_ok dag {} ([], {})" by (simp add: notes_ok_def)
  from simplify_loop_walk [OF p q this, of strategy]
  obtain ranges rl where st: "simplify_loop dag strategy ?stack {} ([], {}) = Some (ranges, rl)"
    and nts: "notes_ok dag ?V (ranges, rl)"
    by (metis surj_pair)
  have V: "(i, r) \<in> ?V \<longleftrightarrow> i < length cs \<and> in_range strategy cs (cs ! i) r" for i r
    by (rule walk_in_range [OF rep])
  have inv: "om_inv ranges" and rl: "rl = {node_id dag i | i. (i, None) \<in> ?V}"
    and iff: "\<And>c h. (\<exists>hs. map_of ranges c = Some hs \<and> h \<in> set hs) \<longleftrightarrow> (\<exists>i. (i, Some h) \<in> ?V \<and> node_id dag i = c)"
    using nts by (simp_all add: notes_ok_def)
  define K where "K = set (map fst (filter (\<lambda>(_, ranges). \<not> list_all (range_covered fragments) ranges) ranges)) \<union> rl"
  have "c \<in> set (map fst (filter (\<lambda>(_, ranges). \<not> list_all (range_covered fragments) ranges) ranges))
      \<longleftrightarrow> (\<exists>hs. map_of ranges c = Some hs \<and> (\<exists>h \<in> set hs. \<not> range_covered fragments h))" for c
    using om_inv_distinct [OF inv] by (force simp: list_all_iff map_of_eq_Some_iff)
  then have "c \<in> K \<longleftrightarrow> (\<exists>h. \<not> range_covered fragments h \<and> (\<exists>hs. map_of ranges c = Some hs \<and> h \<in> set hs)) \<or> c \<in> rl" for c
    unfolding K_def by blast
  then have K: "c \<in> K \<longleftrightarrow> (\<exists>i r. (i, r) \<in> ?V \<and> node_id dag i = c
      \<and> (case r of None \<Rightarrow> True | Some h \<Rightarrow> \<not> range_covered fragments h))" for c
    unfolding iff rl by (subst split_option_ex) auto
  have "lc_head c \<in> K \<longleftrightarrow> kept_commit fragments strategy cs c" if c: "c \<in> set cs" for c
  proof -
    have "cs ! i = c" if "i < length cs" "lc_head (cs ! i) = lc_head c" for i
      using that c assms by (metis distinct_map inj_onD nth_mem)
    moreover have "lc_head c \<in> K \<longleftrightarrow>
        (\<exists>i < length cs. lc_head (cs ! i) = lc_head c \<and> kept_commit fragments strategy cs (cs ! i))"
      unfolding K V kept_commit_def by (metis D(2))
    ultimately show ?thesis
      using c by (metis in_set_conv_nth)
  qed
  moreover have "K \<subseteq> lc_head ` set cs"
    using D(2) by (auto simp: K V)
  ultimately show ?thesis
    using dag st by (auto simp: simplify_def Let_def K_def)
qed


section \<open>Paths\<close>

definition parent_link :: "LooseCommit list \<Rightarrow> LooseCommit \<Rightarrow> LooseCommit \<Rightarrow> bool" where
  "parent_link cs c p \<longleftrightarrow> c \<in> set cs \<and> p \<in> set cs \<and> lc_head p \<in> set (lc_parents c)"

definition acyclic_commits :: "LooseCommit list \<Rightarrow> bool" where
  "acyclic_commits cs \<longleftrightarrow> acyclic {(c, p). parent_link cs c p}"

text \<open>In an acyclic history every commit hangs below a tip, so it has a range.\<close>

lemma acyclic_in_range:
  assumes "acyclic_commits cs" and "c \<in> set cs"
  shows "\<exists>r. in_range strategy cs c r"
proof -
  have "{(c, p). parent_link cs c p} \<subseteq> set cs \<times> set cs" by (auto simp: parent_link_def)
  then have "finite {(c, p). parent_link cs c p}" by (rule finite_subset) simp
  then have "wf {(c, p). parent_link cs c p}"
    using assms(1) unfolding acyclic_commits_def by (rule finite_acyclic_wf)
  then show ?thesis
    using assms(2)
  proof (induction c rule: wf_induct_rule)
    case (less c)
    show ?case
    proof (cases "is_tip cs c")
      case True
      then show ?thesis by (blast intro: in_range.tip)
    next
      case False
      then obtain d where d: "d \<in> set cs" "lc_head c \<in> set (lc_parents d)"
        using less.prems by (auto simp: is_tip_def)
      with less.IH [of d] less.prems obtain r where "in_range strategy cs d r"
        by (auto simp: parent_link_def)
      with d less.prems show ?thesis by (blast intro: in_range.parent)
    qed
  qed
qed

end
