(* ===== verification/Sedimentree.thy ===== *)
theory Sedimentree
  imports Commit_Dag
begin

text \<open>
  The sedimentree, \<^verbatim>\<open>sedimentree_core/src/sedimentree.rs\<close> and
  \<^verbatim>\<open>sedimentree/minimized.rs\<close>: construction, merging, minimisation, heads,
  fingerprint summaries and the two diffs.
\<close>

section \<open>State\<close>

text \<open>The external functions the tree uses: BLAKE3, bijoux (inside the encodings it hashes) and SipHash.\<close>

record Externals =
  ex_blake3 :: blake3
  ex_bijoux :: Bijoux
  ex_siphash :: siphash

definition commit_digest :: "Externals \<Rightarrow> LooseCommit \<Rightarrow> Digest" where
  "commit_digest x c = digest_hash (ex_blake3 x) (loose_commit_payload (ex_bijoux x)) c"

definition fragment_digest :: "Externals \<Rightarrow> Fragment \<Rightarrow> Digest" where
  "fragment_digest x f = digest_hash (ex_blake3 x) (fragment_payload (ex_bijoux x)) f"

record Sedimentree =
  fragments :: "(CommitId, Fragment) omap"
  commits :: "(CommitId, LooseCommit) omap"

text \<open>\<open>H\<close> is \<open>Digest::hash\<close> at the type of the values.\<close>

definition insert_or_tiebreak :: "('v \<Rightarrow> Digest) \<Rightarrow> ('k::linorder, 'v) omap \<Rightarrow> 'k \<Rightarrow> 'v \<Rightarrow> ('k, 'v) omap" where
  "insert_or_tiebreak H m key v =
     (case map_of m key of
        None \<Rightarrow> om_insert key v m
      | Some e \<Rightarrow> if H v < H e then om_insert key v m else m)"

definition sedimentree_new :: "Externals \<Rightarrow> Fragment list \<Rightarrow> LooseCommit list \<Rightarrow> Sedimentree" where
  "sedimentree_new x fs cs =
     \<lparr>fragments = foldl (\<lambda>m f. insert_or_tiebreak (fragment_digest x) m (fr_head f) f) [] fs,
      commits = foldl (\<lambda>m c. insert_or_tiebreak (commit_digest x) m (lc_head c) c) [] cs\<rparr>"

definition merge :: "Externals \<Rightarrow> Sedimentree \<Rightarrow> Sedimentree \<Rightarrow> Sedimentree" where
  "merge x self other =
     \<lparr>fragments = foldl (\<lambda>m (i, f). insert_or_tiebreak (fragment_digest x) m i f) (fragments self) (fragments other),
      commits = foldl (\<lambda>m (i, c). insert_or_tiebreak (commit_digest x) m i c) (commits self) (commits other)\<rparr>"

definition add_commit :: "Externals \<Rightarrow> Sedimentree \<Rightarrow> LooseCommit \<Rightarrow> Sedimentree \<times> bool" where
  "add_commit x self commit =
     (let i = lc_head commit in
      case map_of (commits self) i of
        None \<Rightarrow> (self\<lparr>commits := om_insert i commit (commits self)\<rparr>, True)
      | Some e \<Rightarrow>
          (if commit_digest x commit < commit_digest x e
           then self\<lparr>commits := om_insert i commit (commits self)\<rparr> else self, False))"

definition add_fragment :: "Externals \<Rightarrow> Sedimentree \<Rightarrow> Fragment \<Rightarrow> Sedimentree \<times> bool" where
  "add_fragment x self fragment =
     (let i = fr_head fragment in
      case map_of (fragments self) i of
        None \<Rightarrow> (self\<lparr>fragments := om_insert i fragment (fragments self)\<rparr>, True)
      | Some e \<Rightarrow>
          (if fragment_digest x fragment < fragment_digest x e
           then self\<lparr>fragments := om_insert i fragment (fragments self)\<rparr> else self, False))"

record Diff =
  left_missing_fragments :: "Fragment list"
  left_missing_commits :: "LooseCommit list"
  right_missing_fragments :: "Fragment list"
  right_missing_commits :: "LooseCommit list"

text \<open>\<open>keys1.difference(keys2).filter_map(|k| m1.get(k))\<close>\<close>

definition only_in :: "('k, 'v) omap \<Rightarrow> ('k, 'v) omap \<Rightarrow> 'v list" where
  "only_in m1 m2 = List.map_filter (map_of m1) (filter (\<lambda>k. k \<notin> set (om_keys m2)) (om_keys m1))"

definition diff :: "Sedimentree \<Rightarrow> Sedimentree \<Rightarrow> Diff" where
  "diff self other =
     \<lparr>left_missing_fragments = only_in (fragments other) (fragments self),
      left_missing_commits = only_in (commits other) (commits self),
      right_missing_fragments = only_in (fragments self) (fragments other),
      right_missing_commits = only_in (commits self) (commits other)\<rparr>"

definition has_loose_commit :: "Sedimentree \<Rightarrow> CommitId \<Rightarrow> bool" where
  "has_loose_commit self i \<longleftrightarrow> map_of (commits self) i \<noteq> None"

definition has_fragment :: "Sedimentree \<Rightarrow> CommitId \<Rightarrow> bool" where
  "has_fragment self i \<longleftrightarrow> map_of (fragments self) i \<noteq> None"


section \<open>Minimisation\<close>

definition om_push :: "'k::linorder \<Rightarrow> 'v \<Rightarrow> ('k, 'v list) omap \<Rightarrow> ('k, 'v list) omap" where
  "om_push k v m = om_insert k ((case map_of m k of None \<Rightarrow> [] | Some vs \<Rightarrow> vs) @ [v]) m"

type_synonym keep_state = "Fragment list \<times> (Depth, Fragment list) omap"

definition dominated_by_deeper :: "DepthMetric \<Rightarrow> (Depth, Fragment list) omap \<Rightarrow> Depth \<Rightarrow> Fragment \<Rightarrow> bool" where
  "dominated_by_deeper m kept depth fragment =
     list_ex (\<lambda>(_, peers). list_ex (\<lambda>deeper. supports deeper (fr_summary fragment) m) peers)
       (filter (\<lambda>(d, _). depth < d) kept)"

fun keep_group :: "DepthMetric \<Rightarrow> Depth \<Rightarrow> Fragment list \<Rightarrow> keep_state \<Rightarrow> keep_state" where
  "keep_group m depth [] st = st"
| "keep_group m depth (f # fs) (minimized, kept) =
     keep_group m depth fs
       (if dominated_by_deeper m kept depth f then (minimized, kept)
        else (minimized @ [f], om_push depth f kept))"

fun keep_depths :: "DepthMetric \<Rightarrow> Depth list \<Rightarrow> (Depth, Fragment list) omap \<Rightarrow> keep_state \<Rightarrow> keep_state" where
  "keep_depths m [] by_depth st = st"
| "keep_depths m (d # ds) by_depth st =
     (case map_of by_depth d of
        None \<Rightarrow> keep_depths m ds by_depth st
      | Some grp \<Rightarrow> keep_depths m ds (om_remove d by_depth) (keep_group m d grp st))"

definition minimized_fragments :: "DepthMetric \<Rightarrow> Sedimentree \<Rightarrow> Fragment list" where
  "minimized_fragments m self =
     (let sorted_frags = sort_key (\<lambda>f. commit_id_bytes (fr_head f)) (om_values (fragments self));
          by_depth = foldl (\<lambda>b f. om_push (fragment_depth f m) f b) [] sorted_frags;
          depths = rev (sort (om_keys by_depth))
      in fst (keep_depths m depths by_depth ([], [])))"

record KeepSets =
  fragment_heads :: "CommitId set"
  commit_heads :: "CommitId set"

text \<open>The value \<open>None\<close> is a panic of the commit dag; a well-formed tree never gives it.\<close>

definition keep_sets :: "DepthMetric \<Rightarrow> Sedimentree \<Rightarrow> KeepSets option" where
  "keep_sets m self =
     (let minimized = minimized_fragments m self in
      Option.bind (from_commits (om_values (commits self))) (\<lambda>dag.
      Option.bind (simplify dag minimized m) (\<lambda>heads.
      Some \<lparr>fragment_heads = set (map fr_head minimized), commit_heads = heads\<rparr>)))"

definition minimize :: "Externals \<Rightarrow> DepthMetric \<Rightarrow> Sedimentree \<Rightarrow> Sedimentree option" where
  "minimize x m self =
     Option.bind (keep_sets m self) (\<lambda>ks.
     Some (sedimentree_new x
       (filter (\<lambda>f. fr_head f \<in> fragment_heads ks) (om_values (fragments self)))
       (filter (\<lambda>c. lc_head c \<in> commit_heads ks) (om_values (commits self)))))"

definition minimize_in_place :: "DepthMetric \<Rightarrow> Sedimentree \<Rightarrow> Sedimentree option" where
  "minimize_in_place m self =
     Option.bind (keep_sets m self) (\<lambda>ks.
     Some (self\<lparr>fragments := om_retain (\<lambda>head _. head \<in> fragment_heads ks) (fragments self),
                commits := om_retain (\<lambda>head _. head \<in> commit_heads ks) (commits self)\<rparr>))"

definition minimal_hash :: "Externals \<Rightarrow> DepthMetric \<Rightarrow> Sedimentree \<Rightarrow> bytes option" where
  "minimal_hash x m self =
     Option.bind (minimize x m self) (\<lambda>minimal.
     let ids = sort (concat (map (\<lambda>s. fr_head s # fr_boundary s) (om_values (fragments minimal)))
                 @ map lc_head (om_values (commits minimal)));
         checkpoints = sort (concat (map fr_checkpoints (om_values (fragments minimal))))
     in Some (ex_blake3 x (concat (map commit_id_bytes ids) @ concat (map checkpoint_bytes checkpoints))))"


section \<open>Heads\<close>

definition heads_assuming_minimal :: "Sedimentree \<Rightarrow> CommitId list" where
  "heads_assuming_minimal self =
     (let referenced_ids = set (concat (map lc_parents (om_values (commits self))))
            \<union> set (concat (map fr_boundary (om_values (fragments self))));
          referenced_checkpoints = set (concat (map fr_checkpoints (om_values (fragments self))))
      in os_of_list (filter (\<lambda>i. i \<notin> referenced_ids \<and> checkpoint_new i \<notin> referenced_checkpoints)
           (om_keys (fragments self) @ om_keys (commits self))))"

definition heads :: "Externals \<Rightarrow> DepthMetric \<Rightarrow> Sedimentree \<Rightarrow> CommitId list option" where
  "heads x m self = map_option heads_assuming_minimal (minimize x m self)"

definition has_fragment_starting_with :: "Externals \<Rightarrow> DepthMetric \<Rightarrow> Sedimentree \<Rightarrow> CommitId \<Rightarrow> bool option" where
  "has_fragment_starting_with x m self i = map_option (\<lambda>hs. i \<in> set hs) (heads x m self)"


section \<open>Fingerprints\<close>

record FingerprintSummary =
  fp_seed :: FingerprintSeed
  commit_fingerprints :: "Fingerprint list"
  fragment_fingerprints :: "Fingerprint list"

record FingerprintDiff =
  local_only_fragments :: "(CommitId \<times> Fragment) list"
  local_only_commits :: "(CommitId \<times> LooseCommit) list"
  remote_only_commit_fingerprints :: "Fingerprint list"
  remote_only_fragment_fingerprints :: "Fingerprint list"

record FingerprintResolver =
  fr_summary_of :: FingerprintSummary
  commit_fp_to_id :: "(Fingerprint, CommitId) omap"
  fragment_fp_to_id :: "(Fingerprint, CommitId) omap"

definition resolve_commit :: "FingerprintResolver \<Rightarrow> Fingerprint \<Rightarrow> CommitId option" where
  "resolve_commit r fp = map_of (commit_fp_to_id r) fp"

definition resolve_fragment :: "FingerprintResolver \<Rightarrow> Fingerprint \<Rightarrow> CommitId option" where
  "resolve_fragment r fp = map_of (fragment_fp_to_id r) fp"

text \<open>The fingerprints of the heads and boundaries of the fragments.\<close>

definition coverage_fps :: "Externals \<Rightarrow> FingerprintSeed \<Rightarrow> Sedimentree \<Rightarrow> Fingerprint list" where
  "coverage_fps x seed self =
     concat (map (\<lambda>f. fingerprint_new (ex_siphash x) seed (fr_head f)
                    # map (fingerprint_new (ex_siphash x) seed) (fr_boundary f)) (om_values (fragments self)))"

definition fingerprint_summarize :: "Externals \<Rightarrow> FingerprintSeed \<Rightarrow> Sedimentree \<Rightarrow> FingerprintSummary" where
  "fingerprint_summarize x seed self =
     \<lparr>fp_seed = seed,
      commit_fingerprints = os_of_list
        (map (\<lambda>c. fingerprint_new (ex_siphash x) seed (lc_head c)) (om_values (commits self))
         @ coverage_fps x seed self),
      fragment_fingerprints = os_of_list (map (fingerprint_new (ex_siphash x) seed) (om_keys (fragments self)))\<rparr>"

definition fingerprint_resolver :: "Externals \<Rightarrow> FingerprintSeed \<Rightarrow> Sedimentree \<Rightarrow> FingerprintResolver" where
  "fingerprint_resolver x seed self =
     (let commit_fp_to_id = om_of_list
            (map (\<lambda>(i, c). (fingerprint_new (ex_siphash x) seed (lc_head c), i)) (commits self));
          fragment_fp_to_id = om_of_list
            (map (\<lambda>i. (fingerprint_new (ex_siphash x) seed i, i)) (om_keys (fragments self)));
          commit_fps = os_of_list (om_keys commit_fp_to_id @ coverage_fps x seed self)
      in \<lparr>fr_summary_of = \<lparr>fp_seed = seed, commit_fingerprints = commit_fps,
             fragment_fingerprints = om_keys fragment_fp_to_id\<rparr>,
          commit_fp_to_id = commit_fp_to_id,
          fragment_fp_to_id = fragment_fp_to_id\<rparr>)"

text \<open>\<open>ancestors_of\<close> follows parents that are commits of the tree; the roots come as an ordered set.\<close>

definition commit_parents :: "Sedimentree \<Rightarrow> CommitId \<Rightarrow> CommitId list" where
  "commit_parents self i = (case map_of (commits self) i of None \<Rightarrow> [] | Some c \<Rightarrow> lc_parents c)"

definition ancestors_of :: "Sedimentree \<Rightarrow> CommitId list \<Rightarrow> CommitId set" where
  "ancestors_of self roots = walk (om_keys (commits self)) id (commit_parents self) (rev roots) {}"

definition fragment_roots :: "Externals \<Rightarrow> Sedimentree \<Rightarrow> FingerprintSummary \<Rightarrow> CommitId list" where
  "fragment_roots x self remote =
     os_of_list (filter
       (\<lambda>h. fingerprint_new (ex_siphash x) (fp_seed remote) h \<in> set (fragment_fingerprints remote))
       (map lc_head (om_values (commits self)) @ map fr_head (om_values (fragments self))))"

definition is_horizon :: "Externals \<Rightarrow> FingerprintSummary \<Rightarrow> CommitId list \<Rightarrow> CommitId \<Rightarrow> bool" where
  "is_horizon x remote roots i \<longleftrightarrow>
     i \<notin> set roots \<and>
     fingerprint_new (ex_siphash x) (fp_seed remote) i \<in> set (commit_fingerprints remote)"

definition covered_by_remote :: "Externals \<Rightarrow> Sedimentree \<Rightarrow> FingerprintSummary \<Rightarrow> CommitId list \<Rightarrow> CommitId set" where
  "covered_by_remote x self remote roots =
     walk (om_keys (commits self)) id
       (\<lambda>i. if is_horizon x remote roots i then [] else commit_parents self i) (rev roots) {}"

definition diff_remote_fingerprints :: "Externals \<Rightarrow> Sedimentree \<Rightarrow> FingerprintSummary \<Rightarrow> FingerprintDiff" where
  "diff_remote_fingerprints x self remote =
     (let seed = fp_seed remote;
          fp = fingerprint_new (ex_siphash x) seed;
          only_commits = filter (\<lambda>(_, c). fp (lc_head c) \<notin> set (commit_fingerprints remote)) (commits self);
          roots = fragment_roots x self remote;
          only_commits =
            (if roots \<noteq> [] then
               let covered = covered_by_remote x self remote roots
               in filter (\<lambda>(i, _). i \<notin> covered) only_commits
             else only_commits);
          only_fragments = filter (\<lambda>(i, _). fp i \<notin> set (fragment_fingerprints remote)) (fragments self);
          local_commit_fps = set (map (\<lambda>c. fp (lc_head c)) (om_values (commits self))) \<union> set (coverage_fps x seed self);
          local_fragment_fps = set (map fp (om_keys (fragments self)))
      in \<lparr>local_only_fragments = only_fragments,
          local_only_commits = only_commits,
          remote_only_commit_fingerprints = filter (\<lambda>p. p \<notin> local_commit_fps) (commit_fingerprints remote),
          remote_only_fragment_fingerprints =
            filter (\<lambda>p. p \<notin> local_fragment_fps) (fragment_fingerprints remote)\<rparr>)"


section \<open>Items\<close>

datatype CommitOrFragment = CofCommit LooseCommit | CofFragment Fragment

definition into_items :: "Sedimentree \<Rightarrow> CommitOrFragment list" where
  "into_items self = map CofFragment (om_values (fragments self)) @ map CofCommit (om_values (commits self))"


section \<open>Minimised trees with a dirty flag\<close>

record MinimizedSedimentree =
  ms_tree :: Sedimentree
  ms_dirty :: bool

definition minimized_new :: "Sedimentree \<Rightarrow> MinimizedSedimentree" where
  "minimized_new t = \<lparr>ms_tree = t, ms_dirty = True\<rparr>"

definition already_minimal :: "Sedimentree \<Rightarrow> MinimizedSedimentree" where
  "already_minimal t = \<lparr>ms_tree = t, ms_dirty = False\<rparr>"

definition ms_add_commit :: "Externals \<Rightarrow> MinimizedSedimentree \<Rightarrow> LooseCommit \<Rightarrow> MinimizedSedimentree \<times> bool" where
  "ms_add_commit x self c =
     (let (t, added) = add_commit x (ms_tree self) c in (self\<lparr>ms_tree := t, ms_dirty := True\<rparr>, added))"

definition ms_add_fragment :: "Externals \<Rightarrow> MinimizedSedimentree \<Rightarrow> Fragment \<Rightarrow> MinimizedSedimentree \<times> bool" where
  "ms_add_fragment x self f =
     (let (t, added) = add_fragment x (ms_tree self) f in (self\<lparr>ms_tree := t, ms_dirty := True\<rparr>, added))"

definition ms_merge :: "Externals \<Rightarrow> MinimizedSedimentree \<Rightarrow> Sedimentree \<Rightarrow> MinimizedSedimentree" where
  "ms_merge x self other = self\<lparr>ms_tree := merge x (ms_tree self) other, ms_dirty := True\<rparr>"

definition ensure_minimized :: "DepthMetric \<Rightarrow> MinimizedSedimentree \<Rightarrow> MinimizedSedimentree option" where
  "ensure_minimized m self =
     (if ms_dirty self
      then map_option (\<lambda>t. self\<lparr>ms_tree := t, ms_dirty := False\<rparr>) (minimize_in_place m (ms_tree self))
      else Some self)"

definition minimized :: "DepthMetric \<Rightarrow> MinimizedSedimentree \<Rightarrow> (MinimizedSedimentree \<times> Sedimentree) option" where
  "minimized m self = map_option (\<lambda>s. (s, ms_tree s)) (ensure_minimized m self)"

definition ms_heads :: "DepthMetric \<Rightarrow> MinimizedSedimentree \<Rightarrow> (MinimizedSedimentree \<times> CommitId list) option" where
  "ms_heads m self = map_option (\<lambda>s. (s, heads_assuming_minimal (ms_tree s))) (ensure_minimized m self)"

end
