(* ===== verification/Sedimentree_Merge.thy ===== *)
theory Sedimentree_Merge
  imports Sedimentree
begin

text \<open>
  Convergence: what a tree holds depends only on the set of commits and fragments it was
  given, not on their order, their multiplicity or how they were grouped into merges.
  The tiebreak between two values of one identity is by digest, so this rests on digests
  of the values at hand being distinct.
\<close>

section \<open>Well-formed trees\<close>

definition tree_wf :: "Sedimentree \<Rightarrow> bool" where
  "tree_wf t \<longleftrightarrow>
     om_inv (fragments t) \<and> om_inv (commits t) \<and>
     (\<forall>(i, f) \<in> set (fragments t). i = fr_head f) \<and>
     (\<forall>(i, c) \<in> set (commits t). i = lc_head c)"

definition tree_fragments :: "Sedimentree \<Rightarrow> Fragment set" where
  "tree_fragments t = set (om_values (fragments t))"

definition tree_commits :: "Sedimentree \<Rightarrow> LooseCommit set" where
  "tree_commits t = set (om_values (commits t))"

definition empty_tree :: Sedimentree where
  "empty_tree = \<lparr>fragments = [], commits = []\<rparr>"

lemma tree_wf_empty [simp]: "tree_wf empty_tree"
  by (simp add: tree_wf_def empty_tree_def)


section \<open>Maps that hold the winner of every identity\<close>

definition is_best :: "('v \<Rightarrow> Digest) \<Rightarrow> ('v \<Rightarrow> 'k) \<Rightarrow> 'v set \<Rightarrow> 'k \<Rightarrow> 'v \<Rightarrow> bool" where
  "is_best H key S k v \<longleftrightarrow> v \<in> S \<and> key v = k \<and> (\<forall>w \<in> S. key w = k \<longrightarrow> H v \<le> H w)"

definition best_of :: "('v \<Rightarrow> Digest) \<Rightarrow> ('v \<Rightarrow> 'k::linorder) \<Rightarrow> 'v set \<Rightarrow> ('k, 'v) omap \<Rightarrow> bool" where
  "best_of H key S m \<longleftrightarrow> om_inv m \<and> finite S \<and> (\<forall>k v. map_of m k = Some v \<longleftrightarrow> is_best H key S k v)"

lemma best_of_unique:
  assumes "best_of H key S m" and "best_of H key S m'"
  shows "m = m'"
proof (rule om_ext)
  have "map_of m k = Some v \<longleftrightarrow> map_of m' k = Some v" for k v
    using assms by (simp add: best_of_def)
  then show "map_of m = map_of m'" by (metis ext option.exhaust)
qed (use assms in \<open>simp_all add: best_of_def\<close>)

lemma is_best_exists:
  assumes "finite S" and "w \<in> S"
  shows "\<exists>v. is_best H key S (key w) v"
proof -
  let ?T = "{v \<in> S. key v = key w}"
  have "finite (H ` ?T)" "H ` ?T \<noteq> {}" using assms by auto
  then obtain v where "v \<in> ?T" "H v = Min (H ` ?T)" by (metis (no_types, lifting) Min_in imageE)
  moreover have "H v \<le> H u" if "u \<in> ?T" for u
    using that \<open>H v = Min (H ` ?T)\<close> \<open>finite (H ` ?T)\<close> by simp
  ultimately show ?thesis by (auto simp: is_best_def)
qed

lemma is_best_insert:
  assumes inj: "inj_on H (insert v S)"
  shows "k \<noteq> key v \<Longrightarrow> is_best H key (insert v S) k u \<longleftrightarrow> is_best H key S k u"
    and "\<forall>w \<in> S. key w \<noteq> key v \<Longrightarrow> is_best H key (insert v S) (key v) u \<longleftrightarrow> u = v"
    and "is_best H key S (key v) e \<Longrightarrow> H v < H e \<Longrightarrow> is_best H key (insert v S) (key v) u \<longleftrightarrow> u = v"
    and "is_best H key S (key v) e \<Longrightarrow> \<not> H v < H e \<Longrightarrow> is_best H key (insert v S) (key v) u \<longleftrightarrow> u = e"
proof -
  show "is_best H key (insert v S) k u \<longleftrightarrow> is_best H key S k u" if "k \<noteq> key v"
    using that by (auto simp: is_best_def)
  show "is_best H key (insert v S) (key v) u \<longleftrightarrow> u = v" if "\<forall>w \<in> S. key w \<noteq> key v"
    using that by (auto simp: is_best_def)
  show "is_best H key (insert v S) (key v) u \<longleftrightarrow> u = v" if e: "is_best H key S (key v) e" and lt: "H v < H e"
  proof
    assume u: "is_best H key (insert v S) (key v) u"
    then have "H u \<le> H v" by (simp add: is_best_def)
    moreover have "H e \<le> H u" if "u \<in> S" using u e that by (simp add: is_best_def)
    ultimately show "u = v" using lt u by (auto simp: is_best_def)
  next
    assume "u = v"
    then show "is_best H key (insert v S) (key v) u"
      using e lt by (auto simp: is_best_def intro: order_trans [OF less_imp_le])
  qed
  show "is_best H key (insert v S) (key v) u \<longleftrightarrow> u = e" if e: "is_best H key S (key v) e" and ge: "\<not> H v < H e"
  proof
    assume u: "is_best H key (insert v S) (key v) u"
    then have "H u \<le> H e" using e by (simp add: is_best_def)
    moreover have "H e \<le> H u" using u e ge by (auto simp: is_best_def)
    ultimately have "H u = H e" by simp
    then show "u = e" using inj u e by (auto simp: is_best_def inj_on_def)
  next
    assume "u = e"
    then show "is_best H key (insert v S) (key v) u"
      using e ge by (auto simp: is_best_def)
  qed
qed

lemma best_of_insert:
  assumes best: "best_of H key S m" and inj: "inj_on H (insert v S)"
  shows "best_of H key (insert v S) (insert_or_tiebreak H m (key v) v)"
proof -
  let ?m = "insert_or_tiebreak H m (key v) v"
  note ins = is_best_insert [OF inj, where key = key]
  have inv: "om_inv m" and fin: "finite S" and iff: "\<And>k v. map_of m k = Some v \<longleftrightarrow> is_best H key S k v"
    using best by (simp_all add: best_of_def)
  have "map_of ?m k = Some u \<longleftrightarrow> is_best H key (insert v S) k u" for k u
  proof (cases "k = key v")
    case False
    then show ?thesis
      using ins(1) iff inv by (auto simp: insert_or_tiebreak_def split: option.splits)
  next
    case k: True
    show ?thesis
    proof (cases "map_of m (key v)")
      case None
      then have "\<forall>w \<in> S. key w \<noteq> key v"
        using is_best_exists [OF fin] iff by (metis option.distinct(1))
      then show ?thesis
        using ins(2) k None inv by (auto simp: insert_or_tiebreak_def)
    next
      case (Some e)
      then have "is_best H key S (key v) e" using iff by simp
      then show ?thesis
        using ins(3) [of e] ins(4) [of e] k Some inv by (auto simp: insert_or_tiebreak_def)
    qed
  qed
  moreover have "om_inv ?m"
    using inv by (auto simp: insert_or_tiebreak_def split: option.splits)
  ultimately show ?thesis using fin by (simp add: best_of_def)
qed

lemma best_of_foldl:
  assumes "best_of H key S m" and "inj_on H (S \<union> set vs)"
  shows "best_of H key (S \<union> set vs) (foldl (\<lambda>m v. insert_or_tiebreak H m (key v) v) m vs)"
  using assms
proof (induction vs arbitrary: S m)
  case (Cons v vs)
  have "best_of H key (insert v S) (insert_or_tiebreak H m (key v) v)"
    using Cons.prems by (intro best_of_insert) (auto intro: inj_on_subset)
  from Cons.IH [OF this] Cons.prems(2) show ?case by simp
qed simp

lemma best_of_Nil: "best_of H key {} []"
  by (simp add: best_of_def is_best_def)

text \<open>A map of values under their own keys holds the winners of its values.\<close>

lemma best_of_values:
  assumes "om_inv m" and "\<forall>(k, v) \<in> set m. k = key v"
  shows "best_of H key (set (om_values m)) m"
proof -
  have "map_of m k = Some v \<longleftrightarrow> v \<in> set (om_values m) \<and> key v = k" for k v
    using assms om_inv_distinct [OF assms(1)] by (force simp: om_values_def map_of_eq_Some_iff)
  moreover from this have "v = w" if "v \<in> set (om_values m)" "w \<in> set (om_values m)" "key w = key v" for v w
    using that by (metis option.inject)
  ultimately show ?thesis
    using assms(1) by (auto simp: best_of_def is_best_def)
qed


text \<open>Merging in the winners of \<open>T\<close> is as good as merging in all of \<open>T\<close>.\<close>

lemma best_of_union:
  assumes m: "best_of H key S m" and t: "best_of H key T t" and inj: "inj_on H (S \<union> T)"
    and keys: "\<forall>(k, v) \<in> set t. k = key v"
  shows "best_of H key (S \<union> T) (foldl (\<lambda>m (k, v). insert_or_tiebreak H m k v) m t)"
proof -
  let ?V = "set (om_values t)"
  have V: "v \<in> ?V \<longleftrightarrow> is_best H key T (key v) v" for v
    using t keys om_inv_distinct [of t] by (force simp: best_of_def om_values_def map_of_eq_Some_iff)
  then have sub: "?V \<subseteq> T" by (auto simp: is_best_def)
  have "foldl (\<lambda>m (k, v). insert_or_tiebreak H m k v) m t
      = foldl (\<lambda>m v. insert_or_tiebreak H m (key v) v) m (om_values t)"
    using keys by (induction t arbitrary: m) (auto simp: om_values_def)
  moreover have "best_of H key (S \<union> ?V) (foldl (\<lambda>m v. insert_or_tiebreak H m (key v) v) m (om_values t))"
    using m inj sub by (intro best_of_foldl) (auto intro: inj_on_subset)
  moreover have "is_best H key (S \<union> ?V) k u \<longleftrightarrow> is_best H key (S \<union> T) k u" for k u
  proof -
    have win: "\<exists>v \<in> ?V. key v = key w \<and> H v \<le> H w" if "w \<in> T" for w
      using is_best_exists [of T w H key] t that V unfolding best_of_def is_best_def by metis
    show ?thesis
    proof
      assume u: "is_best H key (S \<union> ?V) k u"
      have "H u \<le> H w" if w: "w \<in> T" "key w = k" for w
      proof -
        obtain v where "v \<in> ?V" "key v = k" "H v \<le> H w" using win [OF w(1)] w(2) by auto
        moreover from this u have "H u \<le> H v" by (simp add: is_best_def)
        ultimately show ?thesis by simp
      qed
      with u sub show "is_best H key (S \<union> T) k u" by (auto simp: is_best_def)
    next
      assume u: "is_best H key (S \<union> T) k u"
      then have "u \<in> S \<or> u \<in> ?V" by (auto simp: V is_best_def)
      with u sub show "is_best H key (S \<union> ?V) k u" by (auto simp: is_best_def)
    qed
  qed
  ultimately show ?thesis
    using t by (simp add: best_of_def)
qed


section \<open>Trees\<close>

text \<open>Collision freedom of BLAKE3, on the encodings of the values at hand.\<close>

definition digests_distinct :: "Externals \<Rightarrow> Fragment set \<Rightarrow> LooseCommit set \<Rightarrow> bool" where
  "digests_distinct x fs cs \<longleftrightarrow> inj_on (fragment_digest x) fs \<and> inj_on (commit_digest x) cs"

text \<open>The tree holds the winners among the given fragments and commits.\<close>

definition tree_of :: "Externals \<Rightarrow> Fragment set \<Rightarrow> LooseCommit set \<Rightarrow> Sedimentree \<Rightarrow> bool" where
  "tree_of x fs cs t \<longleftrightarrow>
     best_of (fragment_digest x) fr_head fs (fragments t) \<and> best_of (commit_digest x) lc_head cs (commits t)"

lemma tree_of_unique:
  assumes "tree_of x fs cs t" and "tree_of x fs cs t'"
  shows "t = t'"
proof -
  have "fragments t = fragments t'" "commits t = commits t'"
    using assms unfolding tree_of_def by (blast intro: best_of_unique)+
  then show ?thesis by (cases t; cases t') simp
qed

lemma best_of_keys:
  assumes "best_of H key S m"
  shows "\<forall>(k, v) \<in> set m. k = key v"
proof -
  have "map_of m k = Some v" if "(k, v) \<in> set m" for k v
    using that assms by (simp add: best_of_def om_inv_distinct map_of_is_SomeI)
  then show ?thesis using assms by (fastforce simp: best_of_def is_best_def)
qed

lemma tree_of_wf: "tree_of x fs cs t \<Longrightarrow> tree_wf t"
  using best_of_keys [of "fragment_digest x" fr_head fs "fragments t"]
    best_of_keys [of "commit_digest x" lc_head cs "commits t"]
  by (simp add: tree_of_def tree_wf_def best_of_def)

lemma tree_wf_tree_of: "tree_wf t \<Longrightarrow> tree_of x (tree_fragments t) (tree_commits t) t"
  using best_of_values [of "fragments t" fr_head] best_of_values [of "commits t" lc_head]
  by (simp add: tree_of_def tree_wf_def tree_fragments_def tree_commits_def)

lemma tree_of_new:
  assumes "digests_distinct x (set fs) (set cs)"
  shows "tree_of x (set fs) (set cs) (sedimentree_new x fs cs)"
  using assms best_of_foldl [OF best_of_Nil, of "fragment_digest x" fs fr_head]
    best_of_foldl [OF best_of_Nil, of "commit_digest x" cs lc_head]
  by (simp add: tree_of_def sedimentree_new_def digests_distinct_def)

lemma tree_of_merge:
  assumes "tree_of x fs cs t" and "tree_of x fs' cs' t'" and "digests_distinct x (fs \<union> fs') (cs \<union> cs')"
  shows "tree_of x (fs \<union> fs') (cs \<union> cs') (merge x t t')"
  using assms best_of_union [of "fragment_digest x" fr_head fs "fragments t" fs' "fragments t'"]
    best_of_union [of "commit_digest x" lc_head cs "commits t" cs' "commits t'"]
    best_of_keys [of "fragment_digest x" fr_head fs' "fragments t'"]
    best_of_keys [of "commit_digest x" lc_head cs' "commits t'"]
  by (simp add: tree_of_def merge_def digests_distinct_def)

lemma add_commit_tiebreak:
  "fst (add_commit x t c) = t\<lparr>commits := insert_or_tiebreak (commit_digest x) (commits t) (lc_head c) c\<rparr>"
  by (cases t) (auto simp: add_commit_def insert_or_tiebreak_def Let_def split: option.splits)

lemma add_fragment_tiebreak:
  "fst (add_fragment x t f) = t\<lparr>fragments := insert_or_tiebreak (fragment_digest x) (fragments t) (fr_head f) f\<rparr>"
  by (cases t) (auto simp: add_fragment_def insert_or_tiebreak_def Let_def split: option.splits)

lemma tree_of_add_commit:
  assumes "tree_of x fs cs t" and "digests_distinct x fs (insert c cs)"
  shows "tree_of x fs (insert c cs) (fst (add_commit x t c))"
  using assms best_of_insert [of "commit_digest x" lc_head cs "commits t" c]
  by (simp add: tree_of_def add_commit_tiebreak digests_distinct_def)

lemma tree_of_add_fragment:
  assumes "tree_of x fs cs t" and "digests_distinct x (insert f fs) cs"
  shows "tree_of x (insert f fs) cs (fst (add_fragment x t f))"
  using assms best_of_insert [of "fragment_digest x" fr_head fs "fragments t" f]
  by (simp add: tree_of_def add_fragment_tiebreak digests_distinct_def)


section \<open>Histories of updates\<close>

datatype TreeOp = OpCommit LooseCommit | OpFragment Fragment | OpMerge Sedimentree

fun apply_op :: "Externals \<Rightarrow> TreeOp \<Rightarrow> Sedimentree \<Rightarrow> Sedimentree" where
  "apply_op x (OpCommit c) t = fst (add_commit x t c)"
| "apply_op x (OpFragment f) t = fst (add_fragment x t f)"
| "apply_op x (OpMerge t') t = merge x t t'"

fun op_fragments :: "TreeOp \<Rightarrow> Fragment set" where
  "op_fragments (OpCommit c) = {}"
| "op_fragments (OpFragment f) = {f}"
| "op_fragments (OpMerge t) = tree_fragments t"

fun op_commits :: "TreeOp \<Rightarrow> LooseCommit set" where
  "op_commits (OpCommit c) = {c}"
| "op_commits (OpFragment f) = {}"
| "op_commits (OpMerge t) = tree_commits t"

definition op_ok :: "TreeOp \<Rightarrow> bool" where
  "op_ok op \<longleftrightarrow> (case op of OpMerge t \<Rightarrow> tree_wf t | _ \<Rightarrow> True)"

definition ops_fragments :: "TreeOp list \<Rightarrow> Fragment set" where
  "ops_fragments ops = \<Union> (op_fragments ` set ops)"

definition ops_commits :: "TreeOp list \<Rightarrow> LooseCommit set" where
  "ops_commits ops = \<Union> (op_commits ` set ops)"

lemma digests_distinct_mono:
  "digests_distinct x fs cs \<Longrightarrow> fs' \<subseteq> fs \<Longrightarrow> cs' \<subseteq> cs \<Longrightarrow> digests_distinct x fs' cs'"
  by (auto simp: digests_distinct_def intro: inj_on_subset)

lemma tree_of_apply_op:
  assumes "tree_of x fs cs t" and "op_ok op" and "digests_distinct x (fs \<union> op_fragments op) (cs \<union> op_commits op)"
  shows "tree_of x (fs \<union> op_fragments op) (cs \<union> op_commits op) (apply_op x op t)"
  using assms tree_of_add_commit [of x fs cs t] tree_of_add_fragment [of x fs cs t]
    tree_of_merge [OF assms(1) tree_wf_tree_of]
  by (cases op) (simp_all add: op_ok_def)

lemma tree_of_ops:
  assumes "tree_of x fs cs t" and "list_all op_ok ops"
    and "digests_distinct x (fs \<union> ops_fragments ops) (cs \<union> ops_commits ops)"
  shows "tree_of x (fs \<union> ops_fragments ops) (cs \<union> ops_commits ops) (foldl (\<lambda>t op. apply_op x op t) t ops)"
  using assms
proof (induction ops arbitrary: fs cs t)
  case (Cons op ops)
  have "tree_of x (fs \<union> op_fragments op) (cs \<union> op_commits op) (apply_op x op t)"
    using Cons.prems by (intro tree_of_apply_op)
      (auto simp: ops_fragments_def ops_commits_def elim!: digests_distinct_mono)
  from Cons.IH [OF this] Cons.prems show ?case
    by (simp add: ops_fragments_def ops_commits_def Un_assoc)
qed (simp add: ops_fragments_def ops_commits_def)

lemma tree_of_empty: "tree_of x {} {} empty_tree"
  by (simp add: tree_of_def empty_tree_def best_of_Nil)

end
