(* ===== verification/Sedimentree_Minimize.thy ===== *)
theory Sedimentree_Minimize
  imports Sedimentree_Merge
begin

text \<open>
  Minimisation: which fragments and loose commits survive, that the two implementations
  agree, that nothing is dropped without a kept fragment that covers it, and that minimising
  twice is minimising once.
\<close>

section \<open>Grouping by depth\<close>

lemma om_push_lookup:
  "om_inv m \<Longrightarrow> map_of (om_push k v m) = (map_of m)(k \<mapsto> (case map_of m k of None \<Rightarrow> [] | Some vs \<Rightarrow> vs) @ [v])"
  by (simp add: om_push_def)

lemma om_inv_push [simp]: "om_inv m \<Longrightarrow> om_inv (om_push k v m)"
  by (simp add: om_push_def)

text \<open>\<open>m\<close> groups the values of \<open>S\<close> by \<open>g\<close>.\<close>

definition groups :: "('v \<Rightarrow> 'k::linorder) \<Rightarrow> 'v set \<Rightarrow> ('k, 'v list) omap \<Rightarrow> bool" where
  "groups g S m \<longleftrightarrow>
     om_inv m \<and> (\<forall>k vs. map_of m k = Some vs \<longrightarrow> vs \<noteq> [] \<and> set vs = {v \<in> S. g v = k}) \<and>
     (\<forall>v \<in> S. map_of m (g v) \<noteq> None)"

lemma groups_Nil: "groups g {} []"
  by (simp add: groups_def)

lemma groups_push:
  assumes "groups g S m"
  shows "groups g (insert v S) (om_push (g v) v m)"
proof -
  have inv: "om_inv m" using assms by (simp add: groups_def)
  have old: "vs \<noteq> []" "set vs = {v \<in> S. g v = k}" if "map_of m k = Some vs" for k vs
    using assms that by (simp_all add: groups_def)
  have none: "{w \<in> S. g w = g v} = {}" if "map_of m (g v) = None"
  proof -
    have "g w \<noteq> g v" if "w \<in> S" for w
      using assms that \<open>map_of m (g v) = None\<close> unfolding groups_def by metis
    then show ?thesis by blast
  qed
  have lookup: "map_of (om_push (g v) v m) k = (if k = g v
      then Some ((case map_of m k of None \<Rightarrow> [] | Some vs \<Rightarrow> vs) @ [v]) else map_of m k)" for k
    using inv by (simp add: om_push_lookup)
  have "vs \<noteq> [] \<and> set vs = {w \<in> insert v S. g w = k}" if vs: "map_of (om_push (g v) v m) k = Some vs" for k vs
  proof (cases "k = g v")
    case True
    then have vs': "vs = (case map_of m (g v) of None \<Rightarrow> [] | Some vs \<Rightarrow> vs) @ [v]"
      using vs lookup [of k] by simp
    have "{w \<in> insert v S. g w = g v} = insert v {w \<in> S. g w = g v}" by blast
    then show ?thesis
      using True vs' none old(2) [of "g v"] by (cases "map_of m (g v)") simp_all
  next
    case False
    then have "map_of m k = Some vs" using vs lookup [of k] by simp
    moreover have "{w \<in> insert v S. g w = k} = {w \<in> S. g w = k}" using False by blast
    ultimately show ?thesis using old [of k vs] by simp
  qed
  moreover have "map_of (om_push (g v) v m) (g w) \<noteq> None" if "w \<in> insert v S" for w
    using that assms lookup [of "g w"] unfolding groups_def by (cases "g w = g v") auto
  ultimately show ?thesis using inv by (simp add: groups_def)
qed

lemma groups_foldl:
  "groups g S m \<Longrightarrow> groups g (S \<union> set vs) (foldl (\<lambda>b v. om_push (g v) v b) m vs)"
proof (induction vs arbitrary: S m)
  case (Cons v vs)
  from Cons.IH [OF groups_push [OF Cons.prems, of v]] show ?case by simp
qed simp


section \<open>The fragments that survive\<close>

definition keep_ok :: "DepthMetric \<Rightarrow> keep_state \<Rightarrow> bool" where
  "keep_ok m = (\<lambda>(mins, kept). groups (\<lambda>f. fragment_depth f m) (set mins) kept)"

lemma dominated_iff:
  assumes "keep_ok m (mins, kept)"
  shows "dominated_by_deeper m kept d f
    \<longleftrightarrow> (\<exists>g \<in> set mins. d < fragment_depth g m \<and> supports g (fr_summary f) m)"
proof -
  have inv: "om_inv kept" using assms by (simp add: keep_ok_def groups_def)
  have mem: "(k, vs) \<in> set kept \<Longrightarrow> set vs = {v \<in> set mins. fragment_depth v m = k}" for k vs
    using assms om_inv_distinct [OF inv] by (auto simp: keep_ok_def groups_def map_of_eq_Some_iff)
  have ex: "\<exists>vs. (fragment_depth g m, vs) \<in> set kept" if "g \<in> set mins" for g
    using assms that by (fastforce simp: keep_ok_def groups_def dest: map_of_SomeD)
  show ?thesis
  proof
    assume "dominated_by_deeper m kept d f"
    then obtain k vs g where "(k, vs) \<in> set kept" "d < k" "g \<in> set vs" "supports g (fr_summary f) m"
      by (auto simp: dominated_by_deeper_def list_ex_iff)
    with mem show "\<exists>g \<in> set mins. d < fragment_depth g m \<and> supports g (fr_summary f) m" by auto
  next
    assume "\<exists>g \<in> set mins. d < fragment_depth g m \<and> supports g (fr_summary f) m"
    then obtain g vs where g: "g \<in> set mins" "d < fragment_depth g m" "supports g (fr_summary f) m"
      "(fragment_depth g m, vs) \<in> set kept" using ex by blast
    with mem [OF g(4)] show "dominated_by_deeper m kept d f"
      by (auto simp: dominated_by_deeper_def list_ex_iff intro!: bexI [OF _ g(4)])
  qed
qed

text \<open>A fragment of \<open>K\<close> that is strictly deeper than \<open>d\<close> and supports \<open>f\<close>.\<close>

definition supported :: "DepthMetric \<Rightarrow> Fragment set \<Rightarrow> Depth \<Rightarrow> Fragment \<Rightarrow> bool" where
  "supported m K d f \<longleftrightarrow> (\<exists>g \<in> K. d < fragment_depth g m \<and> supports g (fr_summary f) m)"

lemma supported_Un: "supported m (K \<union> L) d f \<longleftrightarrow> supported m K d f \<or> supported m L d f"
  by (auto simp: supported_def)

lemma supported_shallow: "\<forall>g \<in> L. fragment_depth g m \<le> d \<Longrightarrow> supported m (K \<union> L) d f \<longleftrightarrow> supported m K d f"
  by (auto simp: supported_def)

lemma keep_group_step:
  assumes "keep_ok m (mins, kept)" and "\<forall>f \<in> set fs. fragment_depth f m = d"
  shows "\<exists>mins' kept'. keep_group m d fs (mins, kept) = (mins', kept') \<and> keep_ok m (mins', kept')
    \<and> set mins' = set mins \<union> {f \<in> set fs. \<not> supported m (set mins) d f}"
  using assms
proof (induction fs arbitrary: mins kept)
  case (Cons f fs)
  have dom: "dominated_by_deeper m kept d f \<longleftrightarrow> supported m (set mins) d f"
    using dominated_iff [OF Cons.prems(1)] by (simp add: supported_def)
  show ?case
  proof (cases "dominated_by_deeper m kept d f")
    case True
    moreover have "{h \<in> set (f # fs). \<not> supported m (set mins) d h} = {h \<in> set fs. \<not> supported m (set mins) d h}"
      using True dom by auto
    ultimately show ?thesis
      using Cons.IH [OF Cons.prems(1)] Cons.prems(2) by simp
  next
    case False
    have "keep_ok m (mins @ [f], om_push d f kept)"
      using Cons.prems groups_push [of "\<lambda>f. fragment_depth f m" "set mins" kept f] by (simp add: keep_ok_def)
    from Cons.IH [OF this] Cons.prems(2) obtain mins' kept' where IH:
      "keep_group m d fs (mins @ [f], om_push d f kept) = (mins', kept')" "keep_ok m (mins', kept')"
      "set mins' = set (mins @ [f]) \<union> {h \<in> set fs. \<not> supported m (set (mins @ [f])) d h}"
      by auto
    have "supported m (set (mins @ [f])) d h \<longleftrightarrow> supported m (set mins) d h" for h
      using supported_shallow [of "{f}" m d "set mins" h] Cons.prems(2) by simp
    then have "set mins' = set mins \<union> {h \<in> set (f # fs). \<not> supported m (set mins) d h}"
      using IH(3) False dom by auto
    with IH(1,2) False show ?thesis by simp
  qed
qed simp


lemma map_of_om_remove: "map_of (om_remove k m) k' = (if k' = k then None else map_of m k')"
  by (induction m) (auto simp: om_remove_def)

lemma keep_depths_spec:
  assumes "\<And>d. d \<in> set ds \<Longrightarrow> \<exists>grp. map_of by_depth d = Some grp \<and> set grp = {f \<in> S. fragment_depth f m = d}"
    and "sorted_wrt (>) ds" and "keep_ok m (mins, kept)"
  shows "\<exists>mins' kept'. keep_depths m ds by_depth (mins, kept) = (mins', kept') \<and> set mins' =
    set mins \<union> {f \<in> S. fragment_depth f m \<in> set ds \<and> \<not> supported m (set mins') (fragment_depth f m) f}"
  using assms
proof (induction ds arbitrary: by_depth mins kept)
  case (Cons d ds)
  obtain grp where grp: "map_of by_depth d = Some grp" "set grp = {f \<in> S. fragment_depth f m = d}"
    using Cons.prems(1) [of d] by auto
  obtain mins1 kept1 where one: "keep_group m d grp (mins, kept) = (mins1, kept1)" "keep_ok m (mins1, kept1)"
    "set mins1 = set mins \<union> {f \<in> set grp. \<not> supported m (set mins) d f}"
    using keep_group_step [OF Cons.prems(3), of grp d] grp(2) by auto
  have "\<exists>grp. map_of (om_remove d by_depth) d' = Some grp \<and> set grp = {f \<in> S. fragment_depth f m = d'}"
    if "d' \<in> set ds" for d'
    using Cons.prems(1) [of d'] Cons.prems(2) that by (auto simp: map_of_om_remove)
  from Cons.IH [OF this _ one(2)] Cons.prems(2) obtain mins' kept' where
    two: "keep_depths m ds (om_remove d by_depth) (mins1, kept1) = (mins', kept')"
    "set mins' = set mins1 \<union> {f \<in> S. fragment_depth f m \<in> set ds \<and> \<not> supported m (set mins') (fragment_depth f m) f}"
    by auto
  define L where "L = {f \<in> set grp. \<not> supported m (set mins) d f}
    \<union> {f \<in> S. fragment_depth f m \<in> set ds \<and> \<not> supported m (set mins') (fragment_depth f m) f}"
  have mins': "set mins' = set mins \<union> L"
    using two(2) one(3) unfolding L_def by blast
  have "\<forall>g \<in> L. fragment_depth g m \<le> d"
    using Cons.prems(2) grp(2) by (auto simp: L_def)
  then have "supported m (set mins') d f \<longleftrightarrow> supported m (set mins) d f" for f
    unfolding mins' by (rule supported_shallow)
  then have "L = {f \<in> S. fragment_depth f m \<in> set (d # ds) \<and> \<not> supported m (set mins') (fragment_depth f m) f}"
    using grp(2) unfolding L_def by auto
  with mins' grp(1) one(1) two(1) show ?case by simp
qed simp

text \<open>
  A fragment survives exactly when no surviving strictly deeper fragment supports it.
\<close>

lemma minimized_fragments_spec:
  "set (minimized_fragments m t) =
    {f \<in> tree_fragments t. \<not> supported m (set (minimized_fragments m t)) (fragment_depth f m) f}"
proof -
  let ?S = "tree_fragments t"
  let ?sorted = "sort_key (\<lambda>f. commit_id_bytes (fr_head f)) (om_values (fragments t))"
  let ?by = "foldl (\<lambda>b f. om_push (fragment_depth f m) f b) [] ?sorted"
  have g: "groups (\<lambda>f. fragment_depth f m) ?S ?by"
    using groups_foldl [OF groups_Nil, of "\<lambda>f. fragment_depth f m" ?sorted] by (simp add: tree_fragments_def)
  then have inv: "om_inv ?by" by (simp add: groups_def)
  let ?ds = "rev (sort (om_keys ?by))"
  have set_ds: "d \<in> set ?ds \<longleftrightarrow> map_of ?by d \<noteq> None" for d
    by (simp add: om_keys_def map_of_eq_None_iff)
  have 1: "\<exists>grp. map_of ?by d = Some grp \<and> set grp = {f \<in> ?S. fragment_depth f m = d}" if "d \<in> set ?ds" for d
    using that g unfolding set_ds groups_def by auto
  have 2: "sorted_wrt (>) ?ds"
    using inv by (simp add: om_inv_def om_keys_def sorted_wrt_rev strict_sorted_iff)
  have 3: "keep_ok m ([], [])" by (simp add: keep_ok_def groups_Nil)
  have "fragment_depth f m \<in> set ?ds" if "f \<in> ?S" for f
    using g that unfolding set_ds groups_def by blast
  moreover obtain mins' kept' where "keep_depths m ?ds ?by ([], []) = (mins', kept')" "set mins' =
      {f \<in> ?S. fragment_depth f m \<in> set ?ds \<and> \<not> supported m (set mins') (fragment_depth f m) f}"
    using keep_depths_spec [OF 1 2 3] by auto
  ultimately show ?thesis
    by (auto simp: minimized_fragments_def Let_def)
qed


section \<open>The two implementations agree\<close>

text \<open>Inserting values of distinct keys never reaches the tiebreak.\<close>

lemma om_inv_foldl_tiebreak:
  "om_inv m \<Longrightarrow> om_inv (foldl (\<lambda>m v. insert_or_tiebreak H m (key v) v) m vs)"
  by (induction vs arbitrary: m) (auto simp: insert_or_tiebreak_def split: option.splits)

lemma foldl_tiebreak_distinct:
  assumes "om_inv m" and "distinct (map key vs)" and "\<forall>v \<in> set vs. map_of m (key v) = None"
  shows "map_of (foldl (\<lambda>m v. insert_or_tiebreak H m (key v) v) m vs) k = Some u
      \<longleftrightarrow> map_of m k = Some u \<or> u \<in> set vs \<and> key u = k"
  using assms
proof (induction vs arbitrary: m)
  case (Cons v vs)
  have ins: "insert_or_tiebreak H m (key v) v = om_insert (key v) v m"
    using Cons.prems(3) by (simp add: insert_or_tiebreak_def)
  have "\<forall>w \<in> set vs. map_of (om_insert (key v) v m) (key w) = None"
    using Cons.prems by (auto simp: image_iff)
  from Cons.IH [OF om_inv_insert [OF Cons.prems(1)] _ this] Cons.prems show ?case
    by (auto simp: ins)
qed simp

lemma tree_wf_distinct:
  assumes "tree_wf t"
  shows "distinct (map fr_head (om_values (fragments t)))" and "distinct (map lc_head (om_values (commits t)))"
proof -
  have "map fr_head (om_values (fragments t)) = map fst (fragments t)"
    and "map lc_head (om_values (commits t)) = map fst (commits t)"
    using assms by (auto simp: tree_wf_def om_values_def)
  then show "distinct (map fr_head (om_values (fragments t)))" and "distinct (map lc_head (om_values (commits t)))"
    using assms by (simp_all add: tree_wf_def om_inv_distinct)
qed

lemma retain_eq_new:
  assumes inv: "om_inv m" and keys: "\<forall>(k, v) \<in> set m. k = key v"
  shows "foldl (\<lambda>m v. insert_or_tiebreak H m (key v) v) [] (filter (\<lambda>v. key v \<in> A) (om_values m))
    = om_retain (\<lambda>k _. k \<in> A) m"
proof -
  let ?vs = "filter (\<lambda>v. key v \<in> A) (om_values m)"
  have "map key (om_values m) = map fst m" using keys by (auto simp: om_values_def)
  then have "distinct (map key (om_values m))" using om_inv_distinct [OF inv] by simp
  then have dist: "distinct (map key ?vs)" by (rule distinct_map_filter)
  have f: "map_of (foldl (\<lambda>m v. insert_or_tiebreak H m (key v) v) [] ?vs) k = Some u \<longleftrightarrow> u \<in> set ?vs \<and> key u = k" for k u
    using foldl_tiebreak_distinct [OF om_inv_Nil dist, of H k u] by simp
  have mem: "map_of m k = Some u \<longleftrightarrow> u \<in> set (om_values m) \<and> key u = k" for k u
    using keys om_inv_distinct [OF inv] by (force simp: om_values_def map_of_eq_Some_iff)
  show ?thesis
  proof (rule om_ext)
    have "map_of (om_retain (\<lambda>k _. k \<in> A) m) k = Some u \<longleftrightarrow> map_of m k = Some u \<and> k \<in> A" for k u
      unfolding map_of_om_retain [OF inv] by (simp split: option.splits)
    then have "map_of (foldl (\<lambda>m v. insert_or_tiebreak H m (key v) v) [] ?vs) k = Some u
        \<longleftrightarrow> map_of (om_retain (\<lambda>k _. k \<in> A) m) k = Some u" for k u
      unfolding f mem by auto
    then show "map_of (foldl (\<lambda>m v. insert_or_tiebreak H m (key v) v) [] ?vs) = map_of (om_retain (\<lambda>k _. k \<in> A) m)"
      by (rule map_eqI)
  qed (use inv in \<open>simp_all add: om_inv_foldl_tiebreak\<close>)
qed


text \<open>Minimisation returns a tree, the same in both forms, and we know its contents.\<close>

definition minimal_commits :: "DepthMetric \<Rightarrow> Sedimentree \<Rightarrow> LooseCommit set" where
  "minimal_commits m t =
     {c \<in> tree_commits t. kept_commit (minimized_fragments m t) m (om_values (commits t)) c}"

lemma om_values_retain:
  assumes "\<forall>(k, v) \<in> set m. k = key v"
  shows "set (om_values (om_retain (\<lambda>k _. k \<in> A) m)) = {v \<in> set (om_values m). key v \<in> A}"
  using assms by (induction m) (auto simp: om_values_def om_retain_def)

lemma retain_keys:
  "\<forall>(k, v) \<in> set m. k = key v \<Longrightarrow> \<forall>(k, v) \<in> set (om_retain P m). k = key v"
  by (auto simp: om_retain_def)

lemma keep_sets_total:
  assumes "tree_wf t"
  shows "\<exists>ks. keep_sets m t = Some ks \<and> fragment_heads ks = fr_head ` set (minimized_fragments m t)
    \<and> (\<forall>c \<in> tree_commits t. lc_head c \<in> commit_heads ks \<longleftrightarrow> c \<in> minimal_commits m t)"
  using simplify_spec [OF tree_wf_distinct(2) [OF assms], of "minimized_fragments m t" m]
  by (auto simp: keep_sets_def Let_def tree_commits_def minimal_commits_def)

lemma minimize_in_place_spec:
  assumes "tree_wf t"
  shows "\<exists>t'. minimize_in_place m t = Some t' \<and> tree_wf t'
    \<and> tree_fragments t' = set (minimized_fragments m t) \<and> tree_commits t' = minimal_commits m t"
proof -
  obtain ks where ks: "keep_sets m t = Some ks" "fragment_heads ks = fr_head ` set (minimized_fragments m t)"
    and ck: "\<forall>c \<in> tree_commits t. lc_head c \<in> commit_heads ks \<longleftrightarrow> c \<in> minimal_commits m t"
    using keep_sets_total [OF assms, of m] by (elim exE conjE)
  have sub: "set (minimized_fragments m t) \<subseteq> tree_fragments t"
    using minimized_fragments_spec [of m t] by blast
  have wf: "om_inv (fragments t)" "om_inv (commits t)" and
    keys: "\<forall>(i, f) \<in> set (fragments t). i = fr_head f" "\<forall>(i, c) \<in> set (commits t). i = lc_head c"
    using assms by (simp_all add: tree_wf_def)
  have inj: "inj_on fr_head (tree_fragments t)"
    using tree_wf_distinct(1) [OF assms] by (simp add: distinct_map tree_fragments_def)
  have "{f \<in> tree_fragments t. fr_head f \<in> fr_head ` set (minimized_fragments m t)} = set (minimized_fragments m t)"
  proof (intro set_eqI iffI)
    fix f assume "f \<in> {f \<in> tree_fragments t. fr_head f \<in> fr_head ` set (minimized_fragments m t)}"
    then show "f \<in> set (minimized_fragments m t)"
      using sub inj_on_image_mem_iff [OF inj, of f "set (minimized_fragments m t)"] by simp
  qed (use sub in auto)
  moreover have "{c \<in> tree_commits t. lc_head c \<in> commit_heads ks} = minimal_commits m t"
  proof -
    have "minimal_commits m t \<subseteq> tree_commits t" by (auto simp: minimal_commits_def)
    with ck show ?thesis by blast
  qed
  moreover define t' where "t' = t\<lparr>fragments := om_retain (\<lambda>h _. h \<in> fragment_heads ks) (fragments t),
    commits := om_retain (\<lambda>h _. h \<in> commit_heads ks) (commits t)\<rparr>"
  ultimately have "tree_fragments t' = set (minimized_fragments m t)" "tree_commits t' = minimal_commits m t"
    using om_values_retain [OF keys(1)] om_values_retain [OF keys(2)] ks(2)
    by (simp_all add: tree_fragments_def tree_commits_def)
  moreover have "tree_wf t'"
    using wf retain_keys [OF keys(1)] retain_keys [OF keys(2)] by (simp add: tree_wf_def t'_def)
  moreover have "minimize_in_place m t = Some t'"
    using ks(1) by (simp add: minimize_in_place_def t'_def)
  ultimately show ?thesis by blast
qed

lemma minimize_eq_in_place:
  assumes "tree_wf t"
  shows "minimize x m t = minimize_in_place m t"
proof -
  have "sedimentree_new x (filter (\<lambda>f. fr_head f \<in> A) (om_values (fragments t)))
      (filter (\<lambda>c. lc_head c \<in> B) (om_values (commits t)))
    = t\<lparr>fragments := om_retain (\<lambda>h _. h \<in> A) (fragments t), commits := om_retain (\<lambda>h _. h \<in> B) (commits t)\<rparr>" for A B
    using assms retain_eq_new [of "fragments t" fr_head] retain_eq_new [of "commits t" lc_head]
    by (cases t) (simp add: sedimentree_new_def tree_wf_def)
  then show ?thesis by (simp add: minimize_def minimize_in_place_def)
qed


section \<open>Nothing is lost, and once is enough\<close>

lemma minimized_fragments_minimal:
  assumes "tree_fragments t' = set (minimized_fragments m t)"
  shows "set (minimized_fragments m t') = set (minimized_fragments m t)"
proof -
  let ?K = "set (minimized_fragments m t)" and ?K' = "set (minimized_fragments m t')"
  have K': "?K' = {f \<in> ?K. \<not> supported m ?K' (fragment_depth f m) f}"
    using minimized_fragments_spec [of m t'] assms by simp
  have "\<not> supported m ?K' (fragment_depth f m) f" if "f \<in> ?K" for f
  proof -
    have "\<not> supported m ?K (fragment_depth f m) f" using that minimized_fragments_spec [of m t] by blast
    moreover have "?K' \<subseteq> ?K" using K' by blast
    ultimately show ?thesis by (auto simp: supported_def)
  qed
  with K' show ?thesis by blast
qed

lemma acyclic_commits_mono: "acyclic_commits cs \<Longrightarrow> set ds \<subseteq> set cs \<Longrightarrow> acyclic_commits ds"
  unfolding acyclic_commits_def by (erule acyclic_subset) (auto simp: parent_link_def)

lemma in_range_boundary:
  "in_range m cs c r \<Longrightarrow> is_boundary (m (lc_head c)) \<Longrightarrow> r = Some (lc_head c)"
  by (cases rule: in_range.cases) (auto simp: enter_range_def)

text \<open>A parent link that stays in the range: its lower end is not a boundary commit.\<close>

definition range_link :: "DepthMetric \<Rightarrow> LooseCommit list \<Rightarrow> LooseCommit \<Rightarrow> LooseCommit \<Rightarrow> bool" where
  "range_link m cs d c \<longleftrightarrow> parent_link cs d c \<and> \<not> is_boundary (m (lc_head c))"

lemma in_range_path:
  assumes "in_range m cs c r"
  shows "case r of
      None \<Rightarrow> \<exists>e. is_tip cs e \<and> \<not> is_boundary (m (lc_head e)) \<and> (range_link m cs)\<^sup>*\<^sup>* e c
    | Some h \<Rightarrow> \<exists>d \<in> set cs. lc_head d = h \<and> is_boundary (m h) \<and> (range_link m cs)\<^sup>*\<^sup>* d c"
  using assms
proof induction
  case (tip c)
  then show ?case by (auto simp: enter_range_def is_tip_def)
next
  case (parent c r p)
  show ?case
  proof (cases "is_boundary (m (lc_head p))")
    case True
    with parent(2) show ?thesis by (auto simp: enter_range_def)
  next
    case False
    then have "range_link m cs c p"
      using parent(1-3) in_range_mem by (auto simp: range_link_def parent_link_def)
    with False parent.IH show ?thesis
      by (auto simp: enter_range_def split: option.splits intro: rtranclp.rtrancl_into_rtrancl)
  qed
qed

lemma in_range_extend: "(range_link m cs)\<^sup>*\<^sup>* d c \<Longrightarrow> in_range m cs d r \<Longrightarrow> in_range m cs c r"
proof (induction rule: rtranclp_induct)
  case (step b c)
  then have "in_range m cs b r" "c \<in> set cs" "lc_head c \<in> set (lc_parents b)" "\<not> is_boundary (m (lc_head c))"
    by (auto simp: range_link_def parent_link_def)
  from in_range.parent [OF this(1-3)] this(4) show ?case by (simp add: enter_range_def)
qed

text \<open>In an acyclic history the ranges of a commit are headed by the nearest boundary commits above it.\<close>

lemma in_range_nearest:
  assumes "acyclic_commits cs"
  shows "in_range m cs c r \<longleftrightarrow> (case r of
      None \<Rightarrow> \<exists>e. is_tip cs e \<and> \<not> is_boundary (m (lc_head e)) \<and> (range_link m cs)\<^sup>*\<^sup>* e c
    | Some h \<Rightarrow> \<exists>d \<in> set cs. lc_head d = h \<and> is_boundary (m h) \<and> (range_link m cs)\<^sup>*\<^sup>* d c)" (is "_ \<longleftrightarrow> ?path")
proof
  assume path: ?path
  show "in_range m cs c r"
  proof (cases r)
    case None
    then obtain e where e: "is_tip cs e" "\<not> is_boundary (m (lc_head e))" "(range_link m cs)\<^sup>*\<^sup>* e c" using path by auto
    have "in_range m cs e None" using in_range.tip [OF e(1), of m] e(2) by (simp add: enter_range_def)
    with e(3) None show ?thesis using in_range_extend by blast
  next
    case (Some h)
    then obtain d where d: "d \<in> set cs" "lc_head d = h" "is_boundary (m h)" "(range_link m cs)\<^sup>*\<^sup>* d c" using path by auto
    obtain r' where "in_range m cs d r'" using acyclic_in_range [OF assms d(1)] by blast
    with in_range_boundary [OF this] d(2,3) have "in_range m cs d (Some h)" by simp
    with d(4) Some show ?thesis using in_range_extend by blast
  qed
qed (rule in_range_path)

text \<open>Commits with an uncovered range keep that range among the commits that survive.\<close>

lemma in_range_survives:
  assumes "in_range m cs c r" and "case r of None \<Rightarrow> True | Some h \<Rightarrow> \<not> range_covered M h"
    and ds: "set ds = {c \<in> set cs. kept_commit M m cs c}" and ac: "acyclic_commits cs"
  shows "in_range m ds c r"
  using assms(1,2)
proof (induction)
  case (tip c)
  have "c \<in> set cs" using tip(1) by (simp add: is_tip_def)
  then have "c \<in> set ds"
    using ds tip(2) in_range.tip [OF tip(1), of m] unfolding kept_commit_def by blast
  then have "is_tip ds c"
    using tip(1) ds by (auto simp: is_tip_def)
  then show ?case by (rule in_range.tip)
next
  case (parent c r p)
  have p: "p \<in> set ds"
    using ds parent(2,5) in_range.parent [OF parent(1-3)] unfolding kept_commit_def by blast
  show ?case
  proof (cases "is_boundary (m (lc_head p))")
    case True
    have "acyclic_commits ds" using ac ds by (auto elim: acyclic_commits_mono)
    then obtain r' where "in_range m ds p r'" using acyclic_in_range [OF _ p] by blast
    with in_range_boundary [OF this True] True show ?thesis by (simp add: enter_range_def)
  next
    case False
    then have "in_range m ds c r" using parent by (simp add: enter_range_def)
    from in_range.parent [OF this p parent(3)] show ?thesis .
  qed
qed

lemma kept_commit_cong:
  assumes "set M = set M'"
  shows "kept_commit M m cs c \<longleftrightarrow> kept_commit M' m cs c"
proof -
  have "range_covered M = range_covered M'" using assms by (auto simp: range_covered_def)
  then show ?thesis unfolding kept_commit_def by (simp only:)
qed

lemma minimal_commits_minimal:
  assumes "acyclic_commits (om_values (commits t))"
    and "tree_fragments t' = set (minimized_fragments m t)" and "tree_commits t' = minimal_commits m t"
  shows "minimal_commits m t' = tree_commits t'"
proof -
  let ?M = "minimized_fragments m t"
  have set': "set (om_values (commits t')) = {c \<in> set (om_values (commits t)). kept_commit ?M m (om_values (commits t)) c}"
    using assms(3) by (simp add: tree_commits_def minimal_commits_def)
  have "kept_commit ?M m (om_values (commits t')) c" if c: "c \<in> tree_commits t'" for c
  proof -
    obtain r where "in_range m (om_values (commits t)) c r" "case r of None \<Rightarrow> True | Some h \<Rightarrow> \<not> range_covered ?M h"
      using c set' by (auto simp: tree_commits_def kept_commit_def)
    with in_range_survives [OF this set' assms(1)] show ?thesis by (auto simp: kept_commit_def)
  qed
  then show ?thesis
    using kept_commit_cong [OF minimized_fragments_minimal [OF assms(2)]] by (auto simp: minimal_commits_def)
qed

lemma tree_wf_eqI:
  assumes "tree_wf t" and "tree_wf t'" and "tree_fragments t = tree_fragments t'" and "tree_commits t = tree_commits t'"
  shows "t = t'"
  using tree_of_unique [OF tree_wf_tree_of [OF assms(1)]] tree_wf_tree_of [OF assms(2)] assms(3,4) by metis

lemma minimize_idem:
  assumes "tree_wf t" and "acyclic_commits (om_values (commits t))" and "minimize_in_place m t = Some t'"
  shows "minimize_in_place m t' = Some t'"
proof -
  have t': "tree_wf t'" "tree_fragments t' = set (minimized_fragments m t)" "tree_commits t' = minimal_commits m t"
    using minimize_in_place_spec [OF assms(1), of m] assms(3) by auto
  obtain t'' where t'': "minimize_in_place m t' = Some t''" "tree_wf t''"
    "tree_fragments t'' = set (minimized_fragments m t')" "tree_commits t'' = minimal_commits m t'"
    using minimize_in_place_spec [OF t'(1), of m] by auto
  have "t'' = t'"
    using t' t'' minimized_fragments_minimal [OF t'(2)] minimal_commits_minimal [OF assms(2) t'(2,3)]
    by (intro tree_wf_eqI) simp_all
  with t''(1) show ?thesis by simp
qed

end
