(* ===== verification/Sedimentree_Diff.thy ===== *)
theory Sedimentree_Diff
  imports Sedimentree_Minimize
begin

text \<open>
  The two diffs of a tree: against another local tree, and against the fingerprint summary
  of a remote one, with the resolver that turns echoed fingerprints back into identities.
\<close>

section \<open>Local diff\<close>

lemma map_of_rev_iff:
  assumes "distinct (map fst kvs)"
  shows "map_of (rev kvs) k = Some v \<longleftrightarrow> (k, v) \<in> set kvs"
proof -
  have "distinct (map fst (rev kvs))" using assms by (simp flip: rev_map)
  from map_of_eq_Some_iff [OF this] show ?thesis by simp
qed

lemma set_map_filter_Some: "set (List.map_filter f xs) = {y. \<exists>x \<in> set xs. f x = Some y}"
  by (induction xs) (auto simp: map_filter_simps split: option.splits)

lemma set_om_values: "om_inv m \<Longrightarrow> v \<in> set (om_values m) \<longleftrightarrow> (\<exists>k. map_of m k = Some v)"
  using om_inv_distinct [of m] by (force simp: om_values_def map_of_eq_Some_iff)

lemma set_only_in:
  assumes "om_inv m1" and "\<forall>(k, v) \<in> set m1. k = key v"
  shows "set (only_in m1 m2) = {v \<in> set (om_values m1). key v \<notin> set (om_keys m2)}"
proof -
  have "k = key v" if "map_of m1 k = Some v" for k v
    using assms(2) map_of_SomeD [OF that] by auto
  moreover have "k \<in> set (om_keys m1)" if "map_of m1 k = Some v" for k v
    using map_of_SomeD [OF that] by (force simp: om_keys_def)
  moreover have "v \<in> set (only_in m1 m2) \<longleftrightarrow>
      (\<exists>k. k \<in> set (om_keys m1) \<and> k \<notin> set (om_keys m2) \<and> map_of m1 k = Some v)" for v
    unfolding only_in_def set_map_filter_Some by auto
  ultimately have "v \<in> set (only_in m1 m2) \<longleftrightarrow> (\<exists>k. map_of m1 k = Some v) \<and> key v \<notin> set (om_keys m2)" for v
    by metis
  then show ?thesis by (auto simp: set_om_values [OF assms(1)])
qed


section \<open>Fingerprint summaries\<close>

definition known_ids :: "Sedimentree \<Rightarrow> CommitId set" where
  "known_ids t = lc_head ` tree_commits t \<union> fr_head ` tree_fragments t \<union> \<Union> ((set \<circ> fr_boundary) ` tree_fragments t)"

abbreviation fp_of :: "Externals \<Rightarrow> FingerprintSeed \<Rightarrow> CommitId \<Rightarrow> Fingerprint" where
  "fp_of x seed \<equiv> fingerprint_new (ex_siphash x) seed"

lemma tree_keys:
  assumes "tree_wf t"
  shows "set (om_keys (fragments t)) = fr_head ` tree_fragments t"
    and "set (om_keys (commits t)) = lc_head ` tree_commits t"
  using assms by (force simp: tree_wf_def om_keys_def om_values_def tree_fragments_def tree_commits_def image_iff)+

lemma tree_keys_distinct:
  "tree_wf t \<Longrightarrow> distinct (om_keys (fragments t))" "tree_wf t \<Longrightarrow> distinct (om_keys (commits t))"
  by (simp_all add: tree_wf_def om_keys_def om_inv_distinct)

lemma tree_entries:
  assumes "tree_wf t"
  shows "set (commits t) = (\<lambda>c. (lc_head c, c)) ` tree_commits t"
    and "set (fragments t) = (\<lambda>f. (fr_head f, f)) ` tree_fragments t"
  using assms by (force simp: tree_wf_def tree_commits_def tree_fragments_def om_values_def image_iff)+

lemma set_coverage_fps:
  "set (coverage_fps x seed t) = fp_of x seed ` (fr_head ` tree_fragments t \<union> \<Union> ((set \<circ> fr_boundary) ` tree_fragments t))"
  by (auto simp: coverage_fps_def tree_fragments_def)

lemma summarize_commit_fps:
  "set (commit_fingerprints (fingerprint_summarize x seed t)) = fp_of x seed ` known_ids t"
  by (auto simp: fingerprint_summarize_def set_coverage_fps known_ids_def tree_commits_def)

lemma summarize_fragment_fps:
  "tree_wf t \<Longrightarrow> set (fragment_fingerprints (fingerprint_summarize x seed t)) = fp_of x seed ` fr_head ` tree_fragments t"
  by (simp add: fingerprint_summarize_def tree_keys)

lemma summarize_seed [simp]: "fp_seed (fingerprint_summarize x seed t) = seed"
  by (simp add: fingerprint_summarize_def)

lemma om_keys_of_list: "om_keys (om_of_list kvs) = os_of_list (map fst kvs)"
proof (rule os_of_list_unique [symmetric])
  show "sorted_wrt (<) (om_keys (om_of_list kvs))"
    using om_inv_of_list [of kvs] by (simp add: om_inv_def om_keys_def)
  have "dom (map_of (om_of_list kvs)) = dom (map_of (rev kvs))" by (simp add: map_of_om_of_list)
  then show "set (om_keys (om_of_list kvs)) = set (map fst kvs)"
    by (simp add: dom_map_of_conv_image_fst om_keys_def)
qed

text \<open>The resolver sends the summary that \<open>fingerprint_summarize\<close> computes.\<close>

lemma resolver_summary:
  assumes "tree_wf t"
  shows "fr_summary_of (fingerprint_resolver x seed t) = fingerprint_summarize x seed t"
proof -
  have "map (\<lambda>c. fp_of x seed (lc_head c)) (om_values (commits t)) = map (\<lambda>(i, c). fp_of x seed (lc_head c)) (commits t)"
    by (simp add: om_values_def case_prod_beta)
  then have "os_of_list (om_keys (om_of_list (map (\<lambda>(i, c). (fp_of x seed (lc_head c), i)) (commits t))) @ cov)
      = os_of_list (map (\<lambda>c. fp_of x seed (lc_head c)) (om_values (commits t)) @ cov)" for cov
    by (intro os_of_list_unique [symmetric]) (simp_all add: om_keys_of_list case_prod_beta' image_image)
  then show ?thesis
    by (simp add: fingerprint_resolver_def fingerprint_summarize_def Let_def om_keys_of_list comp_def)
qed

lemma resolve_commit_iff:
  assumes "tree_wf t" and "inj_on (fp_of x seed) (lc_head ` tree_commits t)"
  shows "resolve_commit (fingerprint_resolver x seed t) fp = Some i
    \<longleftrightarrow> i \<in> lc_head ` tree_commits t \<and> fp = fp_of x seed i"
proof -
  let ?kvs = "map (\<lambda>(i, c). (fp_of x seed (lc_head c), i)) (commits t)"
  have kvs: "?kvs = map (\<lambda>i. (fp_of x seed i, i)) (om_keys (commits t))"
    using assms(1) by (auto simp: tree_wf_def om_keys_def)
  have "distinct (map (fp_of x seed) (om_keys (commits t)))"
    using assms(2) tree_keys_distinct [OF assms(1)] tree_keys(2) [OF assms(1)] by (simp add: distinct_map)
  then have "distinct (map fst ?kvs)" unfolding kvs by (simp add: comp_def)
  then have "map_of (rev ?kvs) fp = Some i \<longleftrightarrow> (fp, i) \<in> set ?kvs"
    by (rule map_of_rev_iff)
  also have "\<dots> \<longleftrightarrow> i \<in> lc_head ` tree_commits t \<and> fp = fp_of x seed i"
    unfolding kvs using tree_keys(2) [OF assms(1)] by auto
  finally show ?thesis
    by (simp add: resolve_commit_def fingerprint_resolver_def Let_def map_of_om_of_list)
qed

lemma resolve_fragment_iff:
  assumes "tree_wf t" and "inj_on (fp_of x seed) (fr_head ` tree_fragments t)"
  shows "resolve_fragment (fingerprint_resolver x seed t) fp = Some i
    \<longleftrightarrow> i \<in> fr_head ` tree_fragments t \<and> fp = fp_of x seed i"
proof -
  let ?kvs = "map (\<lambda>i. (fp_of x seed i, i)) (om_keys (fragments t))"
  have "distinct (map (fp_of x seed) (om_keys (fragments t)))"
    using assms(2) tree_keys_distinct [OF assms(1)] tree_keys(1) [OF assms(1)] by (simp add: distinct_map)
  then have "distinct (map fst ?kvs)" by (simp add: comp_def)
  then have "map_of (rev ?kvs) fp = Some i \<longleftrightarrow> (fp, i) \<in> set ?kvs"
    by (rule map_of_rev_iff)
  then show ?thesis
    using tree_keys(1) [OF assms(1)]
    by (auto simp: resolve_fragment_def fingerprint_resolver_def Let_def map_of_om_of_list)
qed


section \<open>Remote diff\<close>

text \<open>
  What a remote tree covers of the local one: from a local head that heads a remote fragment,
  down the parents of local commits, stopping at commits the remote knows that are not such heads.
\<close>

definition shared_roots :: "Sedimentree \<Rightarrow> Sedimentree \<Rightarrow> CommitId set" where
  "shared_roots t remote =
     (lc_head ` tree_commits t \<union> fr_head ` tree_fragments t) \<inter> fr_head ` tree_fragments remote"

inductive remote_covers :: "Sedimentree \<Rightarrow> Sedimentree \<Rightarrow> CommitId \<Rightarrow> bool" for t :: Sedimentree and remote :: Sedimentree where
  root: "i \<in> shared_roots t remote \<Longrightarrow> remote_covers t remote i"
| parent: "remote_covers t remote (lc_head c) \<Longrightarrow> c \<in> tree_commits t
    \<Longrightarrow> lc_head c \<in> shared_roots t remote \<or> lc_head c \<notin> known_ids remote
    \<Longrightarrow> p \<in> set (lc_parents c) \<Longrightarrow> remote_covers t remote p"

text \<open>The fingerprints of the identities of both trees are distinct.\<close>

definition fps_distinct :: "Externals \<Rightarrow> FingerprintSeed \<Rightarrow> Sedimentree \<Rightarrow> Sedimentree \<Rightarrow> bool" where
  "fps_distinct x seed t remote \<longleftrightarrow> inj_on (fp_of x seed) (known_ids t \<union> known_ids remote)"

lemma fp_mem:
  assumes "fps_distinct x seed t remote" and "i \<in> known_ids t \<union> known_ids remote"
    and "A \<subseteq> known_ids t \<union> known_ids remote"
  shows "fp_of x seed i \<in> fp_of x seed ` A \<longleftrightarrow> i \<in> A"
  using inj_on_image_mem_iff [OF _ assms(2,3)] assms(1) by (simp add: fps_distinct_def)

lemma known_ids_mem:
  "c \<in> tree_commits t \<Longrightarrow> lc_head c \<in> known_ids t" "f \<in> tree_fragments t \<Longrightarrow> fr_head f \<in> known_ids t"
  "f \<in> tree_fragments t \<Longrightarrow> b \<in> set (fr_boundary f) \<Longrightarrow> b \<in> known_ids t"
  by (auto simp: known_ids_def)

lemma set_fragment_roots:
  assumes "tree_wf remote" and "fps_distinct x seed t remote"
  shows "set (fragment_roots x t (fingerprint_summarize x seed remote)) = shared_roots t remote"
proof -
  have "fp_of x seed i \<in> fp_of x seed ` fr_head ` tree_fragments remote \<longleftrightarrow> i \<in> fr_head ` tree_fragments remote"
    if "i \<in> lc_head ` tree_commits t \<union> fr_head ` tree_fragments t" for i
    using that by (intro fp_mem [OF assms(2)]) (auto intro: known_ids_mem)
  then show ?thesis
    unfolding fragment_roots_def shared_roots_def
    by (auto simp: summarize_fragment_fps [OF assms(1)] tree_commits_def tree_fragments_def)
qed

lemma commit_parents_mem:
  assumes "tree_wf t" and "c \<in> tree_commits t"
  shows "commit_parents t (lc_head c) = lc_parents c"
proof -
  have "(lc_head c, c) \<in> set (commits t)"
    using assms(2) by (simp add: tree_entries [OF assms(1)])
  then have "map_of (commits t) (lc_head c) = Some c"
    using assms(1) om_inv_distinct [of "commits t"] by (simp add: tree_wf_def map_of_is_SomeI)
  then show ?thesis by (simp add: commit_parents_def)
qed

lemma covered_by_remote_spec:
  assumes wf: "tree_wf t" "tree_wf remote" and fps: "fps_distinct x seed t remote"
    and roots: "set roots = shared_roots t remote"
  shows "covered_by_remote x t (fingerprint_summarize x seed remote) roots = {i. remote_covers t remote i}"
proof -
  let ?succ = "\<lambda>i. if is_horizon x (fingerprint_summarize x seed remote) roots i then [] else commit_parents t i"
  have horizon: "is_horizon x (fingerprint_summarize x seed remote) roots (lc_head c)
      \<longleftrightarrow> lc_head c \<notin> shared_roots t remote \<and> lc_head c \<in> known_ids remote" if "c \<in> tree_commits t" for c
    using fp_mem [OF fps, of "lc_head c" "known_ids remote"] known_ids_mem(1) [OF that] roots
    by (auto simp: is_horizon_def summarize_commit_fps)
  have edge: "walk_edge (om_keys (commits t)) id ?succ i j \<longleftrightarrow>
      (\<exists>c \<in> tree_commits t. i = lc_head c \<and> j \<in> set (lc_parents c)
         \<and> (lc_head c \<in> shared_roots t remote \<or> lc_head c \<notin> known_ids remote))" for i j
    using horizon commit_parents_mem [OF wf(1)]
    by (auto simp: walk_edge_def tree_keys(2) [OF wf(1)])
  have "remote_covers t remote j" if "(walk_edge (om_keys (commits t)) id ?succ)\<^sup>*\<^sup>* i j" "i \<in> shared_roots t remote" for i j
    using that by induction (auto simp: edge intro: remote_covers.intros)
  moreover have "\<exists>i \<in> shared_roots t remote. (walk_edge (om_keys (commits t)) id ?succ)\<^sup>*\<^sup>* i j" if "remote_covers t remote j" for j
    using that
  proof induction
    case (root i)
    then show ?case by blast
  next
    case (parent c p)
    then obtain i where "i \<in> shared_roots t remote" "(walk_edge (om_keys (commits t)) id ?succ)\<^sup>*\<^sup>* i (lc_head c)" by blast
    moreover have "walk_edge (om_keys (commits t)) id ?succ (lc_head c) p"
      unfolding edge using parent by blast
    ultimately show ?case by (meson rtranclp.rtrancl_into_rtrancl)
  qed
  ultimately show ?thesis
    unfolding covered_by_remote_def walk_reach using roots by auto
qed

lemma remote_covers_root: "remote_covers t remote i \<Longrightarrow> shared_roots t remote \<noteq> {}"
  by (induction rule: remote_covers.induct) auto

text \<open>The four parts of the diff, in terms of the two trees.\<close>

lemma diff_remote_commits:
  assumes wf: "tree_wf t" "tree_wf remote" and fps: "fps_distinct x seed t remote"
  shows "set (local_only_commits (diff_remote_fingerprints x t (fingerprint_summarize x seed remote)))
    = {(lc_head c, c) | c. c \<in> tree_commits t \<and> lc_head c \<notin> known_ids remote \<and> \<not> remote_covers t remote (lc_head c)}"
proof -
  let ?R = "fingerprint_summarize x seed remote"
  have roots: "set (fragment_roots x t ?R) = shared_roots t remote"
    by (rule set_fragment_roots [OF wf(2) fps])
  have cov: "(if fragment_roots x t ?R \<noteq> [] then i \<notin> covered_by_remote x t ?R (fragment_roots x t ?R) else True)
      \<longleftrightarrow> \<not> remote_covers t remote i" for i
    using covered_by_remote_spec [OF wf fps roots] remote_covers_root [of t remote i] roots
    by (cases "fragment_roots x t ?R") auto
  have known: "fp_of x seed (lc_head c) \<in> fp_of x seed ` known_ids remote \<longleftrightarrow> lc_head c \<in> known_ids remote"
    if "c \<in> tree_commits t" for c
    using that by (intro fp_mem [OF fps]) (auto intro: known_ids_mem)
  have "set (local_only_commits (diff_remote_fingerprints x t ?R)) = {(i, c) \<in> set (commits t).
      fp_of x seed (lc_head c) \<notin> fp_of x seed ` known_ids remote \<and> (if fragment_roots x t ?R \<noteq> []
        then i \<notin> covered_by_remote x t ?R (fragment_roots x t ?R) else True)}"
    by (cases "fragment_roots x t ?R")
      (auto simp: diff_remote_fingerprints_def Let_def summarize_commit_fps simp del: image_iff)
  also have "\<dots> = {(i, c) \<in> set (commits t).
      fp_of x seed (lc_head c) \<notin> fp_of x seed ` known_ids remote \<and> \<not> remote_covers t remote i}"
    unfolding cov ..
  also have "\<dots> = {(lc_head c, c) | c. c \<in> tree_commits t \<and> lc_head c \<notin> known_ids remote \<and> \<not> remote_covers t remote (lc_head c)}"
    unfolding tree_entries [OF wf(1)] using known by blast
  finally show ?thesis .
qed

lemma diff_remote_fragments:
  assumes wf: "tree_wf t" "tree_wf remote" and fps: "fps_distinct x seed t remote"
  shows "set (local_only_fragments (diff_remote_fingerprints x t (fingerprint_summarize x seed remote)))
    = {(fr_head f, f) | f. f \<in> tree_fragments t \<and> fr_head f \<notin> fr_head ` tree_fragments remote}"
proof -
  have known: "fp_of x seed (fr_head f) \<in> fp_of x seed ` fr_head ` tree_fragments remote
      \<longleftrightarrow> fr_head f \<in> fr_head ` tree_fragments remote" if "f \<in> tree_fragments t" for f
    using that by (intro fp_mem [OF fps]) (auto intro: known_ids_mem)
  have "set (local_only_fragments (diff_remote_fingerprints x t (fingerprint_summarize x seed remote)))
      = {(i, f) \<in> set (fragments t). fp_of x seed i \<notin> fp_of x seed ` fr_head ` tree_fragments remote}"
    by (simp add: diff_remote_fingerprints_def Let_def summarize_fragment_fps [OF wf(2)] case_prod_beta')
  also have "\<dots> = {(fr_head f, f) | f. f \<in> tree_fragments t \<and> fr_head f \<notin> fr_head ` tree_fragments remote}"
    unfolding tree_entries [OF wf(1)] using known by blast
  finally show ?thesis .
qed

lemma diff_remote_echo:
  assumes wf: "tree_wf t" "tree_wf remote" and fps: "fps_distinct x seed t remote"
  shows "set (remote_only_commit_fingerprints (diff_remote_fingerprints x t (fingerprint_summarize x seed remote)))
      = fp_of x seed ` (known_ids remote - known_ids t)"
    and "set (remote_only_fragment_fingerprints (diff_remote_fingerprints x t (fingerprint_summarize x seed remote)))
      = fp_of x seed ` (fr_head ` tree_fragments remote - fr_head ` tree_fragments t)"
proof -
  have "set (remote_only_commit_fingerprints (diff_remote_fingerprints x t (fingerprint_summarize x seed remote)))
      = fp_of x seed ` known_ids remote - fp_of x seed ` known_ids t"
    by (auto simp: diff_remote_fingerprints_def Let_def summarize_commit_fps set_coverage_fps known_ids_def tree_commits_def)
  also have "\<dots> = fp_of x seed ` (known_ids remote - known_ids t)"
    using fps by (intro inj_on_image_set_diff [symmetric]) (auto simp: fps_distinct_def)
  finally show "set (remote_only_commit_fingerprints (diff_remote_fingerprints x t (fingerprint_summarize x seed remote)))
      = fp_of x seed ` (known_ids remote - known_ids t)" .
  have "set (remote_only_fragment_fingerprints (diff_remote_fingerprints x t (fingerprint_summarize x seed remote)))
      = fp_of x seed ` fr_head ` tree_fragments remote - fp_of x seed ` fr_head ` tree_fragments t"
    by (auto simp: diff_remote_fingerprints_def Let_def summarize_fragment_fps [OF wf(2)] tree_keys [OF wf(1)])
  also have "\<dots> = fp_of x seed ` (fr_head ` tree_fragments remote - fr_head ` tree_fragments t)"
    using fps by (intro inj_on_image_set_diff [symmetric]) (auto simp: fps_distinct_def intro: known_ids_mem)
  finally show "set (remote_only_fragment_fingerprints (diff_remote_fingerprints x t (fingerprint_summarize x seed remote)))
      = fp_of x seed ` (fr_head ` tree_fragments remote - fr_head ` tree_fragments t)" .
qed

end
