(* ===== verification/Sedimentree_Props.thy ===== *)
theory Sedimentree_Props
  imports Payload_Props Sedimentree_Diff
begin

text \<open>
  The properties of the sedimentree, each with a witness on small sample trees.
\<close>

section \<open>Well-formedness is kept\<close>

lemma set_om_insert: "set (om_insert k v m) \<subseteq> insert (k, v) (set m)"
  by (induction k v m rule: om_insert.induct) auto

definition keyed :: "('v \<Rightarrow> 'k::linorder) \<Rightarrow> ('k, 'v) omap \<Rightarrow> bool" where
  "keyed key m \<longleftrightarrow> om_inv m \<and> (\<forall>(k, v) \<in> set m. k = key v)"

lemma keyed_tiebreak: "keyed key m \<Longrightarrow> k = key v \<Longrightarrow> keyed key (insert_or_tiebreak H m k v)"
  using set_om_insert [of k v m] by (auto simp: keyed_def insert_or_tiebreak_def split: option.splits)

lemma keyed_foldl: "keyed key m \<Longrightarrow> keyed key (foldl (\<lambda>m v. insert_or_tiebreak H m (key v) v) m vs)"
  by (induction vs arbitrary: m) (auto intro: keyed_tiebreak)

lemma keyed_Nil [simp]: "keyed key []"
  by (simp add: keyed_def)

lemma keyed_Cons: "keyed key ((k, v) # m) \<Longrightarrow> k = key v \<and> keyed key m"
  by (auto simp: keyed_def om_inv_Cons)

lemma keyed_foldl_pairs:
  "keyed key m \<Longrightarrow> keyed key kvs \<Longrightarrow> keyed key (foldl (\<lambda>m (k, v). insert_or_tiebreak H m k v) m kvs)"
proof (induction kvs arbitrary: m)
  case (Cons kv kvs)
  then show ?case by (cases kv) (auto dest!: keyed_Cons intro: keyed_tiebreak)
qed simp

lemma tree_wf_keyed: "tree_wf t \<longleftrightarrow> keyed fr_head (fragments t) \<and> keyed lc_head (commits t)"
  by (auto simp: tree_wf_def keyed_def)

lemma tree_wf_new: "tree_wf (sedimentree_new x fs cs)"
  by (simp add: tree_wf_keyed sedimentree_new_def keyed_foldl)

lemma tree_wf_apply_op: "tree_wf t \<Longrightarrow> op_ok op \<Longrightarrow> tree_wf (apply_op x op t)"
  by (cases op) (simp_all add: tree_wf_keyed op_ok_def add_commit_tiebreak add_fragment_tiebreak merge_def
      keyed_foldl_pairs keyed_tiebreak)

lemma tree_wf_ops: "tree_wf t \<Longrightarrow> list_all op_ok ops \<Longrightarrow> tree_wf (foldl (\<lambda>t op. apply_op x op t) t ops)"
  by (induction ops arbitrary: t) (auto intro: tree_wf_apply_op)


section \<open>The dirty flag\<close>

definition ms_inv :: "DepthMetric \<Rightarrow> MinimizedSedimentree \<Rightarrow> bool" where
  "ms_inv m s \<longleftrightarrow> tree_wf (ms_tree s) \<and> (\<not> ms_dirty s \<longrightarrow> minimize_in_place m (ms_tree s) = Some (ms_tree s))"

datatype MsOp = MsCommit LooseCommit | MsFragment Fragment | MsMerge Sedimentree

fun apply_ms_op :: "Externals \<Rightarrow> MsOp \<Rightarrow> MinimizedSedimentree \<Rightarrow> MinimizedSedimentree" where
  "apply_ms_op x (MsCommit c) s = fst (ms_add_commit x s c)"
| "apply_ms_op x (MsFragment f) s = fst (ms_add_fragment x s f)"
| "apply_ms_op x (MsMerge t) s = ms_merge x s t"

fun tree_op :: "MsOp \<Rightarrow> TreeOp" where
  "tree_op (MsCommit c) = OpCommit c"
| "tree_op (MsFragment f) = OpFragment f"
| "tree_op (MsMerge t) = OpMerge t"

lemma apply_ms_op_tree: "apply_ms_op x op s = s\<lparr>ms_tree := apply_op x (tree_op op) (ms_tree s), ms_dirty := True\<rparr>"
  by (cases op) (simp_all add: ms_add_commit_def ms_add_fragment_def ms_merge_def case_prod_beta Let_def)

lemma ensure_minimized_spec:
  assumes "ms_inv m s" and "acyclic_commits (om_values (commits (ms_tree s)))"
  shows "\<exists>s'. ensure_minimized m s = Some s' \<and> \<not> ms_dirty s' \<and> ms_inv m s'
    \<and> minimize_in_place m (ms_tree s) = Some (ms_tree s')"
proof (cases "ms_dirty s")
  case True
  obtain t' where t': "minimize_in_place m (ms_tree s) = Some t'" "tree_wf t'"
    using minimize_in_place_spec [of "ms_tree s" m] assms(1) by (auto simp: ms_inv_def)
  then have "minimize_in_place m t' = Some t'"
    using minimize_idem [of "ms_tree s" m t'] assms by (simp add: ms_inv_def)
  with t' True show ?thesis by (simp add: ensure_minimized_def ms_inv_def)
next
  case False
  with assms show ?thesis by (simp add: ensure_minimized_def ms_inv_def)
qed


section \<open>Samples\<close>

text \<open>BLAKE3 is replaced by the identity and SipHash by the first byte, which are injective on the samples.\<close>

definition sample_ext :: Externals where
  "sample_ext = \<lparr>ex_blake3 = id, ex_bijoux = sample_bijoux, ex_siphash = (\<lambda>_ _ bs. word_of_nat (unat (hd bs)))\<rparr>"

definition sample_loose :: "byte \<Rightarrow> byte list \<Rightarrow> LooseCommit" where
  "sample_loose i ps = sample_commit\<lparr>lc_head := sample_id i, lc_parents := map sample_id ps\<rparr>"

definition sample_frag :: "byte \<Rightarrow> byte list \<Rightarrow> byte list \<Rightarrow> Fragment" where
  "sample_frag i bs cps = fragment_from_parts (SedimentreeId (replicate 32 7)) (sample_id i) (map sample_id bs)
     (map (checkpoint_new \<circ> sample_id) cps) sample_meta"

lemma sample_digests_distinct:
  assumes "\<forall>f \<in> fs. wf_Fragment f" and "\<forall>c \<in> cs. wf_LooseCommit c"
  shows "digests_distinct sample_ext fs cs"
  using assms payload_codec.encode_inj [OF loose_commit_payload_codec [OF sample_bijoux_laws]]
    payload_codec.encode_inj [OF fragment_payload_codec [OF sample_bijoux_laws]]
  by (auto simp: digests_distinct_def inj_on_def commit_digest_def fragment_digest_def digest_hash_def
      digest_hash_raw_def sample_ext_def)

lemma sample_loose_wf: "sorted_wrt (<) ps \<Longrightarrow> length ps \<le> 255 \<Longrightarrow> wf_LooseCommit (sample_loose i ps)"
  by (auto simp: sample_loose_def wf_LooseCommit_def sample_commit_def sorted_wrt_map elim: sorted_wrt_mono_rel [rotated])

lemma sample_loose_head [simp]: "lc_head (sample_loose i ps) = sample_id i"
  by (simp add: sample_loose_def)

lemma sample_loose_parents [simp]: "lc_parents (sample_loose i ps) = map sample_id ps"
  by (simp add: sample_loose_def)

lemma sample_id_inject [simp]: "sample_id i = sample_id j \<longleftrightarrow> i = j"
  by (simp add: sample_id_def)

lemma sample_frag_head [simp]: "fr_head (sample_frag i bs cps) = sample_id i"
  by (simp add: sample_frag_def fragment_from_parts_def fr_head_def)

lemma sample_frag_wf:
  "sorted_wrt (<) bs \<Longrightarrow> sorted_wrt (<) cps \<Longrightarrow> length bs \<le> 255 \<Longrightarrow> length cps \<le> 65535 \<Longrightarrow> wf_Fragment (sample_frag i bs cps)"
  by (auto simp: sample_frag_def wf_Fragment_def fragment_from_parts_def fr_head_def fr_boundary_def sorted_wrt_map
      elim: sorted_wrt_mono_rel [rotated])

text \<open>A history in which every parent has a smaller rank than its child has no cycle.\<close>

lemma acyclic_commitsI:
  fixes rank :: "CommitId \<Rightarrow> nat"
  assumes "\<forall>c \<in> set cs. \<forall>p \<in> set (lc_parents c). rank p < rank (lc_head c)"
  shows "acyclic_commits cs"
proof -
  have "rank (lc_head p) < rank (lc_head c)" if "(c, p) \<in> {(c, p). parent_link cs c p}\<^sup>+" for c p
    using that
  proof induction
    case (base p)
    then show ?case using assms by (auto simp: parent_link_def)
  next
    case (step p q)
    then have "rank (lc_head q) < rank (lc_head p)" using assms by (auto simp: parent_link_def)
    with step.IH show ?case by simp
  qed
  then show ?thesis by (fastforce simp: acyclic_commits_def acyclic_def)
qed

text \<open>
  A tree with a boundary commit 0 above commit 1, a deep fragment at 0 that reaches down to 1,
  and a shallow fragment at 1: minimisation keeps the deep fragment only.
\<close>

definition sample_tree :: Sedimentree where
  "sample_tree =
     \<lparr>fragments = [(sample_id 0, sample_frag 0 [1, 2] []), (sample_id 1, sample_frag 1 [2] [])],
      commits = [(sample_id 0, sample_loose 0 [1]), (sample_id 1, sample_loose 1 []), (sample_id 9, sample_loose 9 [])]\<rparr>"

definition sample_tree_min :: Sedimentree where
  "sample_tree_min =
     \<lparr>fragments = [(sample_id 0, sample_frag 0 [1, 2] [])], commits = [(sample_id 9, sample_loose 9 [])]\<rparr>"

lemma sample_tree_minimized: "minimize_in_place CountLeadingZeroBytes sample_tree = Some sample_tree_min"
  by code_simp

lemma sample_tree_wf: "tree_wf sample_tree"
  by (simp add: tree_wf_def sample_tree_def om_inv_def)

lemma sample_tree_acyclic: "acyclic_commits (om_values (commits sample_tree))"
  by (rule acyclic_commitsI [where rank = "\<lambda>i. 255 - unat (hd (commit_id_bytes i))"])
    (simp add: sample_tree_def om_values_def sample_id_def)

lemma sample_tree_minimize: "minimize sample_ext CountLeadingZeroBytes sample_tree = Some sample_tree_min"
  using minimize_eq_in_place [OF sample_tree_wf] sample_tree_minimized by simp

lemma sample_tree_min_wf: "tree_wf sample_tree_min"
  by (simp add: tree_wf_def sample_tree_min_def om_inv_def)

definition sample_seed :: FingerprintSeed where
  "sample_seed = \<lparr>key0 = 1, key1 = 2\<rparr>"

lemma sample_fps_distinct:
  "fps_distinct sample_ext sample_seed sample_tree sample_tree_min"
  "fps_distinct sample_ext sample_seed sample_tree_min sample_tree"
  by (auto simp: fps_distinct_def inj_on_def known_ids_def sample_tree_def sample_tree_min_def tree_commits_def
      tree_fragments_def om_values_def sample_ext_def fingerprint_new_def sample_id_def sample_loose_def
      sample_frag_def fragment_from_parts_def fr_head_def fr_boundary_def)


section \<open>Convergence\<close>

text \<open>Adding commits, adding fragments and merging well-formed trees keep a tree well-formed: both maps are in
  key order, without duplicates, and every entry is filed under the head of its value.\<close>

theorem tree_ops_preserve_wf:
  assumes "tree_wf t" and "list_all op_ok ops"
  shows "tree_wf (foldl (\<lambda>t op. apply_op x op t) t ops)"
  using tree_wf_ops [OF assms] .

theorem tree_ops_preserve_wf_witness:
  "tree_wf (foldl (\<lambda>t op. apply_op sample_ext op t) empty_tree
     [OpCommit (sample_loose 2 [1]), OpFragment (sample_frag 0 [5] []), OpMerge empty_tree])"
  by (rule tree_ops_preserve_wf) (simp_all add: op_ok_def)

text \<open>C1: Convergence. Two replicas that start empty and receive the same commits and fragments, in any order, any
  number of times and in any grouping into merges, hold equal trees, provided the digests of these
  values are distinct.\<close>

theorem replicas_converge:
  assumes "list_all op_ok ops" and "list_all op_ok ops'"
    and "ops_fragments ops = ops_fragments ops'" and "ops_commits ops = ops_commits ops'"
    and "digests_distinct x (ops_fragments ops) (ops_commits ops)"
  shows "foldl (\<lambda>t op. apply_op x op t) empty_tree ops = foldl (\<lambda>t op. apply_op x op t) empty_tree ops'"
  using tree_of_ops [OF tree_of_empty assms(1)] tree_of_ops [OF tree_of_empty assms(2)] assms(3-5)
  by (auto intro: tree_of_unique)

theorem replicas_converge_witness:
  "let c = sample_loose 2 [1]; d = sample_loose 2 [0]; f = sample_frag 0 [5] [] in
   foldl (\<lambda>t op. apply_op sample_ext op t) empty_tree [OpCommit c, OpFragment f, OpCommit d]
   = foldl (\<lambda>t op. apply_op sample_ext op t) empty_tree [OpCommit d, OpCommit c, OpCommit d, OpFragment f]"
proof -
  let ?c = "sample_loose 2 [1]" and ?d = "sample_loose 2 [0]" and ?f = "sample_frag 0 [5] []"
  have "digests_distinct sample_ext {?f} {?c, ?d}"
    by (intro sample_digests_distinct) (auto intro!: sample_frag_wf sample_loose_wf)
  then show ?thesis
    using replicas_converge [of "[OpCommit ?c, OpFragment ?f, OpCommit ?d]"
        "[OpCommit ?d, OpCommit ?c, OpCommit ?d, OpFragment ?f]" sample_ext]
    by (simp add: op_ok_def ops_fragments_def ops_commits_def insert_commute)
qed

text \<open>C21: Merging is a join: commutative, associative and idempotent, on well-formed trees whose values have distinct
  digests.\<close>

theorem merge_join:
  assumes "tree_wf a" and "tree_wf b" and "tree_wf c"
    and "digests_distinct x (tree_fragments a \<union> tree_fragments b \<union> tree_fragments c)
      (tree_commits a \<union> tree_commits b \<union> tree_commits c)"
  shows "merge x a b = merge x b a \<and> merge x (merge x a b) c = merge x a (merge x b c) \<and> merge x a a = a"
proof -
  let ?F = tree_fragments and ?C = tree_commits
  note t = assms(1-3) [THEN tree_wf_tree_of, of x]
  have d: "digests_distinct x fs cs" if "fs \<subseteq> ?F a \<union> ?F b \<union> ?F c" "cs \<subseteq> ?C a \<union> ?C b \<union> ?C c" for fs cs
    using assms(4) that by (rule digests_distinct_mono)
  have ab: "tree_of x (?F a \<union> ?F b) (?C a \<union> ?C b) (merge x a b)"
    and ba: "tree_of x (?F b \<union> ?F a) (?C b \<union> ?C a) (merge x b a)"
    and bc: "tree_of x (?F b \<union> ?F c) (?C b \<union> ?C c) (merge x b c)"
    using t by (auto intro!: tree_of_merge d)
  have aa: "tree_of x (?F a) (?C a) (merge x a a)"
    using tree_of_merge [OF t(1) t(1)] d [of "?F a" "?C a"] by auto
  have "tree_of x (?F a \<union> ?F b \<union> ?F c) (?C a \<union> ?C b \<union> ?C c) (merge x (merge x a b) c)"
    and "tree_of x (?F a \<union> (?F b \<union> ?F c)) (?C a \<union> (?C b \<union> ?C c)) (merge x a (merge x b c))"
    using ab bc t by (auto intro!: tree_of_merge d)
  then show ?thesis
    using ab ba aa t(1) by (auto simp: Un_ac intro: tree_of_unique)
qed

theorem merge_join_witness:
  "let a = sedimentree_new sample_ext [sample_frag 0 [5] []] [sample_loose 2 [1]];
       b = sedimentree_new sample_ext [] [sample_loose 2 [0]];
       c = sedimentree_new sample_ext [] [sample_loose 3 [2]]
   in merge sample_ext a b = merge sample_ext b a
      \<and> merge sample_ext (merge sample_ext a b) c = merge sample_ext a (merge sample_ext b c)
      \<and> merge sample_ext a a = a"
proof -
  let ?a = "sedimentree_new sample_ext [sample_frag 0 [5] []] [sample_loose 2 [1]]"
  let ?b = "sedimentree_new sample_ext [] [sample_loose 2 [0]]"
  let ?c = "sedimentree_new sample_ext [] [sample_loose 3 [2]]"
  have "digests_distinct sample_ext (tree_fragments ?a \<union> tree_fragments ?b \<union> tree_fragments ?c)
      (tree_commits ?a \<union> tree_commits ?b \<union> tree_commits ?c)"
    by (intro sample_digests_distinct)
      (auto simp: sedimentree_new_def insert_or_tiebreak_def tree_fragments_def tree_commits_def om_values_def
        intro!: sample_frag_wf sample_loose_wf)
  from merge_join [OF tree_wf_new tree_wf_new tree_wf_new this] show ?thesis unfolding Let_def .
qed


section \<open>Minimisation\<close>

text \<open>C22: On a well-formed tree minimisation returns a tree (no \<open>expect\<close> of the commit dag fails), the rebuilding
  \<open>minimize\<close> and the retaining \<open>minimize_in_place\<close> agree, and the result is well-formed.\<close>

theorem minimize_agrees:
  assumes "tree_wf t"
  shows "\<exists>t'. minimize x m t = Some t' \<and> minimize_in_place m t = Some t' \<and> tree_wf t'"
  using minimize_in_place_spec [OF assms, of m] minimize_eq_in_place [OF assms] by auto

theorem minimize_agrees_witness:
  "\<exists>t'. minimize sample_ext CountLeadingZeroBytes
      (sedimentree_new sample_ext [sample_frag 0 [5] []] [sample_loose 2 [1], sample_loose 3 [2]]) = Some t'"
  using minimize_agrees [OF tree_wf_new, of sample_ext CountLeadingZeroBytes sample_ext
      "[sample_frag 0 [5] []]" "[sample_loose 2 [1], sample_loose 3 [2]]"] by blast






text \<open>C24: Minimising a minimised tree changes nothing, in an acyclic history.\<close>

theorem minimize_idempotent:
  assumes "tree_wf t" and "acyclic_commits (om_values (commits t))" and "minimize x m t = Some t'"
  shows "minimize x m t' = Some t'"
proof -
  have "minimize_in_place m t = Some t'" using minimize_eq_in_place [OF assms(1)] assms(3) by simp
  moreover from this have "tree_wf t'" using minimize_in_place_spec [OF assms(1), of m] by auto
  ultimately show ?thesis using minimize_idem [OF assms(1,2)] minimize_eq_in_place by simp
qed


theorem minimize_idempotent_witness:
  "minimize sample_ext CountLeadingZeroBytes sample_tree_min = Some sample_tree_min"
  by (rule minimize_idempotent [OF sample_tree_wf sample_tree_acyclic sample_tree_minimize])

text \<open>C25: The heads computed through the dirty flag are the heads of the tree: after any sequence of additions and
  merges the flag is set, minimising on demand succeeds, and the answer is that of \<open>Sedimentree::heads\<close> on
  the underlying tree. Asking twice gives the same answer.\<close>

theorem minimized_heads_refine:
  assumes "ms_inv m s" and "acyclic_commits (om_values (commits (ms_tree s)))"
  shows "\<exists>s' hs. ms_heads m s = Some (s', hs) \<and> heads x m (ms_tree s) = Some hs \<and> ms_inv m s'
    \<and> ms_heads m s' = Some (s', hs)"
proof -
  obtain s' where s': "ensure_minimized m s = Some s'" "\<not> ms_dirty s'" "ms_inv m s'"
    "minimize_in_place m (ms_tree s) = Some (ms_tree s')"
    using ensure_minimized_spec [OF assms] by blast
  moreover have "heads x m (ms_tree s) = Some (heads_assuming_minimal (ms_tree s'))"
    using s'(4) assms(1) minimize_eq_in_place [of "ms_tree s"] by (simp add: heads_def ms_inv_def)
  ultimately show ?thesis by (simp add: ms_heads_def ensure_minimized_def [of m s'])
qed

theorem minimized_heads_refine_witness:
  "\<exists>s' hs. ms_heads CountLeadingZeroBytes (minimized_new sample_tree) = Some (s', hs)
     \<and> heads sample_ext CountLeadingZeroBytes sample_tree = Some hs"
  using minimized_heads_refine [of CountLeadingZeroBytes "minimized_new sample_tree" sample_ext]
    sample_tree_wf sample_tree_acyclic by (auto simp: ms_inv_def minimized_new_def)

text \<open>C26: Every mutation of the wrapper marks it dirty and keeps its invariant: the tree is well-formed and, when the
  flag is clear, minimal.\<close>

theorem minimized_ops_invariant:
  assumes "ms_inv m s" and "op_ok (tree_op op)"
  shows "ms_inv m (apply_ms_op x op s) \<and> ms_dirty (apply_ms_op x op s)
    \<and> ms_tree (apply_ms_op x op s) = apply_op x (tree_op op) (ms_tree s)"
  using assms tree_wf_apply_op [of "ms_tree s" "tree_op op" x] by (simp add: apply_ms_op_tree ms_inv_def)

theorem minimized_ops_invariant_witness:
  "ms_dirty (apply_ms_op sample_ext (MsCommit (sample_loose 9 [])) (minimized_new sample_tree))"
  using minimized_ops_invariant [of CountLeadingZeroBytes "minimized_new sample_tree" "MsCommit (sample_loose 9 [])" sample_ext]
    sample_tree_wf by (simp add: ms_inv_def minimized_new_def op_ok_def)


section \<open>Synchronisation\<close>

text \<open>C27: \<open>ancestors_of\<close> terminates with exactly the roots and what parent links of commits of the tree reach from them.\<close>

theorem ancestors_of_reachable:
  "ancestors_of t roots = {i. \<exists>r \<in> set roots. (\<lambda>c p. c \<in> set (om_keys (commits t)) \<and> p \<in> set (commit_parents t c))\<^sup>*\<^sup>* r i}"
proof -
  have "walk_edge (om_keys (commits t)) id (commit_parents t)
      = (\<lambda>c p. c \<in> set (om_keys (commits t)) \<and> p \<in> set (commit_parents t c))"
    by (auto simp: walk_edge_def fun_eq_iff)
  then show ?thesis by (simp add: ancestors_of_def walk_reach)
qed







end
