(* ===== verification/Topsort.thy ===== *)
theory Topsort
  imports Sedimentree_Props
begin

text \<open>
  \<open>Sedimentree::topsorted_blob_order\<close>: Kahn's algorithm over the fragments and loose commits
  of a tree. A panic (an index out of range, a \<open>u32\<close> counter that overflows or underflows)
  is the value \<open>None\<close>; a cycle is the error \<open>CycleError\<close>.
\<close>

section \<open>The algorithm\<close>

datatype SedimentreeItem = ItemFragment usize | ItemLooseCommit usize

record CycleError =
  ce_total :: usize
  ce_sorted :: usize

type_synonym dep_state = "nat list \<times> usize list list"

text \<open>\<open>in_degree[idx] += 1; dependents[j].push(idx)\<close>\<close>

definition add_dep :: "dep_state \<Rightarrow> usize \<Rightarrow> usize \<Rightarrow> dep_state option" where
  "add_dep st idx j = (case st of (in_degree, dependents) \<Rightarrow>
     if idx < length in_degree \<and> int (in_degree ! idx) + 1 < 2 ^ 32 \<and> j < length dependents
     then Some (in_degree[idx := in_degree ! idx + 1], dependents[j := dependents ! j @ [idx]])
     else None)"

fun boundary_deps :: "(CommitId, usize) omap \<Rightarrow> usize \<Rightarrow> CommitId list \<Rightarrow> dep_state \<Rightarrow> dep_state option" where
  "boundary_deps head_to_frag i [] st = Some st"
| "boundary_deps head_to_frag i (b # bs) st =
     (case map_of head_to_frag b of
        Some j \<Rightarrow> Option.bind (add_dep st i j) (boundary_deps head_to_frag i bs)
      | None \<Rightarrow> boundary_deps head_to_frag i bs st)"

fun fragment_deps :: "(CommitId, usize) omap \<Rightarrow> usize \<Rightarrow> Fragment list \<Rightarrow> dep_state \<Rightarrow> dep_state option" where
  "fragment_deps head_to_frag i [] st = Some st"
| "fragment_deps head_to_frag i (f # fs) st =
     Option.bind (boundary_deps head_to_frag i (fr_boundary f) st) (fragment_deps head_to_frag (i + 1) fs)"

text \<open>One guarded edge of a loose commit: \<open>if seen_deps.insert(j) { ... }\<close>.\<close>

definition add_seen :: "usize \<Rightarrow> usize option \<Rightarrow> usize set \<times> dep_state \<Rightarrow> (usize set \<times> dep_state) option" where
  "add_seen idx dep = (\<lambda>(seen, st).
     case dep of
       None \<Rightarrow> Some (seen, st)
     | Some j \<Rightarrow>
         if j \<in> seen then Some (seen, st)
         else map_option (\<lambda>st. (insert j seen, st)) (add_dep st idx j))"

fun parent_deps :: "(CommitId, usize) omap \<Rightarrow> (CommitId, usize) omap \<Rightarrow> usize \<Rightarrow> usize \<Rightarrow> CommitId list
    \<Rightarrow> usize set \<times> dep_state \<Rightarrow> (usize set \<times> dep_state) option" where
  "parent_deps head_to_frag id_to_loose n_frags idx [] sst = Some sst"
| "parent_deps head_to_frag id_to_loose n_frags idx (p # ps) sst =
     Option.bind (add_seen idx (map_of head_to_frag p) sst) (\<lambda>sst.
     Option.bind (add_seen idx (map_option (\<lambda>pli. n_frags + pli) (map_of id_to_loose p)) sst)
       (parent_deps head_to_frag id_to_loose n_frags idx ps))"

fun loose_deps :: "(CommitId, usize) omap \<Rightarrow> (CommitId, usize) omap \<Rightarrow> usize \<Rightarrow> usize \<Rightarrow> LooseCommit list
    \<Rightarrow> dep_state \<Rightarrow> dep_state option" where
  "loose_deps head_to_frag id_to_loose n_frags li [] st = Some st"
| "loose_deps head_to_frag id_to_loose n_frags li (c # cs) st =
     Option.bind (parent_deps head_to_frag id_to_loose n_frags (n_frags + li) (lc_parents c) ({}, st))
       (\<lambda>(_, st). loose_deps head_to_frag id_to_loose n_frags (li + 1) cs st)"

definition index_map :: "CommitId list \<Rightarrow> (CommitId, usize) omap" where
  "index_map hs = om_of_list (map (\<lambda>(i, h). (h, i)) (enumerate 0 hs))"

definition dependencies :: "Fragment list \<Rightarrow> LooseCommit list \<Rightarrow> dep_state option" where
  "dependencies fs cs =
     (let n_total = length fs + length cs;
          head_to_frag = index_map (map fr_head fs);
          id_to_loose = index_map (map lc_head cs)
      in Option.bind (fragment_deps head_to_frag 0 fs (replicate n_total 0, replicate n_total []))
           (loose_deps head_to_frag id_to_loose (length fs) 0 cs))"

text \<open>The inner loop over \<open>dependents[i]\<close>.\<close>

fun relax :: "usize list \<Rightarrow> nat list \<Rightarrow> usize list \<Rightarrow> (nat list \<times> usize list) option" where
  "relax [] in_degree queue = Some (in_degree, queue)"
| "relax (dep # ds) in_degree queue =
     (if dep < length in_degree \<and> in_degree ! dep \<noteq> 0
      then let in_degree = in_degree[dep := in_degree ! dep - 1]
           in relax ds in_degree (if in_degree ! dep = 0 then queue @ [dep] else queue)
      else None)"

lemma sum_list_decr:
  "i < length xs \<Longrightarrow> xs ! i \<noteq> (0::nat) \<Longrightarrow> Suc (sum_list (xs[i := xs ! i - 1])) = sum_list xs"
proof (induction xs arbitrary: i)
  case (Cons x xs)
  then show ?case by (cases i) auto
qed simp

lemma relax_measure:
  "relax ds ind q = Some (ind', q') \<Longrightarrow> sum_list ind' + length q' \<le> sum_list ind + length q"
proof (induction ds ind q rule: relax.induct)
  case (2 dep ds ind q)
  then have "sum_list ind' + length q' \<le> sum_list (ind[dep := ind ! dep - 1]) + Suc (length q)"
    by (fastforce simp: Let_def split: if_splits)
  with 2 sum_list_decr [of dep ind] show ?case by (auto split: if_splits)
qed simp

function kahn :: "usize list list \<Rightarrow> usize list \<Rightarrow> nat list \<Rightarrow> usize list \<Rightarrow> usize list option" where
  "kahn dependents [] in_degree order = Some order"
| "kahn dependents (i # queue) in_degree order =
     (if i < length dependents
      then case relax (dependents ! i) in_degree queue of
             None \<Rightarrow> None
           | Some (in_degree, queue) \<Rightarrow> kahn dependents queue in_degree (order @ [i])
      else None)"
  by pat_completeness auto
termination
  by (relation "measure (\<lambda>(_, queue, in_degree, _). sum_list in_degree + length queue)")
    (auto dest: relax_measure)

definition topsorted_blob_order :: "Sedimentree \<Rightarrow> (CycleError + SedimentreeItem list) option" where
  "topsorted_blob_order self =
     (let fs = om_values (fragments self); loose = om_values (commits self);
          n_frags = length fs; n_total = n_frags + length loose in
      if n_total = 0 then Some (Inr [])
      else
        Option.bind (dependencies fs loose) (\<lambda>(in_degree, dependents).
        Option.bind (kahn dependents (filter (\<lambda>i. in_degree ! i = 0) [0..<length in_degree]) in_degree []) (\<lambda>order.
        if length order \<noteq> n_total then Some (Inl \<lparr>ce_total = n_total, ce_sorted = length order\<rparr>)
        else Some (Inr (map (\<lambda>i. if i < n_frags then ItemFragment i else ItemLooseCommit (i - n_frags)) order)))))"


section \<open>The loop\<close>

lemma relax_spec:
  assumes "\<forall>i \<in> set ds. i < length ind" and "\<forall>i. count_list ds i \<le> (if i < length ind then ind ! i else 0)"
  shows "\<exists>ind' new. relax ds ind q = Some (ind', q @ new) \<and> length ind' = length ind \<and> distinct new
    \<and> (\<forall>i < length ind. ind' ! i = ind ! i - count_list ds i)
    \<and> set new = {i \<in> set ds. ind' ! i = 0}"
  using assms
proof (induction ds arbitrary: ind q)
  case (Cons d ds)
  let ?ind = "ind[d := ind ! d - 1]"
  have d: "d < length ind" "ind ! d \<noteq> 0" "count_list ds d \<le> ind ! d - 1"
    using Cons.prems(1) spec [OF Cons.prems(2), of d] by auto
  have cnt: "count_list ds i \<le> (if i < length ind then ind ! i else 0)" if "i \<noteq> d" for i
    using spec [OF Cons.prems(2), of i] that by (auto split: if_splits)
  have "count_list ds i \<le> (if i < length ?ind then ?ind ! i else 0)" for i
    using d cnt [of i] by (cases "i = d") auto
  moreover have "\<forall>i \<in> set ds. i < length ?ind" using Cons.prems(1) by simp
  ultimately obtain ind' new where IH: "relax ds ?ind (if ?ind ! d = 0 then q @ [d] else q)
      = Some (ind', (if ?ind ! d = 0 then q @ [d] else q) @ new)" "length ind' = length ind" "distinct new"
    "\<forall>i < length ind. ind' ! i = ?ind ! i - count_list ds i" "set new = {i \<in> set ds. ind' ! i = 0}"
    using Cons.IH [of ?ind "if ?ind ! d = 0 then q @ [d] else q"] by auto
  have ind': "\<forall>i < length ind. ind' ! i = ind ! i - count_list (d # ds) i"
    using IH(4) d(1) by (auto simp: nth_list_update)
  show ?case
  proof (cases "ind ! d - 1 = 0")
    case True
    then have "count_list ds d = 0" using d(3) by simp
    then have "d \<notin> set ds" by (simp add: count_list_0_iff)
    moreover have "ind' ! d = 0" using ind' d(1) True by auto
    ultimately have "distinct (d # new)" "set (d # new) = {i \<in> set (d # ds). ind' ! i = 0}"
      using IH(3,5) by auto
    moreover have "relax (d # ds) ind q = Some (ind', q @ (d # new))"
      using IH(1) d(1,2) True by (simp add: Let_def)
    ultimately show ?thesis using IH(2) ind' by blast
  next
    case False
    have "d \<in> set ds" if "ind' ! d = 0"
    proof (rule ccontr)
      assume "d \<notin> set ds"
      then have "count_list ds d = 0" by (simp add: count_list_0_iff)
      with ind' d(1) that False show False by auto
    qed
    then have "set new = {i \<in> set (d # ds). ind' ! i = 0}" using IH(5) by auto
    moreover have "relax (d # ds) ind q = Some (ind', q @ new)"
      using IH(1) d(1,2) False by (simp add: Let_def)
    ultimately show ?thesis using IH(2,3) ind' by blast
  qed
qed simp


definition in_edges :: "usize list list \<Rightarrow> usize set \<Rightarrow> usize \<Rightarrow> nat" where
  "in_edges deps done i = (\<Sum>j \<in> {..<length deps} - done. count_list (deps ! j) i)"

definition kahn_inv :: "usize list list \<Rightarrow> usize list \<Rightarrow> nat list \<Rightarrow> usize list \<Rightarrow> bool" where
  "kahn_inv deps queue ind order \<longleftrightarrow>
     length ind = length deps \<and> (\<forall>i < length deps. ind ! i = in_edges deps (set order) i) \<and>
     distinct (order @ queue) \<and> set (order @ queue) = {i. i < length deps \<and> ind ! i = 0} \<and>
     (\<forall>k < length order. \<forall>j < length deps. order ! k \<in> set (deps ! j) \<longrightarrow> j \<in> set (take k order))"

lemma in_edges_0_iff: "in_edges deps done i = 0 \<longleftrightarrow> (\<forall>j < length deps. j \<notin> done \<longrightarrow> i \<notin> set (deps ! j))"
  by (auto simp: in_edges_def count_list_0_iff)

lemma in_edges_insert:
  assumes "q < length deps" and "q \<notin> done"
  shows "in_edges deps done i = count_list (deps ! q) i + in_edges deps (insert q done) i"
proof -
  have "(\<Sum>j \<in> {..<length deps} - done. count_list (deps ! j) i)
      = count_list (deps ! q) i + (\<Sum>j \<in> {..<length deps} - done - {q}. count_list (deps ! j) i)"
    by (rule sum.remove) (use assms in auto)
  moreover have "{..<length deps} - insert q done = {..<length deps} - done - {q}" by blast
  ultimately show ?thesis unfolding in_edges_def by (simp only:)
qed

lemma kahn_step:
  assumes inv: "kahn_inv deps (q # queue) ind order" and edges: "\<forall>j < length deps. \<forall>i \<in> set (deps ! j). i < length deps"
  shows "q < length deps \<and> (\<exists>ind' queue'. relax (deps ! q) ind queue = Some (ind', queue') \<and> kahn_inv deps queue' ind' (order @ [q]))"
proof -
  have q: "q < length deps" "ind ! q = 0" "q \<notin> set order" and len: "length ind = length deps"
    and ind: "\<And>i. i < length deps \<Longrightarrow> ind ! i = in_edges deps (set order) i"
    and dist: "distinct (order @ q # queue)" and mem: "set (order @ q # queue) = {i. i < length deps \<and> ind ! i = 0}"
    and ord: "\<forall>k < length order. \<forall>j < length deps. order ! k \<in> set (deps ! j) \<longrightarrow> j \<in> set (take k order)"
    using inv by (auto simp: kahn_inv_def)
  note split = in_edges_insert [OF q(1,3)]
  have "count_list (deps ! q) i \<le> (if i < length ind then ind ! i else 0)" for i
  proof (cases "i < length ind")
    case True
    then show ?thesis using ind [of i] split [of i] len by simp
  next
    case False
    then have "i \<notin> set (deps ! q)" using edges q(1) len by auto
    then show ?thesis by (simp add: count_list_0_iff)
  qed
  then obtain ind' new where r: "relax (deps ! q) ind queue = Some (ind', queue @ new)" "length ind' = length ind"
    "distinct new" "\<forall>i < length ind. ind' ! i = ind ! i - count_list (deps ! q) i"
    "set new = {i \<in> set (deps ! q). ind' ! i = 0}"
    using relax_spec [of "deps ! q" ind queue] edges q(1) len by auto
  have ind': "ind' ! i = in_edges deps (set (order @ [q])) i" if "i < length deps" for i
    using r(4) that len ind [OF that] split [of i] by simp
  have zero: "ind' ! i = 0 \<longleftrightarrow> ind ! i = 0 \<or> i \<in> set new" if "i < length deps" for i
    using r(4,5) that len by (cases "i \<in> set (deps ! q)") (auto simp: count_list_0_iff)
  have pos: "ind ! i \<noteq> 0" if "i \<in> set new" for i
  proof -
    have "i \<in> set (deps ! q)" "i < length deps" using that r(5) edges q(1) by auto
    then show ?thesis using ind [of i] split [of i] by (auto simp: count_list_0_iff)
  qed
  have new: "i < length deps" if "i \<in> set new" for i
    using that r(5) edges q(1) by auto
  have "set ((order @ [q]) @ queue @ new) = {i. i < length deps \<and> ind' ! i = 0}"
    using mem zero new by auto
  moreover have "distinct ((order @ [q]) @ queue @ new)"
  proof -
    have "ind ! i = 0" if "i \<in> set (order @ q # queue)" for i using that unfolding mem by simp
    with pos have "set new \<inter> set (order @ q # queue) = {}" by blast
    with dist r(3) show ?thesis by auto
  qed
  moreover have "j \<in> set order" if "j < length deps" "q \<in> set (deps ! j)" for j
    using ind [OF q(1)] q(2) that by (auto simp: in_edges_0_iff)
  then have "\<forall>k < length (order @ [q]). \<forall>j < length deps. (order @ [q]) ! k \<in> set (deps ! j)
      \<longrightarrow> j \<in> set (take k (order @ [q]))"
    using ord by (auto simp: nth_append less_Suc_eq)
  ultimately have "kahn_inv deps (queue @ new) ind' (order @ [q])"
    using ind' r(2) len by (auto simp: kahn_inv_def)
  with q(1) r(1) show ?thesis by blast
qed

lemma kahn_spec:
  assumes "kahn_inv deps queue ind order" and "\<forall>j < length deps. \<forall>i \<in> set (deps ! j). i < length deps"
  shows "\<exists>order' ind'. kahn deps queue ind order = Some order' \<and> kahn_inv deps [] ind' order'"
  using assms
proof (induction deps queue ind order rule: kahn.induct)
  case (1 deps ind order)
  then show ?case by auto
next
  case (2 deps q queue ind order)
  obtain ind' queue' where "q < length deps" "relax (deps ! q) ind queue = Some (ind', queue')"
    "kahn_inv deps queue' ind' (order @ [q])"
    using kahn_step [OF 2(2,3)] by blast
  with 2(1) [of "(ind', queue')" ind' queue'] 2(3) show ?case by simp
qed


section \<open>The dependency graph\<close>

text \<open>
  \<open>st\<close> has the edges \<open>E\<close>: \<open>(j, i)\<close> when item \<open>i\<close> waits for item \<open>j\<close>.
\<close>

definition deps_ok :: "usize \<Rightarrow> (usize \<times> usize) set \<Rightarrow> dep_state \<Rightarrow> bool" where
  "deps_ok n E = (\<lambda>(ind, deps).
     length ind = n \<and> length deps = n \<and> E \<subseteq> {..<n} \<times> {..<n} \<and>
     (\<forall>j < n. set (deps ! j) = {i. (j, i) \<in> E}) \<and>
     (\<forall>i < n. ind ! i = in_edges deps {} i))"

lemma deps_ok_add:
  assumes ok: "deps_ok n E (ind, deps)" and lt: "i < n" "j < n" and room: "ind ! i + 1 < 2 ^ 32"
  shows "\<exists>ind' deps'. add_dep (ind, deps) i j = Some (ind', deps') \<and> deps_ok n (insert (j, i) E) (ind', deps')
    \<and> ind' ! i = ind ! i + 1 \<and> (\<forall>k. k \<noteq> i \<longrightarrow> ind' ! k = ind ! k)"
proof -
  let ?ind = "ind[i := ind ! i + 1]" and ?deps = "deps[j := deps ! j @ [i]]"
  have len: "length ind = n" "length deps = n" and E: "E \<subseteq> {..<n} \<times> {..<n}"
    and sets: "\<And>j. j < n \<Longrightarrow> set (deps ! j) = {i. (j, i) \<in> E}"
    and ind: "\<And>i. i < n \<Longrightarrow> ind ! i = in_edges deps {} i"
    using ok by (auto simp: deps_ok_def)
  have "in_edges ?deps {} k = in_edges deps {} k + (if k = i then 1 else 0)" for k
  proof -
    have "count_list (?deps ! j') k = count_list (deps ! j') k + (if j' = j \<and> k = i then 1 else 0)" for j'
      using lt len by (cases "j' = j") auto
    then have "in_edges ?deps {} k = in_edges deps {} k + (\<Sum>j' < n. if j' = j \<and> k = i then 1 else 0)"
      by (simp add: in_edges_def len sum.distrib)
    also have "(\<Sum>j' < n. if j' = j \<and> k = i then 1 else 0) = (if k = i then 1 else (0::nat))"
      using lt(2) by (cases "k = i") (simp_all add: sum.delta)
    finally show ?thesis .
  qed
  then have "deps_ok n (insert (j, i) E) (?ind, ?deps)"
    using len E sets ind lt by (auto simp: deps_ok_def nth_list_update)
  moreover have "int (ind ! i) + 1 < 2 ^ 32" using room by simp
  ultimately show ?thesis using lt len by (simp add: add_dep_def)
qed

lemma deps_ok_init: "deps_ok n {} (replicate n 0, replicate n [])"
  by (simp add: deps_ok_def in_edges_def)

lemma boundary_deps_ok:
  assumes "deps_ok n E (ind, deps)" and "i < n" and "ind ! i + length bs < 2 ^ 32"
    and "\<And>b j. map_of m b = Some j \<Longrightarrow> j < n"
  shows "\<exists>ind' deps'. boundary_deps m i bs (ind, deps) = Some (ind', deps')
    \<and> deps_ok n (E \<union> {(j, i) | j. \<exists>b \<in> set bs. map_of m b = Some j}) (ind', deps')
    \<and> (\<forall>k. k \<noteq> i \<longrightarrow> ind' ! k = ind ! k)"
  using assms(1-3)
proof (induction bs arbitrary: E ind deps)
  case (Cons b bs)
  show ?case
  proof (cases "map_of m b")
    case None
    then have "{(j, i) | j. \<exists>b \<in> set (b # bs). map_of m b = Some j} = {(j, i) | j. \<exists>b \<in> set bs. map_of m b = Some j}"
      by auto
    with None Cons.IH [OF Cons.prems(1,2)] Cons.prems(3) show ?thesis by simp
  next
    case (Some j)
    obtain ind1 deps1 where 1: "add_dep (ind, deps) i j = Some (ind1, deps1)"
      "deps_ok n (insert (j, i) E) (ind1, deps1)" "ind1 ! i = ind ! i + 1" "\<forall>k. k \<noteq> i \<longrightarrow> ind1 ! k = ind ! k"
      using deps_ok_add [OF Cons.prems(1,2) assms(4) [OF Some]] Cons.prems(3) by auto
    obtain ind' deps' where 2: "boundary_deps m i bs (ind1, deps1) = Some (ind', deps')"
      "deps_ok n (insert (j, i) E \<union> {(j, i) | j. \<exists>b \<in> set bs. map_of m b = Some j}) (ind', deps')"
      "\<forall>k. k \<noteq> i \<longrightarrow> ind' ! k = ind1 ! k"
      using Cons.IH [OF 1(2) Cons.prems(2)] 1(3) Cons.prems(3) by auto
    have "insert (j, i) E \<union> {(j, i) | j. \<exists>b \<in> set bs. map_of m b = Some j}
        = E \<union> {(j, i) | j. \<exists>b \<in> set (b # bs). map_of m b = Some j}"
      using Some by auto
    with 1 2 Some show ?thesis by auto
  qed
qed auto


text \<open>The edges into item \<open>i\<close> from the items that \<open>look\<close> finds for \<open>ids\<close>, and those of a list of items.\<close>

definition edges_to :: "(CommitId \<Rightarrow> usize set) \<Rightarrow> usize \<Rightarrow> CommitId list \<Rightarrow> (usize \<times> usize) set" where
  "edges_to look i ids = {(j, i) | j. \<exists>b \<in> set ids. j \<in> look b}"

fun all_edges :: "(CommitId \<Rightarrow> usize set) \<Rightarrow> usize \<Rightarrow> CommitId list list \<Rightarrow> (usize \<times> usize) set" where
  "all_edges look i [] = {}"
| "all_edges look i (ids # idss) = edges_to look i ids \<union> all_edges look (i + 1) idss"

lemma all_edges_iff:
  "(j, t) \<in> all_edges look i idss \<longleftrightarrow> i \<le> t \<and> t < i + length idss \<and> (\<exists>b \<in> set (idss ! (t - i)). j \<in> look b)"
proof (induction idss arbitrary: i)
  case (Cons ids idss)
  show ?case
  proof (cases "t = i")
    case True
    then show ?thesis using Cons.IH [of "Suc i"] by (auto simp: edges_to_def)
  next
    case False
    then have "(ids # idss) ! (t - i) = idss ! (t - (i + 1))" if "i \<le> t"
      using that False by (simp add: nth_Cons')
    with False show ?thesis using Cons.IH [of "Suc i"] by (auto simp: edges_to_def)
  qed
qed simp

abbreviation found :: "(CommitId, usize) omap \<Rightarrow> CommitId \<Rightarrow> usize set" where
  "found m b \<equiv> {j. map_of m b = Some j}"

lemma fragment_deps_ok:
  assumes "deps_ok n E (ind, deps)" and "i + length fs \<le> n" and "\<forall>f \<in> set fs. length (fr_boundary f) < 2 ^ 32"
    and "\<forall>k. i \<le> k \<longrightarrow> k < n \<longrightarrow> ind ! k = 0" and m: "\<And>b j. map_of m b = Some j \<Longrightarrow> j < n"
  shows "\<exists>ind' deps'. fragment_deps m i fs (ind, deps) = Some (ind', deps')
    \<and> deps_ok n (E \<union> all_edges (found m) i (map fr_boundary fs)) (ind', deps')
    \<and> (\<forall>k. i + length fs \<le> k \<longrightarrow> k < n \<longrightarrow> ind' ! k = 0)"
  using assms(1-4)
proof (induction fs arbitrary: E ind deps i)
  case (Cons f fs)
  have "{(j, i) | j. \<exists>b \<in> set (fr_boundary f). map_of m b = Some j} = edges_to (found m) i (fr_boundary f)"
    by (simp add: edges_to_def)
  then obtain ind1 deps1 where 1: "boundary_deps m i (fr_boundary f) (ind, deps) = Some (ind1, deps1)"
    "deps_ok n (E \<union> edges_to (found m) i (fr_boundary f)) (ind1, deps1)" "\<forall>k. k \<noteq> i \<longrightarrow> ind1 ! k = ind ! k"
    using boundary_deps_ok [OF Cons.prems(1), of i "fr_boundary f" m] Cons.prems(2-4) m by auto
  have "\<forall>k. i + 1 \<le> k \<longrightarrow> k < n \<longrightarrow> ind1 ! k = 0" using Cons.prems(4) 1(3) by simp
  with Cons.IH [OF 1(2), of "i + 1"] Cons.prems(2,3) obtain ind' deps' where
    "fragment_deps m (i + 1) fs (ind1, deps1) = Some (ind', deps')"
    "deps_ok n (E \<union> edges_to (found m) i (fr_boundary f) \<union> all_edges (found m) (i + 1) (map fr_boundary fs)) (ind', deps')"
    "\<forall>k. i + 1 + length fs \<le> k \<longrightarrow> k < n \<longrightarrow> ind' ! k = 0"
    by auto
  with 1(1) show ?case by (simp add: Un_assoc)
qed auto

lemma add_seen_ok:
  assumes "deps_ok n E (ind, deps)" and "i < n" and "ind ! i + 1 < 2 ^ 32"
    and "\<And>j. dep = Some j \<Longrightarrow> j < n" and "\<forall>j \<in> seen. (j, i) \<in> E"
  shows "\<exists>seen' ind' deps'. add_seen i dep (seen, ind, deps) = Some (seen', ind', deps')
    \<and> deps_ok n (E \<union> {(j, i) | j. dep = Some j}) (ind', deps') \<and> (\<forall>j \<in> seen'. (j, i) \<in> E \<union> {(j, i) | j. dep = Some j})
    \<and> ind' ! i \<le> ind ! i + 1 \<and> (\<forall>k. k \<noteq> i \<longrightarrow> ind' ! k = ind ! k)"
proof (cases dep)
  case None
  with assms show ?thesis by (auto simp: add_seen_def)
next
  case (Some j)
  show ?thesis
  proof (cases "j \<in> seen")
    case True
    then have "E \<union> {(j, i) | j. dep = Some j} = E" using assms(5) Some by auto
    with True assms Some show ?thesis by (auto simp: add_seen_def)
  next
    case False
    obtain ind1 deps1 where 1: "add_dep (ind, deps) i j = Some (ind1, deps1)"
      "deps_ok n (insert (j, i) E) (ind1, deps1)" "ind1 ! i = ind ! i + 1" "\<forall>k. k \<noteq> i \<longrightarrow> ind1 ! k = ind ! k"
      using deps_ok_add [OF assms(1,2) assms(4) [OF Some] assms(3)] by auto
    have "E \<union> {(j, i) | j. dep = Some j} = insert (j, i) E" using Some by auto
    with 1 False Some assms(5) show ?thesis by (auto simp: add_seen_def)
  qed
qed


definition parent_items :: "(CommitId, usize) omap \<Rightarrow> (CommitId, usize) omap \<Rightarrow> usize \<Rightarrow> CommitId \<Rightarrow> usize set" where
  "parent_items h2f i2l nf b = found h2f b \<union> (\<lambda>l. nf + l) ` found i2l b"

lemma parent_deps_ok:
  assumes "deps_ok n E (ind, deps)" and "i < n" and "ind ! i + 2 * length ps < 2 ^ 32"
    and "\<forall>j \<in> seen. (j, i) \<in> E" and look: "\<And>b j. j \<in> parent_items h2f i2l nf b \<Longrightarrow> j < n"
  shows "\<exists>seen' ind' deps'. parent_deps h2f i2l nf i ps (seen, ind, deps) = Some (seen', ind', deps')
    \<and> deps_ok n (E \<union> edges_to (parent_items h2f i2l nf) i ps) (ind', deps') \<and> (\<forall>k. k \<noteq> i \<longrightarrow> ind' ! k = ind ! k)"
  using assms(1-4)
proof (induction ps arbitrary: E ind deps seen)
  case Nil
  then show ?case by (simp add: edges_to_def)
next
  case (Cons p ps)
  let ?d1 = "map_of h2f p" and ?d2 = "map_option (\<lambda>pli. nf + pli) (map_of i2l p)"
  let ?E1 = "E \<union> {(j, i) | j. ?d1 = Some j}"
  let ?E2 = "?E1 \<union> {(j, i) | j. ?d2 = Some j}"
  have lt: "j < n" if "?d1 = Some j \<or> ?d2 = Some j" for j
    using that by (intro look [of _ p]) (auto simp: parent_items_def)
  obtain s1 ind1 deps1 where 1: "add_seen i ?d1 (seen, ind, deps) = Some (s1, ind1, deps1)"
    "deps_ok n ?E1 (ind1, deps1)" "\<forall>j \<in> s1. (j, i) \<in> ?E1" "ind1 ! i \<le> ind ! i + 1" "\<forall>k. k \<noteq> i \<longrightarrow> ind1 ! k = ind ! k"
    using add_seen_ok [OF Cons.prems(1,2), of ?d1 seen] Cons.prems(3,4) lt by auto
  obtain s2 ind2 deps2 where 2: "add_seen i ?d2 (s1, ind1, deps1) = Some (s2, ind2, deps2)"
    "deps_ok n ?E2 (ind2, deps2)" "\<forall>j \<in> s2. (j, i) \<in> ?E2" "ind2 ! i \<le> ind1 ! i + 1" "\<forall>k. k \<noteq> i \<longrightarrow> ind2 ! k = ind1 ! k"
    using add_seen_ok [OF 1(2) Cons.prems(2), of ?d2 s1] 1(3,4) Cons.prems(3) lt by auto
  obtain s' ind' deps' where 3: "parent_deps h2f i2l nf i ps (s2, ind2, deps2) = Some (s', ind', deps')"
    "deps_ok n (?E2 \<union> edges_to (parent_items h2f i2l nf) i ps) (ind', deps')" "\<forall>k. k \<noteq> i \<longrightarrow> ind' ! k = ind2 ! k"
    using Cons.IH [OF 2(2) Cons.prems(2) _ 2(3)] 1(4) 2(4) Cons.prems(3) by auto
  have "?E2 \<union> edges_to (parent_items h2f i2l nf) i ps = E \<union> edges_to (parent_items h2f i2l nf) i (p # ps)"
    by (auto simp: edges_to_def parent_items_def)
  with 1 2 3 show ?case by simp
qed

lemma loose_deps_ok:
  assumes "deps_ok n E (ind, deps)" and "nf + li + length cs \<le> n" and "\<forall>c \<in> set cs. 2 * length (lc_parents c) < 2 ^ 32"
    and "\<forall>k. nf + li \<le> k \<longrightarrow> k < n \<longrightarrow> ind ! k = 0" and look: "\<And>b j. j \<in> parent_items h2f i2l nf b \<Longrightarrow> j < n"
  shows "\<exists>st'. loose_deps h2f i2l nf li cs (ind, deps) = Some st'
    \<and> deps_ok n (E \<union> all_edges (parent_items h2f i2l nf) (nf + li) (map lc_parents cs)) st'"
  using assms(1-4)
proof (induction cs arbitrary: E ind deps li)
  case (Cons c cs)
  obtain s1 ind1 deps1 where 1: "parent_deps h2f i2l nf (nf + li) (lc_parents c) ({}, ind, deps) = Some (s1, ind1, deps1)"
    "deps_ok n (E \<union> edges_to (parent_items h2f i2l nf) (nf + li) (lc_parents c)) (ind1, deps1)"
    "\<forall>k. k \<noteq> nf + li \<longrightarrow> ind1 ! k = ind ! k"
    using parent_deps_ok [OF Cons.prems(1), of "nf + li" "lc_parents c" "{}" h2f i2l nf] Cons.prems(2-4) look by auto
  have "\<forall>k. nf + (li + 1) \<le> k \<longrightarrow> k < n \<longrightarrow> ind1 ! k = 0" using Cons.prems(4) 1(3) by simp
  with Cons.IH [OF 1(2), of "li + 1"] Cons.prems(2,3) obtain st' where
    "loose_deps h2f i2l nf (li + 1) cs (ind1, deps1) = Some st'"
    "deps_ok n (E \<union> edges_to (parent_items h2f i2l nf) (nf + li) (lc_parents c)
       \<union> all_edges (parent_items h2f i2l nf) (nf + (li + 1)) (map lc_parents cs)) st'"
    by auto
  with 1(1) show ?case by (simp add: Un_assoc)
qed auto


section \<open>Items\<close>

text \<open>\<open>item_dep t a b\<close>: item \<open>b\<close> depends on item \<open>a\<close>.\<close>

fun item_dep :: "Sedimentree \<Rightarrow> SedimentreeItem \<Rightarrow> SedimentreeItem \<Rightarrow> bool" where
  "item_dep t (ItemFragment j) (ItemFragment i) \<longleftrightarrow>
     fr_head (om_values (fragments t) ! j) \<in> set (fr_boundary (om_values (fragments t) ! i))"
| "item_dep t (ItemFragment j) (ItemLooseCommit i) \<longleftrightarrow>
     fr_head (om_values (fragments t) ! j) \<in> set (lc_parents (om_values (commits t) ! i))"
| "item_dep t (ItemLooseCommit j) (ItemLooseCommit i) \<longleftrightarrow>
     lc_head (om_values (commits t) ! j) \<in> set (lc_parents (om_values (commits t) ! i))"
| "item_dep t (ItemLooseCommit j) (ItemFragment i) \<longleftrightarrow> False"

definition tree_items :: "Sedimentree \<Rightarrow> SedimentreeItem set" where
  "tree_items t = ItemFragment ` {..<length (fragments t)} \<union> ItemLooseCommit ` {..<length (commits t)}"

definition item_graph :: "Sedimentree \<Rightarrow> (SedimentreeItem \<times> SedimentreeItem) set" where
  "item_graph t = {(a, b). a \<in> tree_items t \<and> b \<in> tree_items t \<and> item_dep t a b}"

definition item_of :: "usize \<Rightarrow> usize \<Rightarrow> SedimentreeItem" where
  "item_of n_frags i = (if i < n_frags then ItemFragment i else ItemLooseCommit (i - n_frags))"

lemma item_of_inj: "inj (item_of nf)"
  by (auto simp: inj_on_def item_of_def split: if_splits)

lemma item_of_image: "item_of (length (fragments t)) ` {..<length (fragments t) + length (commits t)} = tree_items t"
proof -
  let ?nf = "length (fragments t)"
  have "item_of ?nf (?nf + i) = ItemLooseCommit i" for i by (simp add: item_of_def)
  then have "ItemLooseCommit i \<in> item_of ?nf ` {..<?nf + length (commits t)}" if "i < length (commits t)" for i
    using that by (metis image_eqI lessThan_iff nat_add_left_cancel_less)
  then show ?thesis by (auto simp: tree_items_def item_of_def)
qed

lemma index_map_iff:
  assumes "distinct hs"
  shows "map_of (index_map hs) h = Some i \<longleftrightarrow> i < length hs \<and> hs ! i = h"
proof -
  let ?kvs = "map (\<lambda>(i, h). (h, i)) (enumerate 0 hs)"
  have kvs: "?kvs = map (\<lambda>i. (hs ! i, i)) [0..<length hs]"
    by (rule nth_equalityI) (simp_all add: nth_enumerate_eq)
  have "map fst ?kvs = hs" unfolding kvs by (rule nth_equalityI) simp_all
  then have "map fst (rev ?kvs) = rev hs" by (simp flip: rev_map)
  then have "distinct (map fst (rev ?kvs))" using assms by simp
  from map_of_eq_Some_iff [OF this] show ?thesis
    unfolding index_map_def map_of_om_of_list by (auto simp: kvs)
qed

text \<open>The counters are \<open>u32\<close>.\<close>

definition degrees_fit :: "Sedimentree \<Rightarrow> bool" where
  "degrees_fit t \<longleftrightarrow> (\<forall>f \<in> tree_fragments t. length (fr_boundary f) < 2 ^ 32)
     \<and> (\<forall>c \<in> tree_commits t. 2 * length (lc_parents c) < 2 ^ 32)"

lemma dependencies_ok:
  assumes wf: "tree_wf t" and fit: "degrees_fit t"
  defines "n \<equiv> length (fragments t) + length (commits t)"
  shows "\<exists>st. dependencies (om_values (fragments t)) (om_values (commits t)) = Some st
    \<and> deps_ok n {(j, i). j < n \<and> i < n \<and> item_dep t (item_of (length (fragments t)) j) (item_of (length (fragments t)) i)} st"
proof -
  let ?F = "om_values (fragments t)" and ?C = "om_values (commits t)" and ?nf = "length (fragments t)"
  have len: "length ?F = ?nf" "length ?C = length (commits t)" by (simp_all add: om_values_def)
  let ?h2f = "index_map (map fr_head ?F)" and ?i2l = "index_map (map lc_head ?C)"
  have h2f: "map_of ?h2f h = Some i \<longleftrightarrow> i < ?nf \<and> fr_head (?F ! i) = h" for h i
    using index_map_iff [OF tree_wf_distinct(1) [OF wf], of h i] len by auto
  have i2l: "map_of ?i2l h = Some i \<longleftrightarrow> i < length (commits t) \<and> lc_head (?C ! i) = h" for h i
    using index_map_iff [OF tree_wf_distinct(2) [OF wf], of h i] len by auto
  have bF: "\<forall>f \<in> set ?F. length (fr_boundary f) < 2 ^ 32" and bC: "\<forall>c \<in> set ?C. 2 * length (lc_parents c) < 2 ^ 32"
    using fit by (simp_all add: degrees_fit_def tree_fragments_def tree_commits_def)
  have zero: "\<forall>k. 0 \<le> k \<longrightarrow> k < n \<longrightarrow> replicate n (0::nat) ! k = 0" by simp
  obtain ind deps where 1: "fragment_deps ?h2f 0 ?F (replicate n 0, replicate n []) = Some (ind, deps)"
    "deps_ok n ({} \<union> all_edges (found ?h2f) 0 (map fr_boundary ?F)) (ind, deps)"
    "\<forall>k. 0 + length ?F \<le> k \<longrightarrow> k < n \<longrightarrow> ind ! k = 0"
    using fragment_deps_ok [OF deps_ok_init _ bF zero, of ?h2f] len h2f by (auto simp: n_def)
  have look: "j < n" if "j \<in> parent_items ?h2f ?i2l ?nf b" for b j
    using that h2f i2l by (auto simp: parent_items_def n_def)
  obtain st where 2: "loose_deps ?h2f ?i2l ?nf 0 ?C (ind, deps) = Some st"
    "deps_ok n ({} \<union> all_edges (found ?h2f) 0 (map fr_boundary ?F)
      \<union> all_edges (parent_items ?h2f ?i2l ?nf) (?nf + 0) (map lc_parents ?C)) st"
    using loose_deps_ok [OF 1(2), of ?nf 0 ?C ?h2f ?i2l] bC 1(3) look len by (auto simp: n_def)
  have "{} \<union> all_edges (found ?h2f) 0 (map fr_boundary ?F) \<union> all_edges (parent_items ?h2f ?i2l ?nf) (?nf + 0) (map lc_parents ?C)
      = {(j, i). j < n \<and> i < n \<and> item_dep t (item_of ?nf j) (item_of ?nf i)}" (is "?L = ?R")
  proof -
    have "(j, i) \<in> ?L \<longleftrightarrow> (j, i) \<in> ?R" for i j
    proof (cases "i < ?nf")
      case True
      then show ?thesis
        by (auto simp: all_edges_iff len h2f n_def item_of_def split: if_splits)
    next
      case False
      have C: "(\<exists>b \<in> set (lc_parents (?C ! k)). j \<in> parent_items ?h2f ?i2l ?nf b)
          \<longleftrightarrow> j < n \<and> item_dep t (item_of ?nf j) (ItemLooseCommit k)" for k
        by (cases "j < ?nf") (auto simp: parent_items_def h2f i2l item_of_def n_def intro!: image_eqI [where x = "j - ?nf"])
      show ?thesis
        using False C [of "i - ?nf"] by (auto simp: all_edges_iff len n_def item_of_def)
    qed
    then show ?thesis by auto
  qed
  with 1(1) 2 show ?thesis by (simp add: dependencies_def Let_def len n_def)
qed


text \<open>The loop on a graph: an order of some nodes, closed under dependencies, whose complement has no first node.\<close>

lemma kahn_result:
  assumes ok: "deps_ok n E (ind, deps)"
  shows "\<exists>order. kahn deps (filter (\<lambda>i. ind ! i = 0) [0..<length ind]) ind [] = Some order
    \<and> distinct order \<and> set order \<subseteq> {..<n}
    \<and> (\<forall>k < length order. \<forall>j < n. (j, order ! k) \<in> E \<longrightarrow> j \<in> set (take k order))
    \<and> (\<forall>i < n. i \<notin> set order \<longrightarrow> (\<exists>j < n. j \<notin> set order \<and> (j, i) \<in> E))"
proof -
  have len: "length deps = n" and E: "E \<subseteq> {..<n} \<times> {..<n}"
    and edge: "\<And>j i. j < n \<Longrightarrow> i \<in> set (deps ! j) \<longleftrightarrow> (j, i) \<in> E"
    using ok by (auto simp: deps_ok_def)
  have "kahn_inv deps (filter (\<lambda>i. ind ! i = 0) [0..<length ind]) ind []"
    using ok by (auto simp: deps_ok_def kahn_inv_def)
  moreover have "\<forall>j < length deps. \<forall>i \<in> set (deps ! j). i < length deps" using edge len E by auto
  ultimately obtain order ind' where k: "kahn deps (filter (\<lambda>i. ind ! i = 0) [0..<length ind]) ind [] = Some order"
    and inv: "kahn_inv deps [] ind' order"
    using kahn_spec by blast
  have ord: "distinct order" "set order = {i. i < n \<and> ind' ! i = 0}"
    "\<forall>k < length order. \<forall>j < n. order ! k \<in> set (deps ! j) \<longrightarrow> j \<in> set (take k order)"
    and ind': "\<And>i. i < n \<Longrightarrow> ind' ! i = in_edges deps (set order) i"
    using inv len by (simp_all add: kahn_inv_def)
  have "\<exists>j < n. j \<notin> set order \<and> (j, i) \<in> E" if "i < n" "i \<notin> set order" for i
  proof -
    have "in_edges deps (set order) i \<noteq> 0" using ind' [OF that(1)] that ord(2) by simp
    then show ?thesis using edge len by (auto simp: in_edges_0_iff)
  qed
  moreover have "set order \<subseteq> {..<n}" using ord(2) by auto
  ultimately show ?thesis using k ord(1,3) edge by auto
qed

lemma finite_item_graph: "finite (item_graph t)"
proof (rule finite_subset)
  show "item_graph t \<subseteq> tree_items t \<times> tree_items t" by (auto simp: item_graph_def)
qed (simp add: tree_items_def)

lemma no_first_cyclic:
  assumes "R \<noteq> {}" and "\<And>i. i \<in> R \<Longrightarrow> \<exists>j \<in> R. (j, i) \<in> item_graph t"
  shows "\<not> acyclic (item_graph t)"
proof
  assume "acyclic (item_graph t)"
  then have "wf (item_graph t)" by (rule finite_acyclic_wf [OF finite_item_graph])
  moreover obtain r where "r \<in> R" using assms(1) by blast
  ultimately obtain z where "z \<in> R" "\<And>y. (y, z) \<in> item_graph t \<Longrightarrow> y \<notin> R"
    by (rule wfE_min) blast
  then show False using assms(2) by blast
qed

lemma card_tree_items: "card (tree_items t) = length (fragments t) + length (commits t)"
proof -
  have "inj_on (item_of (length (fragments t))) {..<length (fragments t) + length (commits t)}"
    using item_of_inj by (rule inj_on_subset) simp
  from card_image [OF this] show ?thesis by (simp add: item_of_image)
qed

lemma distinct_all:
  assumes "distinct xs" and "set xs \<subseteq> {..<n}"
  shows "length xs \<le> n" and "length xs = n \<longleftrightarrow> set xs = {..<n}"
proof -
  have c: "card (set xs) = length xs" using assms(1) by (rule distinct_card)
  show "length xs \<le> n" using card_mono [OF finite_lessThan assms(2)] c by simp
  show "length xs = n \<longleftrightarrow> set xs = {..<n}"
  proof
    assume "length xs = n"
    then show "set xs = {..<n}" using card_subset_eq [OF finite_lessThan assms(2)] c by simp
  next
    assume "set xs = {..<n}"
    then show "length xs = n" using c by (metis card_lessThan)
  qed
qed

text \<open>
  What a run returns, in terms of the items: either all items, each after everything it
  depends on, or a proper part of them because of a cycle.
\<close>

definition dependency_order :: "Sedimentree \<Rightarrow> SedimentreeItem list \<Rightarrow> bool" where
  "dependency_order t order \<longleftrightarrow> distinct order \<and> set order = tree_items t
     \<and> (\<forall>k < length order. \<forall>a \<in> tree_items t. item_dep t a (order ! k) \<longrightarrow> a \<in> set (take k order))"

lemma map_item_order:
  fixes t
  defines "n \<equiv> length (fragments t) + length (commits t)" and "it \<equiv> item_of (length (fragments t))"
  assumes "distinct order" and "set order = {..<n}"
    and ord: "\<forall>k < length order. \<forall>j < n. item_dep t (it j) (it (order ! k)) \<longrightarrow> j \<in> set (take k order)"
  shows "dependency_order t (map it order)"
proof -
  have "a \<in> set (take k (map it order))"
    if k: "k < length order" and a: "a \<in> tree_items t" "item_dep t a (it (order ! k))" for k a
  proof -
    obtain j where j: "j < n" "a = it j" using a(1) item_of_image [of t] by (auto simp: n_def it_def)
    then have "j \<in> set (take k order)" using ord k a(2) by simp
    then show ?thesis using j(2) by (simp add: take_map)
  qed
  moreover have "distinct (map it order)" using assms(3) by (simp add: distinct_map it_def inj_on_subset [OF item_of_inj])
  moreover have "set (map it order) = tree_items t" using assms(4) item_of_image [of t] by (simp add: n_def it_def)
  ultimately show ?thesis by (simp add: dependency_order_def)
qed

lemma topsort_spec:
  assumes wf: "tree_wf t" and fit: "degrees_fit t"
  shows "(\<exists>order. topsorted_blob_order t = Some (Inr order) \<and> dependency_order t order)
    \<or> (\<exists>e. topsorted_blob_order t = Some (Inl e) \<and> ce_total e = card (tree_items t) \<and> ce_sorted e < ce_total e
      \<and> \<not> acyclic (item_graph t))"
proof -
  define n where "n = length (fragments t) + length (commits t)"
  define it where "it = item_of (length (fragments t))"
  let ?E = "{(j, i). j < n \<and> i < n \<and> item_dep t (it j) (it i)}"
  obtain st where st: "dependencies (om_values (fragments t)) (om_values (commits t)) = Some st" "deps_ok n ?E st"
    using dependencies_ok [OF wf fit] unfolding n_def it_def by (elim exE conjE)
  obtain ind deps where "st = (ind, deps)" by (rule prod.exhaust)
  with st have d: "dependencies (om_values (fragments t)) (om_values (commits t)) = Some (ind, deps)"
    and ok: "deps_ok n ?E (ind, deps)" by simp_all
  from kahn_result [OF ok] obtain order where k: "kahn deps (filter (\<lambda>i. ind ! i = 0) [0..<length ind]) ind [] = Some order"
    and dist: "distinct order" and sub: "set order \<subseteq> {..<n}"
    and ord: "\<forall>k < length order. \<forall>j < n. (j, order ! k) \<in> ?E \<longrightarrow> j \<in> set (take k order)"
    and rest: "\<forall>i < n. i \<notin> set order \<longrightarrow> (\<exists>j < n. j \<notin> set order \<and> (j, i) \<in> ?E)"
    by (elim exE conjE)
  have it: "it ` {..<n} = tree_items t" using item_of_image [of t] by (simp add: n_def it_def)
  show ?thesis
  proof (cases "length order = n")
    case True
    then have all: "set order = {..<n}" using distinct_all(2) [OF dist sub] by simp
    have lt: "order ! k < n" if "k < length order" for k using nth_mem [OF that] all by simp
    have "dependency_order t (map it order)"
      unfolding it_def using dist all ord lt by (intro map_item_order) (auto simp: n_def it_def)
    moreover have "topsorted_blob_order t = Some (Inr (map it order))"
      using d k True by (cases "n = 0") (auto simp add: topsorted_blob_order_def Let_def om_values_def item_of_def [abs_def] it_def n_def)
    ultimately show ?thesis by blast
  next
    case False
    then have lt: "length order < n" using distinct_all(1) [OF dist sub] by simp
    then have res: "topsorted_blob_order t = Some (Inl \<lparr>ce_total = n, ce_sorted = length order\<rparr>)"
      using d k False by (auto simp add: topsorted_blob_order_def Let_def om_values_def n_def)
    have "it ` ({..<n} - set order) \<noteq> {}" using False distinct_all(2) [OF dist sub] sub by blast
    moreover have "\<exists>b \<in> it ` ({..<n} - set order). (b, a) \<in> item_graph t" if a: "a \<in> it ` ({..<n} - set order)" for a
    proof -
      obtain i where i: "i < n" "i \<notin> set order" "a = it i" using a by auto
      then obtain j where "j < n" "j \<notin> set order" "item_dep t (it j) (it i)" using rest by auto
      with i it show ?thesis by (auto simp: item_graph_def)
    qed
    ultimately have "\<not> acyclic (item_graph t)" by (rule no_first_cyclic)
    with res lt card_tree_items [of t] show ?thesis by (auto simp: n_def)
  qed
qed

text \<open>An order of all items that respects the dependencies excludes a cycle.\<close>

lemma ordered_acyclic:
  assumes "dependency_order t order"
  shows "acyclic (item_graph t)"
proof -
  have dist: "distinct order" and all: "set order = tree_items t"
    and ord: "\<forall>k < length order. \<forall>a \<in> tree_items t. item_dep t a (order ! k) \<longrightarrow> a \<in> set (take k order)"
    using assms by (simp_all add: dependency_order_def)
  have before: "\<exists>p < q. order ! p = a" if "(a, order ! q) \<in> item_graph t" "q < length order" for a q
  proof -
    have "a \<in> set (take q order)" using that ord by (auto simp: item_graph_def)
    then show ?thesis using that(2) by (auto simp: in_set_conv_nth)
  qed
  have pos: "\<exists>q < length order. order ! q = b" if "(a, b) \<in> item_graph t" for a b
  proof -
    have "b \<in> set order" using that all by (simp add: item_graph_def)
    then show ?thesis by (metis in_set_conv_nth)
  qed
  have less: "\<exists>p q. p < q \<and> q < length order \<and> order ! p = a \<and> order ! q = b" if "(a, b) \<in> (item_graph t)\<^sup>+" for a b
    using that
  proof induction
    case (base b)
    then show ?case using pos before by blast
  next
    case (step b c)
    then obtain p q where pq: "p < q" "q < length order" "order ! p = a" "order ! q = b" by blast
    obtain r where r: "r < length order" "order ! r = c" using pos [OF step(2)] by blast
    then obtain s where s: "s < r" "order ! s = b" using before [of b r] step(2) by blast
    then have "s = q" using pq r(1) nth_eq_iff_index_eq [OF dist, of s q] by simp
    with pq(1) s(1) have "p < r" by simp
    with pq(3) r show ?case by blast
  qed
  have "(a, a) \<notin> (item_graph t)\<^sup>+" for a
    using less [of a a] dist by (auto simp: nth_eq_iff_index_eq)
  then show ?thesis by (simp add: acyclic_def)
qed


section \<open>Properties\<close>

text \<open>C7: \<open>topsorted_blob_order\<close> never panics and never loops on a well-formed tree whose boundary and parent sets fit
  the \<open>u32\<close> counters. It returns an order of all items, without repetition, in which every item comes
  after everything it depends on, exactly when the dependency graph has no cycle.\<close>

theorem topsort_correct:
  assumes "tree_wf t" and "degrees_fit t"
  shows "(acyclic (item_graph t) \<longleftrightarrow> (\<exists>order. topsorted_blob_order t = Some (Inr order)))
    \<and> (\<forall>order. topsorted_blob_order t = Some (Inr order) \<longrightarrow> dependency_order t order)"
  using topsort_spec [OF assms] ordered_acyclic by fastforce

theorem topsort_correct_witness:
  "\<exists>order. topsorted_blob_order sample_tree_min = Some (Inr order) \<and> dependency_order sample_tree_min order"
proof -
  have "degrees_fit sample_tree_min"
    by (simp add: degrees_fit_def sample_tree_min_def tree_fragments_def tree_commits_def om_values_def sample_frag_def
        fragment_from_parts_def fr_boundary_def)
  moreover have "topsorted_blob_order sample_tree_min = Some (Inr [ItemFragment 0, ItemLooseCommit 0])"
    by code_simp
  ultimately show ?thesis using topsort_correct [OF sample_tree_min_wf] by blast
qed

text \<open>C29: On a well-formed tree whose dependency graph has a cycle the sort ends without panic in \<open>CycleError\<close>, which
  reports the number of items and a smaller number of sorted ones.\<close>

theorem topsort_cycle_error:
  assumes "tree_wf t" and "degrees_fit t" and "\<not> acyclic (item_graph t)"
  shows "\<exists>e. topsorted_blob_order t = Some (Inl e) \<and> ce_total e = card (tree_items t) \<and> ce_sorted e < ce_total e"
  using topsort_spec [OF assms(1,2)] assms(3) ordered_acyclic by fastforce


definition sample_cycle :: Sedimentree where
  "sample_cycle = \<lparr>fragments = [(sample_id 1, sample_frag 1 [2] []), (sample_id 2, sample_frag 2 [1] [])], commits = []\<rparr>"

theorem topsort_cycle_error_witness:
  "\<not> acyclic (item_graph sample_cycle)
   \<and> (\<exists>e. topsorted_blob_order sample_cycle = Some (Inl e) \<and> ce_total e = card (tree_items sample_cycle) \<and> ce_sorted e < ce_total e)"
proof -
  have "topsorted_blob_order sample_cycle = Some (Inl \<lparr>ce_total = 2, ce_sorted = 0\<rparr>)"
    by code_simp
  moreover have wf: "tree_wf sample_cycle"
    by (simp add: tree_wf_def sample_cycle_def om_inv_def)
  moreover have fit: "degrees_fit sample_cycle"
    by (simp add: degrees_fit_def sample_cycle_def tree_fragments_def tree_commits_def om_values_def sample_frag_def
        fragment_from_parts_def fr_boundary_def)
  ultimately have cyc: "\<not> acyclic (item_graph sample_cycle)" using topsort_spec by fastforce
  with topsort_cycle_error [OF wf fit cyc] show ?thesis by blast
qed

end
