(* ===== verification/Peer_Time.thy ===== *)
theory Peer_Time
  imports Topsort
begin

text \<open>
  Peer identities, nonces and timestamps: \<^verbatim>\<open>peer/id.rs\<close> and \<^verbatim>\<open>timestamp.rs\<close> of
  \<open>subduction_core\<close>, \<^verbatim>\<open>nonce.rs\<close> of \<open>subduction_crypto\<close>, and the drift correction of
  \<^verbatim>\<open>handshake.rs\<close>. Integers keep their width: \<open>u64\<close> and \<open>i64\<close> are 64 bit words, the
  latter read with \<^const>\<open>sint\<close>. A \<open>Duration\<close> is its number of whole seconds: every duration
  it is compared with here is a whole number of seconds.
\<close>

section \<open>Identities\<close>

datatype PeerId = PeerId (peer_id_bytes: bytes)

datatype Nonce = Nonce (nonce_bytes: bytes)

definition peer_id_from_key :: "VerifyingKey \<Rightarrow> PeerId" where
  "peer_id_from_key key = PeerId key"

instantiation PeerId :: linorder
begin
definition less_eq_PeerId where "a \<le> b \<longleftrightarrow> peer_id_bytes a \<le> peer_id_bytes b"
definition less_PeerId where "a < b \<longleftrightarrow> peer_id_bytes a < peer_id_bytes b"
instance
  by standard (auto simp: less_eq_PeerId_def less_PeerId_def PeerId.expand)
end

instantiation Nonce :: linorder
begin
definition less_eq_Nonce where "a \<le> b \<longleftrightarrow> nonce_bytes a \<le> nonce_bytes b"
definition less_Nonce where "a < b \<longleftrightarrow> nonce_bytes a < nonce_bytes b"
instance
  by standard (auto simp: less_eq_Nonce_def less_Nonce_def Nonce.expand)
end

text \<open>\<open>to_le_bytes\<close> and \<open>from_le_bytes\<close> of \<open>u128\<close> are the big-endian conversions reversed.\<close>

definition nonce_from_u128 :: "128 word \<Rightarrow> Nonce" where
  "nonce_from_u128 v = Nonce (rev (to_be_bytes v))"

definition nonce_as_u128 :: "Nonce \<Rightarrow> 128 word" where
  "nonce_as_u128 n = from_be_bytes (rev (nonce_bytes n))"

lemma nonce_u128_roundtrip: "nonce_as_u128 (nonce_from_u128 v) = v"
  by (simp add: nonce_as_u128_def nonce_from_u128_def from_to_be_bytes)


section \<open>Timestamps\<close>

type_synonym i32 = "32 word"
type_synonym i64 = "64 word"
type_synonym Duration = u64

datatype TimestampSeconds = TimestampSeconds (as_secs: u64)

instantiation TimestampSeconds :: linorder
begin
definition less_eq_TimestampSeconds where "a \<le> b \<longleftrightarrow> as_secs a \<le> as_secs b"
definition less_TimestampSeconds where "a < b \<longleftrightarrow> as_secs a < as_secs b"
instance
  by standard (auto simp: less_eq_TimestampSeconds_def less_TimestampSeconds_def TimestampSeconds.expand)
end

definition saturating_add :: "u64 \<Rightarrow> u64 \<Rightarrow> u64" where
  "saturating_add a b = (if a \<le> - 1 - b then a + b else - 1)"

definition saturating_sub :: "u64 \<Rightarrow> u64 \<Rightarrow> u64" where
  "saturating_sub a b = (if b \<le> a then a - b else 0)"

definition abs_diff :: "TimestampSeconds \<Rightarrow> TimestampSeconds \<Rightarrow> Duration" where
  "abs_diff a b = (if as_secs a \<le> as_secs b then as_secs b - as_secs a else as_secs a - as_secs b)"

text \<open>The difference is exact in \<open>i128\<close>; the cast to \<open>i64\<close> keeps its low 64 bits.\<close>

definition signed_diff :: "TimestampSeconds \<Rightarrow> TimestampSeconds \<Rightarrow> i64" where
  "signed_diff a b = word_of_int (uint (as_secs a) - uint (as_secs b))"

definition add_signed :: "TimestampSeconds \<Rightarrow> i64 \<Rightarrow> TimestampSeconds" where
  "add_signed t offset_secs =
     (if 0 \<le> sint offset_secs then TimestampSeconds (saturating_add (as_secs t) offset_secs)
      else TimestampSeconds (saturating_sub (as_secs t) (- offset_secs)))"

definition timestamp_saturating_sub :: "TimestampSeconds \<Rightarrow> Duration \<Rightarrow> TimestampSeconds" where
  "timestamp_saturating_sub t d = TimestampSeconds (saturating_sub (as_secs t) d)"


section \<open>Drift correction\<close>

definition MAX_PLAUSIBLE_DRIFT :: Duration where
  "MAX_PLAUSIBLE_DRIFT = 600"

record DriftCorrection =
  offset_secs :: i32

definition drift_correction_new :: DriftCorrection where
  "drift_correction_new = \<lparr>offset_secs = 0\<rparr>"

text \<open>\<open>i64::abs\<close> overflows on the least value: \<open>None\<close>, a panic with overflow checks.\<close>

definition i64_abs :: "i64 \<Rightarrow> i64 option" where
  "i64_abs x = (if sint x = - (2 ^ 63) then None else if sint x < 0 then Some (- x) else Some x)"

definition adjust :: "DriftCorrection \<Rightarrow> TimestampSeconds \<Rightarrow> TimestampSeconds \<Rightarrow> (DriftCorrection \<times> bool) option" where
  "adjust dc server_timestamp client_timestamp =
     (let drift = signed_diff server_timestamp client_timestamp;
          max_drift_secs = min (2 ^ 31 - 1) (sint MAX_PLAUSIBLE_DRIFT)
      in case i64_abs drift of
           None \<Rightarrow> None
         | Some a \<Rightarrow>
             if sint a > max_drift_secs then Some (dc, False)
             else Some (dc\<lparr>offset_secs := ucast drift\<rparr>, True))"

definition apply_drift :: "DriftCorrection \<Rightarrow> TimestampSeconds \<Rightarrow> TimestampSeconds" where
  "apply_drift dc t = add_signed t (scast (offset_secs dc))"


section \<open>Lemmas\<close>

lemma unat_saturating_sub: "unat (saturating_sub a b) = unat a - unat b"
  by (auto simp: saturating_sub_def unat_sub word_le_nat_alt)

lemma uint_abs_diff: "uint (abs_diff a b) = \<bar>uint (as_secs a) - uint (as_secs b)\<bar>"
  by (auto simp: abs_diff_def word_le_def uint_sub_if')

lemma abs_diff_commute: "abs_diff a b = abs_diff b a"
  by (rule word_uint_eqI) (simp add: uint_abs_diff)

lemma sint_signed_diff:
  assumes "\<bar>uint (as_secs a) - uint (as_secs b)\<bar> < 2 ^ 63"
  shows "sint (signed_diff a b) = uint (as_secs a) - uint (as_secs b)"
  using assms by (simp add: signed_diff_def signed_of_int signed_take_bit_int_eq_self abs_less_iff del: of_int_diff)

lemma sint_ucast_small:
  assumes "\<bar>sint (x :: i64)\<bar> \<le> 600"
  shows "sint (ucast x :: i32) = sint x" and "scast (ucast x :: i32) = x"
proof -
  show s: "sint (ucast x :: i32) = sint x"
  proof -
    have "sint (ucast x :: i32) = signed_take_bit 31 (uint x)"
      by (simp add: signed_ucast_eq)
    also have "\<dots> = signed_take_bit 31 (sint x)"
      by (simp add: sint_uint [of x] signed_take_bit_signed_take_bit)
    finally have "sint (ucast x :: i32) = signed_take_bit 31 (sint x)" .
    with assms show ?thesis by (simp add: signed_take_bit_int_eq_self abs_le_iff)
  qed
  show "scast (ucast x :: i32) = x"
    by (simp add: scast_eq s)
qed

lemma add_signed_diff:
  assumes "\<bar>uint (as_secs a) - uint (as_secs b)\<bar> < 2 ^ 63"
  shows "add_signed b (signed_diff a b) = a"
proof -
  have d: "signed_diff a b = as_secs a - as_secs b"
    by (simp add: signed_diff_def)
  have s: "sint (signed_diff a b) = uint (as_secs a) - uint (as_secs b)"
    by (rule sint_signed_diff [OF assms])
  show ?thesis
  proof (cases "uint (as_secs b) \<le> uint (as_secs a)")
    case True
    then have "as_secs b \<le> - 1 - (as_secs a - as_secs b)"
      using uint_bounded [of "as_secs a"] by (simp add: word_le_def uint_sub_if' uint_word_ariths)
    with True s d show ?thesis by (cases a) (simp add: add_signed_def saturating_add_def)
  next
    case False
    then have "as_secs b - as_secs a \<le> as_secs b"
      by (simp add: word_le_def uint_sub_if')
    with False s d show ?thesis by (cases a) (simp add: add_signed_def saturating_sub_def)
  qed
qed


lemma i64_abs_sint:
  assumes "sint x \<noteq> - (2 ^ 63)"
  shows "\<exists>a. i64_abs x = Some a \<and> sint a = \<bar>sint x\<bar>"
proof -
  have "- (2 ^ 63) \<le> sint x" using sint_greater_eq [of x] by simp
  with assms have "sint x < 0 \<Longrightarrow> sint (- x) = - sint x"
    by (simp add: sint_word_ariths signed_take_bit_int_eq_self)
  with assms show ?thesis by (auto simp: i64_abs_def)
qed


section \<open>Properties\<close>

text \<open>
  C30: For clocks less than 2^63 seconds apart, \<open>adjust\<close> does not panic, accepts exactly the
  differences of at most \<open>MAX_PLAUSIBLE_DRIFT\<close>, and an accepted correction maps the client's
  timestamp to the server's; a refused one leaves the correction unchanged.
\<close>

theorem drift_adjust_exact:
  assumes "\<bar>uint (as_secs server) - uint (as_secs client)\<bar> < 2 ^ 63"
  shows "\<exists>dc' ok. adjust dc server client = Some (dc', ok)
    \<and> (ok \<longleftrightarrow> abs_diff server client \<le> MAX_PLAUSIBLE_DRIFT)
    \<and> (if ok then apply_drift dc' client = server \<and> \<bar>sint (offset_secs dc')\<bar> \<le> uint MAX_PLAUSIBLE_DRIFT
       else dc' = dc)"
proof -
  let ?d = "signed_diff server client"
  have s: "sint ?d = uint (as_secs server) - uint (as_secs client)"
    by (rule sint_signed_diff [OF assms])
  have "sint ?d \<noteq> - (2 ^ 63)" using assms s by auto
  from i64_abs_sint [OF this] obtain a where a: "i64_abs ?d = Some a" "sint a = \<bar>sint ?d\<bar>" by blast
  have le: "abs_diff server client \<le> MAX_PLAUSIBLE_DRIFT \<longleftrightarrow> \<bar>sint ?d\<bar> \<le> 600"
    unfolding word_le_def uint_abs_diff s by (simp add: MAX_PLAUSIBLE_DRIFT_def)
  have m: "min (2 ^ 31 - 1) (sint MAX_PLAUSIBLE_DRIFT) = 600" "uint MAX_PLAUSIBLE_DRIFT = 600"
    by (simp_all add: MAX_PLAUSIBLE_DRIFT_def)
  show ?thesis
  proof (cases "\<bar>sint ?d\<bar> \<le> 600")
    case True
    then have "adjust dc server client = Some (dc\<lparr>offset_secs := ucast ?d\<rparr>, True)"
      using a unfolding adjust_def Let_def m by simp
    moreover have "apply_drift (dc\<lparr>offset_secs := ucast ?d\<rparr>) client = server"
      using sint_ucast_small(2) [OF True] add_signed_diff [OF assms] by (simp add: apply_drift_def)
    ultimately show ?thesis
      using True le m sint_ucast_small(1) [OF True]
      by (intro exI [of _ "dc\<lparr>offset_secs := ucast ?d\<rparr>"] exI [of _ True]) simp
  next
    case False
    then have "adjust dc server client = Some (dc, False)"
      using a unfolding adjust_def Let_def m by simp
    with False le show ?thesis by (intro exI [of _ dc] exI [of _ False]) simp
  qed
qed

theorem drift_adjust_exact_witness:
  "\<exists>dc' ok. adjust drift_correction_new (TimestampSeconds 1100) (TimestampSeconds 1000) = Some (dc', ok)
    \<and> (ok \<longleftrightarrow> abs_diff (TimestampSeconds 1100) (TimestampSeconds 1000) \<le> MAX_PLAUSIBLE_DRIFT)
    \<and> (if ok then apply_drift dc' (TimestampSeconds 1000) = TimestampSeconds 1100
         \<and> \<bar>sint (offset_secs dc')\<bar> \<le> uint MAX_PLAUSIBLE_DRIFT
       else dc' = drift_correction_new)"
  by (rule drift_adjust_exact) simp

text \<open>
  The cast to \<open>i64\<close> drops the high bits, so that clocks 2^64 - 1 seconds apart look one
  second apart: the bound on plausible drift is passed and an offset of -1 is recorded.
\<close>

lemma drift_adjust_truncates:
  "adjust drift_correction_new (TimestampSeconds (- 1)) (TimestampSeconds 0) = Some (\<lparr>offset_secs = - 1\<rparr>, True)
   \<and> \<not> abs_diff (TimestampSeconds (- 1)) (TimestampSeconds 0) \<le> MAX_PLAUSIBLE_DRIFT"
  by code_simp

end
