(* ===== verification/Simulation.thy ===== *)
theory Simulation
  imports Peer_Time
begin

text \<open>
  Runs of stateful components and their abstract specifications. A component is a step
  function on its state that may panic (\<open>None\<close>) and returns an output; a specification is a
  total step function on an abstract state. The locale \<open>simulation\<close> lifts one simulated step
  to runs.
\<close>

fun run_steps :: "('s \<Rightarrow> 'i \<Rightarrow> ('s \<times> 'o) option) \<Rightarrow> 's \<Rightarrow> 'i list \<Rightarrow> ('s \<times> 'o list) option" where
  "run_steps step s [] = Some (s, [])"
| "run_steps step s (i # is) =
     Option.bind (step s i) (\<lambda>(s, out).
     Option.bind (run_steps step s is) (\<lambda>(s, outs). Some (s, out # outs)))"

fun run_spec :: "('a \<Rightarrow> 'i \<Rightarrow> 'a \<times> 'o) \<Rightarrow> 'a \<Rightarrow> 'i list \<Rightarrow> 'a \<times> 'o list" where
  "run_spec spec a [] = (a, [])"
| "run_spec spec a (i # is) =
     (let (a, out) = spec a i; (a, outs) = run_spec spec a is in (a, out # outs))"

fun run_ok :: "('a \<Rightarrow> 'i \<Rightarrow> 'a \<times> 'o) \<Rightarrow> ('a \<Rightarrow> 'i \<Rightarrow> bool) \<Rightarrow> 'a \<Rightarrow> 'i list \<Rightarrow> bool" where
  "run_ok spec ok a [] \<longleftrightarrow> True"
| "run_ok spec ok a (i # is) \<longleftrightarrow> ok a i \<and> run_ok spec ok (fst (spec a i)) is"

lemma run_steps_append:
  "run_steps step s (xs @ ys) =
     Option.bind (run_steps step s xs) (\<lambda>(s, outs).
     Option.bind (run_steps step s ys) (\<lambda>(s, outs'). Some (s, outs @ outs')))"
proof (induction xs arbitrary: s)
  case Nil
  show ?case by (cases "run_steps step s ys") auto
next
  case (Cons x xs)
  then show ?case by (cases "step s x") (auto split: Option.bind_splits)
qed

lemma run_steps_length: "run_steps step s xs = Some (s', outs) \<Longrightarrow> length outs = length xs"
  by (induction xs arbitrary: s s' outs) (auto split: Option.bind_splits)

text \<open>
  \<open>rel\<close> relates the abstract state to the concrete one; \<open>ok\<close> says which inputs the
  specification covers in a state.
\<close>

locale simulation =
  fixes step :: "'s \<Rightarrow> 'i \<Rightarrow> ('s \<times> 'o) option"
    and spec :: "'a \<Rightarrow> 'i \<Rightarrow> 'a \<times> 'o"
    and rel :: "'a \<Rightarrow> 's \<Rightarrow> bool"
    and ok :: "'a \<Rightarrow> 'i \<Rightarrow> bool"
  assumes step_sim: "rel a s \<Longrightarrow> ok a i \<Longrightarrow>
    \<exists>s'. step s i = Some (s', snd (spec a i)) \<and> rel (fst (spec a i)) s'"
begin

lemma run_sim:
  assumes "rel a s" and "run_ok spec ok a is"
  shows "\<exists>s'. run_steps step s is = Some (s', snd (run_spec spec a is)) \<and> rel (fst (run_spec spec a is)) s'"
  using assms
proof (induction "is" arbitrary: a s)
  case (Cons i "is")
  obtain s1 where s1: "step s i = Some (s1, snd (spec a i))" "rel (fst (spec a i)) s1"
    using step_sim [of a s i] Cons.prems by auto
  obtain s2 where "run_steps step s1 is = Some (s2, snd (run_spec spec (fst (spec a i)) is))"
    "rel (fst (run_spec spec (fst (spec a i)) is)) s2"
    using Cons.IH [OF s1(2)] Cons.prems(2) by auto
  with s1 show ?case by (simp add: Let_def split_def)
qed simp

end

end
