(* ===== verification/Nonce_Cache.thy ===== *)
theory Nonce_Cache
  imports Simulation
begin

text \<open>
  Replay protection, \<^verbatim>\<open>subduction_core/src/nonce_cache.rs\<close>: a ring of four time buckets that
  hold the pairs of peer and nonce of accepted handshakes. The mutex makes each claim one
  step. A panic (the division by a zero bucket duration) is the value \<open>None\<close>.
\<close>

section \<open>The cache\<close>

datatype NonceReused = NonceReused

type_synonym nonce_key = "PeerId \<times> Nonce"

definition DEFAULT_BUCKET_DURATION :: Duration where
  "DEFAULT_BUCKET_DURATION = 180"

definition BUCKET_COUNT :: usize where
  "BUCKET_COUNT = 4"

record NonceCacheInner =
  nci_buckets :: "nonce_key set list"
  nci_head :: u64

record NonceCache =
  nc_inner :: NonceCacheInner
  nc_bucket_duration_secs :: u64

definition nonce_cache_new :: "Duration \<Rightarrow> NonceCache" where
  "nonce_cache_new bucket_duration =
     \<lparr>nc_inner = \<lparr>nci_buckets = replicate BUCKET_COUNT {}, nci_head = 0\<rparr>,
      nc_bucket_duration_secs = bucket_duration\<rparr>"

definition nonce_cache_default :: NonceCache where
  "nonce_cache_default = nonce_cache_new DEFAULT_BUCKET_DURATION"

definition bucket_number :: "NonceCache \<Rightarrow> TimestampSeconds \<Rightarrow> u64 option" where
  "bucket_number self ts =
     (if nc_bucket_duration_secs self = 0 then None else Some (as_secs ts div nc_bucket_duration_secs self))"

definition bucket_index :: "u64 \<Rightarrow> usize" where
  "bucket_index bucket_num = unat (bucket_num mod of_nat BUCKET_COUNT)"

lemma unat_succ_less:
  assumes "h < (b :: u64)"
  shows "unat (h + 1) = unat h + 1"
proof -
  have "unat h < unat b" using assms by (simp add: word_less_nat_alt)
  moreover have "unat b < 2 ^ 64" using unsigned_less [of b] by simp
  ultimately show ?thesis by (simp add: unat_word_ariths)
qed

text \<open>The loop of \<open>advance_head\<close>.\<close>

function advance_loop :: "u64 \<Rightarrow> NonceCacheInner \<Rightarrow> NonceCacheInner" where
  "advance_loop oldest_valid inner =
     (if nci_head inner < oldest_valid
      then advance_loop oldest_valid
        \<lparr>nci_buckets = (nci_buckets inner)[bucket_index (nci_head inner) := {}], nci_head = nci_head inner + 1\<rparr>
      else inner)"
  by pat_completeness auto
termination
  by (relation "measure (\<lambda>(oldest_valid, inner). unat oldest_valid - unat (nci_head inner))")
    (auto simp: unat_succ_less word_less_nat_alt [symmetric] intro!: diff_less_mono2)

definition advance_head :: "NonceCacheInner \<Rightarrow> u64 \<Rightarrow> NonceCacheInner" where
  "advance_head inner current_bucket =
     (let oldest_valid = saturating_sub current_bucket (of_nat BUCKET_COUNT - 1)
      in advance_loop oldest_valid inner)"

definition try_claim :: "NonceCache \<Rightarrow> PeerId \<Rightarrow> Nonce \<Rightarrow> TimestampSeconds
    \<Rightarrow> (NonceCache \<times> (NonceReused + unit)) option" where
  "try_claim self peer nonce timestamp =
     Option.bind (bucket_number self timestamp) (\<lambda>bucket_num.
       let key = (peer, nonce);
           inner = advance_head (nc_inner self) bucket_num
       in if list_ex (\<lambda>bucket. key \<in> bucket) (nci_buckets inner)
          then Some (self\<lparr>nc_inner := inner\<rparr>, Inl NonceReused)
          else
            let idx = bucket_index bucket_num in
            if idx < length (nci_buckets inner)
            then Some (self\<lparr>nc_inner := inner\<lparr>nci_buckets :=
                   (nci_buckets inner)[idx := insert key (nci_buckets inner ! idx)]\<rparr>\<rparr>, Inr ())
            else None)"

text \<open>A claim as a step of a run.\<close>

definition claim_step :: "NonceCache \<Rightarrow> PeerId \<times> Nonce \<times> TimestampSeconds
    \<Rightarrow> (NonceCache \<times> (NonceReused + unit)) option" where
  "claim_step self = (\<lambda>(peer, nonce, timestamp). try_claim self peer nonce timestamp)"

lemma claim_step_simp [simp]: "claim_step self (peer, nonce, ts) = try_claim self peer nonce ts"
  by (simp add: claim_step_def)


section \<open>The ring\<close>

declare advance_loop.simps [simp del]

lemma bucket_index_nat: "bucket_index b = unat b mod 4"
  by (simp add: bucket_index_def BUCKET_COUNT_def unat_mod)

lemma bucket_index_less [simp]: "bucket_index b < 4"
  by (simp add: bucket_index_nat)

lemma advance_loop_spec:
  assumes "length (nci_buckets inner) = 4"
  shows "unat (nci_head (advance_loop old inner)) = max (unat (nci_head inner)) (unat old)
    \<and> length (nci_buckets (advance_loop old inner)) = 4
    \<and> (\<forall>i < 4. nci_buckets (advance_loop old inner) ! i =
        (if \<exists>h. unat (nci_head inner) \<le> h \<and> h < unat old \<and> h mod 4 = i then {} else nci_buckets inner ! i))"
  using assms
proof (induction old inner rule: advance_loop.induct)
  case (1 old inner)
  let ?next = "\<lparr>nci_buckets = (nci_buckets inner)[bucket_index (nci_head inner) := {}], nci_head = nci_head inner + 1\<rparr>"
  let ?h = "unat (nci_head inner)"
  show ?case
  proof (cases "nci_head inner < old")
    case True
    then have h: "?h < unat old" "unat (nci_head inner + 1) = ?h + 1"
      by (simp_all add: word_less_nat_alt unat_succ_less)
    have iff: "(\<exists>g. ?h \<le> g \<and> g < unat old \<and> g mod 4 = i)
        \<longleftrightarrow> ?h mod 4 = i \<or> (\<exists>g. ?h + 1 \<le> g \<and> g < unat old \<and> g mod 4 = i)" for i
      using h(1) by (metis Suc_eq_plus1 Suc_leI Suc_le_lessD le_eq_less_or_eq)
    have len: "length (nci_buckets ?next) = 4" using 1(2) by simp
    note IH = 1(1) [OF True len, unfolded NonceCacheInner.select_convs h(2)]
    have step: "advance_loop old inner = advance_loop old ?next"
      using True by (simp add: advance_loop.simps [of old inner])
    show ?thesis
      unfolding step iff using IH h(1) 1(2) by (auto simp: bucket_index_nat nth_list_update)
  next
    case False
    then have "unat old \<le> ?h" by (simp add: word_less_nat_alt)
    moreover have "advance_loop old inner = inner"
      using False by (simp add: advance_loop.simps [of old inner])
    ultimately show ?thesis using 1(2) by (auto simp: max_def)
  qed
qed


section \<open>What the cache remembers\<close>

text \<open>
  A log lists the accepted claims with their times in seconds. \<open>claims_kept\<close>: a logged claim
  whose bucket number the head has not passed is in its bucket. \<open>claims_only\<close>: nothing else
  is in a bucket.
\<close>

type_synonym claim_log = "(nonce_key \<times> nat) list"

definition cache_head :: "NonceCache \<Rightarrow> nat" where
  "cache_head c = unat (nci_head (nc_inner c))"

definition cache_bucket :: "NonceCache \<Rightarrow> nat \<Rightarrow> nonce_key set" where
  "cache_bucket c i = nci_buckets (nc_inner c) ! i"

definition cache_shape :: "Duration \<Rightarrow> NonceCache \<Rightarrow> bool" where
  "cache_shape d c \<longleftrightarrow> nc_bucket_duration_secs c = d \<and> d \<noteq> 0 \<and> length (nci_buckets (nc_inner c)) = 4"

definition claims_kept :: "Duration \<Rightarrow> claim_log \<Rightarrow> NonceCache \<Rightarrow> bool" where
  "claims_kept d log c \<longleftrightarrow> (\<forall>k t. (k, t) \<in> set log \<longrightarrow>
     t div unat d \<le> cache_head c + 3 \<and>
     (cache_head c \<le> t div unat d \<longrightarrow> k \<in> cache_bucket c (t div unat d mod 4)))"

definition claims_only :: "Duration \<Rightarrow> claim_log \<Rightarrow> NonceCache \<Rightarrow> bool" where
  "claims_only d log c \<longleftrightarrow> (\<forall>i < 4. \<forall>k \<in> cache_bucket c i. \<exists>t. (k, t) \<in> set log
     \<and> cache_head c \<le> t div unat d \<and> t div unat d mod 4 = i)"

lemma four_residues:
  assumes "h \<le> (g::nat)" and "g < n" and "n \<le> h + 3"
  shows "g mod 4 \<noteq> n mod 4"
proof
  assume "g mod 4 = n mod 4"
  then have "4 dvd n - g" using assms(2) mod_eq_dvd_iff_nat [of g n 4] by simp
  then have "4 \<le> n - g" using assms(2) by (intro dvd_imp_le) simp_all
  with assms show False by simp
qed

definition advanced :: "NonceCache \<Rightarrow> u64 \<Rightarrow> NonceCache" where
  "advanced c b = c\<lparr>nc_inner := advance_head (nc_inner c) b\<rparr>"

lemma advanced_head:
  assumes "cache_shape d c"
  shows "cache_shape d (advanced c b)"
    and "cache_head (advanced c b) = max (cache_head c) (unat b - 3)"
    and "i < 4 \<Longrightarrow> cache_bucket (advanced c b) i =
      (if \<exists>h. cache_head c \<le> h \<and> h < unat b - 3 \<and> h mod 4 = i then {} else cache_bucket c i)"
proof -
  have old: "unat (saturating_sub b (of_nat BUCKET_COUNT - 1)) = unat b - 3"
    by (simp add: unat_saturating_sub BUCKET_COUNT_def)
  have len: "length (nci_buckets (nc_inner c)) = 4" using assms by (simp add: cache_shape_def)
  note spec = advance_loop_spec [OF len, of "saturating_sub b (of_nat BUCKET_COUNT - 1)", unfolded old]
  show "cache_shape d (advanced c b)"
    using assms spec by (simp add: cache_shape_def advanced_def advance_head_def Let_def)
  show "cache_head (advanced c b) = max (cache_head c) (unat b - 3)"
    using spec by (simp add: cache_head_def advanced_def advance_head_def Let_def)
  show "i < 4 \<Longrightarrow> cache_bucket (advanced c b) i =
      (if \<exists>h. cache_head c \<le> h \<and> h < unat b - 3 \<and> h mod 4 = i then {} else cache_bucket c i)"
    using spec unfolding cache_head_def cache_bucket_def advanced_def advance_head_def Let_def
      NonceCache.select_convs NonceCache.update_convs by auto
qed

lemma advanced_claims_kept:
  assumes "cache_shape d c" and "claims_kept d log c"
  shows "claims_kept d log (advanced c b)"
  unfolding claims_kept_def
proof (intro allI impI conjI)
  fix k t assume kt: "(k, t) \<in> set log"
  let ?n = "t div unat d"
  have n: "?n \<le> cache_head c + 3" and b: "cache_head c \<le> ?n \<Longrightarrow> k \<in> cache_bucket c (?n mod 4)"
    using assms(2) kt unfolding claims_kept_def by blast+
  show "?n \<le> cache_head (advanced c b) + 3"
    using n advanced_head(2) [OF assms(1)] by simp
  assume le: "cache_head (advanced c b) \<le> ?n"
  then have "cache_head c \<le> ?n" "unat b - 3 \<le> ?n"
    using advanced_head(2) [OF assms(1), of b] by simp_all
  moreover from this have "\<not> (\<exists>h. cache_head c \<le> h \<and> h < unat b - 3 \<and> h mod 4 = ?n mod 4)"
    using four_residues [OF _ _ n] by (meson less_le_trans)
  ultimately show "k \<in> cache_bucket (advanced c b) (?n mod 4)"
    using b advanced_head(3) [OF assms(1), of "?n mod 4" b] by simp
qed

lemma advanced_claims_only:
  assumes "cache_shape d c" and "claims_only d log c" and "claims_kept d log c"
  shows "claims_only d log (advanced c b)"
  unfolding claims_only_def
proof (intro allI impI ballI)
  fix i k assume i: "(i::nat) < 4" and k: "k \<in> cache_bucket (advanced c b) i"
  have nh: "\<not> (\<exists>h. cache_head c \<le> h \<and> h < unat b - 3 \<and> h mod 4 = i)" and "k \<in> cache_bucket c i"
    using k advanced_head(3) [OF assms(1) i, of b] by (auto split: if_splits)
  then obtain t where t: "(k, t) \<in> set log" "cache_head c \<le> t div unat d" "t div unat d mod 4 = i"
    using assms(2) i unfolding claims_only_def by blast
  have "\<not> t div unat d < unat b - 3" using nh t(2,3) by blast
  then have "unat b - 3 \<le> t div unat d" by simp
  with t show "\<exists>t. (k, t) \<in> set log \<and> cache_head (advanced c b) \<le> t div unat d \<and> t div unat d mod 4 = i"
    using advanced_head(2) [OF assms(1), of b] by auto
qed

text \<open>One claim at bucket \<open>b\<close>, by cases on whether the advanced cache knows the key.\<close>

definition inserted :: "NonceCache \<Rightarrow> u64 \<Rightarrow> nonce_key \<Rightarrow> NonceCache" where
  "inserted c b k = c\<lparr>nc_inner := (nc_inner c)\<lparr>nci_buckets :=
     (nci_buckets (nc_inner c))[bucket_index b := insert k (cache_bucket c (bucket_index b))]\<rparr>\<rparr>"

lemma try_claim_cases:
  assumes "cache_shape d c" and "b = as_secs ts div d"
  shows "try_claim c p n ts =
    (if \<exists>i < 4. (p, n) \<in> cache_bucket (advanced c b) i then Some (advanced c b, Inl NonceReused)
     else Some (inserted (advanced c b) b (p, n), Inr ()))"
proof -
  have num: "bucket_number c ts = Some b"
    using assms by (simp add: bucket_number_def cache_shape_def)
  have len: "length (nci_buckets (advance_head (nc_inner c) b)) = 4"
    using advanced_head(1) [OF assms(1), of b] by (simp add: cache_shape_def advanced_def)
  have ex: "list_ex (\<lambda>bucket. (p, n) \<in> bucket) (nci_buckets (advance_head (nc_inner c) b))
      \<longleftrightarrow> (\<exists>i < 4. (p, n) \<in> cache_bucket (advanced c b) i)"
    by (simp add: list_ex_iff cache_bucket_def advanced_def) (metis in_set_conv_nth len)
  show ?thesis
    using len unfolding try_claim_def num Option.bind.bind_lunit Let_def ex
    by (simp add: inserted_def advanced_def cache_bucket_def)
qed

lemma inserted_facts:
  assumes "cache_shape d c"
  shows "cache_shape d (inserted c b k)" and "cache_head (inserted c b k) = cache_head c"
    and "i < 4 \<Longrightarrow> cache_bucket (inserted c b k) i =
      (if i = unat b mod 4 then insert k (cache_bucket c i) else cache_bucket c i)"
  using assms by (auto simp: cache_shape_def inserted_def cache_head_def cache_bucket_def bucket_index_nat
      nth_list_update)

lemma inserted_claims_kept:
  assumes "cache_shape d c" and "claims_kept d log c" and "unat b = t div unat d" and "unat b \<le> cache_head c + 3"
  shows "claims_kept d ((k, t) # log) (inserted c b k)"
  unfolding claims_kept_def
proof (intro allI impI)
  fix j t' assume "(j, t') \<in> set ((k, t) # log)"
  then consider "j = k" "t' = t" | "(j, t') \<in> set log" by auto
  then show "t' div unat d \<le> cache_head (inserted c b k) + 3
    \<and> (cache_head (inserted c b k) \<le> t' div unat d \<longrightarrow> j \<in> cache_bucket (inserted c b k) (t' div unat d mod 4))"
  proof cases
    case 1
    then show ?thesis using assms(3,4) inserted_facts(2,3) [OF assms(1)] by simp
  next
    case 2
    then have "t' div unat d \<le> cache_head c + 3"
      "cache_head c \<le> t' div unat d \<Longrightarrow> j \<in> cache_bucket c (t' div unat d mod 4)"
      using assms(2) unfolding claims_kept_def by blast+
    moreover have "cache_bucket c (t' div unat d mod 4) \<subseteq> cache_bucket (inserted c b k) (t' div unat d mod 4)"
      using inserted_facts(3) [OF assms(1), of "t' div unat d mod 4" b k] by auto
    ultimately show ?thesis unfolding inserted_facts(2) [OF assms(1)] by blast
  qed
qed

lemma inserted_claims_only:
  assumes "cache_shape d c" and "claims_only d log c" and "unat b = t div unat d" and "cache_head c \<le> unat b"
  shows "claims_only d ((k, t) # log) (inserted c b k)"
  unfolding claims_only_def
proof (intro allI impI ballI)
  fix i j assume i: "(i::nat) < 4" and j: "j \<in> cache_bucket (inserted c b k) i"
  show "\<exists>t'. (j, t') \<in> set ((k, t) # log) \<and> cache_head (inserted c b k) \<le> t' div unat d \<and> t' div unat d mod 4 = i"
  proof (cases "j \<in> cache_bucket c i")
    case True
    then obtain t' where "(j, t') \<in> set log" "cache_head c \<le> t' div unat d" "t' div unat d mod 4 = i"
      using assms(2) i unfolding claims_only_def by blast
    then show ?thesis
      unfolding inserted_facts(2) [OF assms(1)] by (intro exI [of _ t']) simp
  next
    case False
    then have "j = k" "i = unat b mod 4"
      using j inserted_facts(3) [OF assms(1) i, of b k] by (simp_all split: if_splits)
    then show ?thesis
      unfolding inserted_facts(2) [OF assms(1)] using assms(3,4) by (intro exI [of _ t]) simp
  qed
qed


section \<open>The window specification\<close>

text \<open>
  The abstract state is the time of the last claim and the log. A pair is refused exactly when
  it was accepted at most three buckets ago. Claims come in the order of the clock.
\<close>

definition window_spec :: "Duration \<Rightarrow> nat \<times> claim_log \<Rightarrow> PeerId \<times> Nonce \<times> TimestampSeconds
    \<Rightarrow> (nat \<times> claim_log) \<times> (NonceReused + unit)" where
  "window_spec d = (\<lambda>(now, log) (peer, nonce, ts).
     let t = unat (as_secs ts); key = (peer, nonce) in
     if list_ex (\<lambda>(k, t0). k = key \<and> t div unat d \<le> t0 div unat d + 3) log
     then ((t, log), Inl NonceReused)
     else ((t, (key, t) # log), Inr ()))"

definition clock_ok :: "nat \<times> claim_log \<Rightarrow> PeerId \<times> Nonce \<times> TimestampSeconds \<Rightarrow> bool" where
  "clock_ok = (\<lambda>(now, log) (peer, nonce, ts). now \<le> unat (as_secs ts))"

definition window_rel :: "Duration \<Rightarrow> nat \<times> claim_log \<Rightarrow> NonceCache \<Rightarrow> bool" where
  "window_rel d = (\<lambda>(now, log) c. cache_shape d c \<and> claims_kept d log c \<and> claims_only d log c
     \<and> cache_head c = now div unat d - 3)"

lemma key_known_iff:
  assumes "cache_shape d c" and "claims_kept d log c" and "claims_only d log c"
  shows "(\<exists>i < 4. k \<in> cache_bucket c i) \<longleftrightarrow> (\<exists>t0. (k, t0) \<in> set log \<and> cache_head c \<le> t0 div unat d)"
proof
  assume "\<exists>i < 4. k \<in> cache_bucket c i"
  then show "\<exists>t0. (k, t0) \<in> set log \<and> cache_head c \<le> t0 div unat d"
    using assms(3) unfolding claims_only_def by blast
next
  assume "\<exists>t0. (k, t0) \<in> set log \<and> cache_head c \<le> t0 div unat d"
  then obtain t0 where "k \<in> cache_bucket c (t0 div unat d mod 4)"
    using assms(2) unfolding claims_kept_def by blast
  then show "\<exists>i < 4. k \<in> cache_bucket c i"
    by (intro exI [of _ "t0 div unat d mod 4"]) simp
qed

lemma claim_step_sim:
  assumes rel: "window_rel d (now, log) c" and ok: "clock_ok (now, log) (p, n, ts)"
  shows "\<exists>c'. claim_step c (p, n, ts) = Some (c', snd (window_spec d (now, log) (p, n, ts)))
    \<and> window_rel d (fst (window_spec d (now, log) (p, n, ts))) c'"
proof -
  let ?t = "unat (as_secs ts)" and ?b = "as_secs ts div d"
  have inv: "cache_shape d c" "claims_kept d log c" "claims_only d log c" "cache_head c = now div unat d - 3"
    using rel by (auto simp: window_rel_def)
  have b: "unat ?b = ?t div unat d" by (simp add: unat_div)
  let ?c = "advanced c ?b"
  have "now div unat d \<le> ?t div unat d"
    using ok by (simp add: clock_ok_def div_le_mono)
  then have head: "cache_head ?c = ?t div unat d - 3"
    using advanced_head(2) [OF inv(1), of ?b] inv(4) b by simp
  note adv = advanced_head(1) [OF inv(1), of ?b] advanced_claims_kept [OF inv(1,2), of ?b]
    advanced_claims_only [OF inv(1,3,2), of ?b]
  have known: "(\<exists>i < 4. (p, n) \<in> cache_bucket ?c i)
      \<longleftrightarrow> list_ex (\<lambda>(k, t0). k = (p, n) \<and> ?t div unat d \<le> t0 div unat d + 3) log"
    unfolding key_known_iff [OF adv] list_ex_iff head by (auto simp: le_diff_conv)
  note step = try_claim_cases [OF inv(1) refl, of p n ts, unfolded known]
  show ?thesis
  proof (cases "list_ex (\<lambda>(k, t0). k = (p, n) \<and> ?t div unat d \<le> t0 div unat d + 3) log")
    case True
    then show ?thesis
      using step adv head by (simp add: window_spec_def window_rel_def Let_def)
  next
    case False
    have "unat ?b \<le> cache_head ?c + 3" "cache_head ?c \<le> unat ?b" using b head by simp_all
    then have "claims_kept d (((p, n), ?t) # log) (inserted ?c ?b (p, n))"
      "claims_only d (((p, n), ?t) # log) (inserted ?c ?b (p, n))"
      using inserted_claims_kept [OF adv(1,2) b] inserted_claims_only [OF adv(1,3) b] by blast+
    with False show ?thesis
      using step inserted_facts(1,2) [OF adv(1)] head
      by (simp add: window_spec_def window_rel_def Let_def)
  qed
qed

interpretation claims: simulation claim_step "window_spec d" "window_rel d" clock_ok
proof unfold_locales
  fix a :: "nat \<times> claim_log" and c :: NonceCache and i :: "PeerId \<times> Nonce \<times> TimestampSeconds"
  assume "window_rel d a c" and "clock_ok a i"
  then show "\<exists>c'. claim_step c i = Some (c', snd (window_spec d a i)) \<and> window_rel d (fst (window_spec d a i)) c'"
    using claim_step_sim [of d "fst a" "snd a" c "fst i" "fst (snd i)" "snd (snd i)"] by simp
qed

lemma window_rel_new: "d \<noteq> 0 \<Longrightarrow> window_rel d (0, []) (nonce_cache_new d)"
  by (simp add: window_rel_def cache_shape_def claims_kept_def claims_only_def nonce_cache_new_def
      cache_head_def cache_bucket_def BUCKET_COUNT_def nth_replicate)

lemma run_ok_sorted:
  "run_ok (window_spec d) clock_ok (now, log) reqs \<longleftrightarrow> sorted (now # map (\<lambda>(_, _, ts). unat (as_secs ts)) reqs)"
proof (induction reqs arbitrary: now log)
  case (Cons r reqs)
  obtain p n ts where r: "r = (p, n, ts)" by (cases r)
  have f: "fst (window_spec d (now, log) r) = (unat (as_secs ts), snd (fst (window_spec d (now, log) r)))"
    by (simp add: r window_spec_def Let_def)
  have "run_ok (window_spec d) clock_ok (now, log) (r # reqs)
      \<longleftrightarrow> now \<le> unat (as_secs ts) \<and> sorted (unat (as_secs ts) # map (\<lambda>(_, _, ts). unat (as_secs ts)) reqs)"
    unfolding run_ok.simps by (subst f, unfold Cons.IH) (simp add: r clock_ok_def)
  then show ?case by (auto simp: r)
qed simp


section \<open>Any order of timestamps\<close>

lemma try_claim_kept:
  assumes "cache_shape d c" and "claims_kept d log c" and "try_claim c p n ts = Some (c', r)"
  shows "\<exists>log'. set log \<subseteq> set log' \<and> cache_shape d c' \<and> claims_kept d log' c'
    \<and> cache_head c' = max (cache_head c) (unat (as_secs ts) div unat d - 3)
    \<and> (r = Inr () \<longrightarrow> ((p, n), unat (as_secs ts)) \<in> set log')"
proof -
  let ?t = "unat (as_secs ts)" and ?b = "as_secs ts div d"
  let ?c = "advanced c ?b"
  have b: "unat ?b = ?t div unat d" by (simp add: unat_div)
  have head: "cache_head ?c = max (cache_head c) (?t div unat d - 3)"
    using advanced_head(2) [OF assms(1), of ?b] b by simp
  note adv = advanced_head(1) [OF assms(1), of ?b] advanced_claims_kept [OF assms(1,2), of ?b]
  consider "c' = ?c" "r = Inl NonceReused" | "c' = inserted ?c ?b (p, n)" "r = Inr ()"
    using try_claim_cases [OF assms(1) refl, of p n ts] assms(3) by (auto split: if_splits)
  then show ?thesis
  proof cases
    case 1
    then show ?thesis using adv head by (intro exI [of _ log]) simp
  next
    case 2
    have "unat ?b \<le> cache_head ?c + 3" using b head by simp
    then have "claims_kept d (((p, n), ?t) # log) (inserted ?c ?b (p, n))"
      by (rule inserted_claims_kept [OF adv b])
    with 2 show ?thesis
      using inserted_facts(1,2) [OF adv(1), of ?b "(p, n)"] head
      by (intro exI [of _ "((p, n), ?t) # log"]) auto
  qed
qed

lemma run_kept:
  assumes "cache_shape d c" and "claims_kept d log c" and "cache_head c \<le> m"
    and "\<forall>(p, n, ts) \<in> set reqs. unat (as_secs ts) div unat d \<le> m + 3"
    and "run_steps claim_step c reqs = Some (c', outs)"
  shows "\<exists>log'. set log \<subseteq> set log' \<and> cache_shape d c' \<and> claims_kept d log' c' \<and> cache_head c' \<le> m"
  using assms
proof (induction reqs arbitrary: c log outs)
  case (Cons r reqs)
  obtain p n ts where r: "r = (p, n, ts)" by (cases r)
  from Cons.prems(5) obtain c1 o1 outs1 where
    c1: "try_claim c p n ts = Some (c1, o1)" and rest: "run_steps claim_step c1 reqs = Some (c', outs1)"
    by (auto simp: r split: Option.bind_splits)
  obtain log1 where log1: "set log \<subseteq> set log1" "cache_shape d c1" "claims_kept d log1 c1"
    "cache_head c1 = max (cache_head c) (unat (as_secs ts) div unat d - 3)"
    using try_claim_kept [OF Cons.prems(1,2) c1] by blast
  have "cache_head c1 \<le> m" using log1(4) Cons.prems(3,4) by (auto simp: r)
  moreover have "\<forall>(p, n, ts) \<in> set reqs. unat (as_secs ts) div unat d \<le> m + 3"
    using Cons.prems(4) by simp
  ultimately show ?case using Cons.IH [OF log1(2,3) _ _ rest] log1(1) by blast
qed auto

lemma within_window: "t' \<le> t + 3 * d \<Longrightarrow> t' div d \<le> t div d + 3" for d :: nat
proof (cases "d = 0")
  case False
  assume "t' \<le> t + 3 * d"
  then have "t' div d \<le> (t + 3 * d) div d" by (rule div_le_mono)
  also have "\<dots> = t div d + 3" using False by simp
  finally show ?thesis .
qed simp


section \<open>Properties\<close>

text \<open>
  C6: Refinement. On claims in clock order the cache answers exactly as the window
  specification: a pair of peer and nonce is refused if and only if it was accepted in the
  bucket of the claim or in one of the three buckets before. It never panics.
\<close>

theorem nonce_cache_window:
  assumes "d \<noteq> 0" and "sorted (map (\<lambda>(_, _, ts). unat (as_secs ts)) reqs)"
  shows "\<exists>c. run_steps claim_step (nonce_cache_new d) reqs
    = Some (c, snd (run_spec (window_spec d) (0, []) reqs))"
proof -
  have "run_ok (window_spec d) clock_ok (0, []) reqs"
    using assms(2) unfolding run_ok_sorted by simp
  from claims.run_sim [OF window_rel_new [OF assms(1)] this] show ?thesis by blast
qed

theorem nonce_cache_window_witness:
  "\<exists>c. run_steps claim_step (nonce_cache_new 180)
      (map (\<lambda>t. (PeerId [1], Nonce [2], TimestampSeconds t)) [100, 100, 719, 720])
    = Some (c, [Inr (), Inl NonceReused, Inl NonceReused, Inr ()])"
  using nonce_cache_window [of 180 "map (\<lambda>t. (PeerId [1], Nonce [2], TimestampSeconds t)) [100, 100, 719, 720]"]
  by (simp add: window_spec_def Let_def)

text \<open>
  C31: Safety. Once a pair is accepted at time \<open>ts\<close>, it is refused as long as no claim carries a
  timestamp more than three bucket durations after \<open>ts\<close>, in whatever order the timestamps of
  the other claims come.
\<close>

theorem nonce_replay_rejected:
  assumes "d \<noteq> 0"
    and "run_steps claim_step (nonce_cache_new d) before = Some (c0, outs0)"
    and "try_claim c0 peer nonce ts = Some (c1, Inr ())"
    and "run_steps claim_step c1 later = Some (c2, outs)"
    and "\<forall>(_, _, ts') \<in> set (before @ later @ [(peer, nonce, again)]).
      unat (as_secs ts') \<le> unat (as_secs ts) + 3 * unat d"
  shows "\<exists>c3. try_claim c2 peer nonce again = Some (c3, Inl NonceReused)"
proof -
  let ?m = "unat (as_secs ts) div unat d"
  have w: "\<forall>(_, _, ts') \<in> set (before @ later @ [(peer, nonce, again)]). unat (as_secs ts') div unat d \<le> ?m + 3"
    using assms(5) within_window by fastforce
  have new: "cache_shape d (nonce_cache_new d)" "claims_kept d [] (nonce_cache_new d)"
    "cache_head (nonce_cache_new d) \<le> ?m"
    using window_rel_new [OF assms(1)] by (auto simp: window_rel_def)
  obtain log0 where log0: "cache_shape d c0" "claims_kept d log0 c0" "cache_head c0 \<le> ?m"
    using run_kept [OF new _ assms(2)] w by auto
  obtain log1 where log1: "cache_shape d c1" "claims_kept d log1 c1" "cache_head c1 \<le> ?m"
    "((peer, nonce), unat (as_secs ts)) \<in> set log1"
    using try_claim_kept [OF log0(1,2) assms(3)] log0(3) by auto
  obtain log2 where log2: "cache_shape d c2" "claims_kept d log2 c2" "cache_head c2 \<le> ?m"
    "((peer, nonce), unat (as_secs ts)) \<in> set log2"
    using run_kept [OF log1(1-3) _ assms(4)] w log1(4) by auto
  let ?b = "as_secs again div d"
  let ?c = "advanced c2 ?b"
  have "unat ?b \<le> ?m + 3" using w by (simp add: unat_div)
  then have "cache_head ?c \<le> ?m" using advanced_head(2) [OF log2(1), of ?b] log2(3) by simp
  then have "(peer, nonce) \<in> cache_bucket ?c (?m mod 4)"
    using advanced_claims_kept [OF log2(1,2), of ?b] log2(4) unfolding claims_kept_def by blast
  then have "\<exists>i < 4. (peer, nonce) \<in> cache_bucket ?c i"
    by (intro exI [of _ "?m mod 4"]) simp
  then show ?thesis
    using try_claim_cases [OF log2(1) refl, of peer nonce again] by simp
qed

definition sample_cache :: "nonce_key set \<Rightarrow> NonceCache" where
  "sample_cache ks = \<lparr>nc_inner = \<lparr>nci_buckets = [ks, {}, {}, {}], nci_head = 0\<rparr>, nc_bucket_duration_secs = 180\<rparr>"

lemma sample_claims:
  "try_claim (nonce_cache_new 180) (PeerId [1]) (Nonce [2]) (TimestampSeconds 100)
    = Some (sample_cache {(PeerId [1], Nonce [2])}, Inr ())"
  "run_steps claim_step (sample_cache {(PeerId [1], Nonce [2])}) [(PeerId [3], Nonce [4], TimestampSeconds 50)]
    = Some (sample_cache {(PeerId [1], Nonce [2]), (PeerId [3], Nonce [4])}, [Inr ()])"
  by code_simp+

theorem nonce_replay_rejected_witness:
  "\<exists>c0 c1 c2 c3. run_steps claim_step (nonce_cache_new 180) [] = Some (c0, [])
    \<and> try_claim c0 (PeerId [1]) (Nonce [2]) (TimestampSeconds 100) = Some (c1, Inr ())
    \<and> run_steps claim_step c1 [(PeerId [3], Nonce [4], TimestampSeconds 50)] = Some (c2, [Inr ()])
    \<and> try_claim c2 (PeerId [1]) (Nonce [2]) (TimestampSeconds 640) = Some (c3, Inl NonceReused)"
  using nonce_replay_rejected [of 180 "[]" "nonce_cache_new 180" "[]" "PeerId [1]" "Nonce [2]" "TimestampSeconds 100"
      _ "[(PeerId [3], Nonce [4], TimestampSeconds 50)]" _ _ "TimestampSeconds 640", OF _ _ sample_claims]
    sample_claims by auto

end
