(* ===== verification/Handshake_Payloads.thy ===== *)
theory Handshake_Payloads
  imports Nonce_Cache
begin

text \<open>
  The messages of the handshake, \<^verbatim>\<open>subduction_core/src/handshake\<close>: audiences, the signed
  challenge and response, the unsigned rejection, and the envelope \<open>HandshakeMessage\<close> that
  distinguishes them by the byte after the schema.
\<close>

section \<open>Audiences\<close>

datatype DiscoveryId = DiscoveryId (discovery_id_bytes: bytes)

definition discovery_id_new :: "blake3 \<Rightarrow> bytes \<Rightarrow> DiscoveryId" where
  "discovery_id_new blake3 service_identifier = DiscoveryId (blake3 service_identifier)"

datatype Audience = Known PeerId | Discover DiscoveryId

definition audience_discover :: "blake3 \<Rightarrow> bytes \<Rightarrow> Audience" where
  "audience_discover blake3 service_identifier = Discover (discovery_id_new blake3 service_identifier)"


section \<open>Rejections\<close>

datatype RejectionReason = RejectClockDrift | RejectInvalidAudience | RejectReplayedNonce | RejectInvalidSignature

definition reason_tag :: "RejectionReason \<Rightarrow> byte" where
  "reason_tag r = (case r of RejectClockDrift \<Rightarrow> 0 | RejectInvalidAudience \<Rightarrow> 1
     | RejectReplayedNonce \<Rightarrow> 2 | RejectInvalidSignature \<Rightarrow> 3)"

definition reason_try_from :: "byte \<Rightarrow> DecodeError + RejectionReason" where
  "reason_try_from tag =
     (if tag = 0 then Inr RejectClockDrift
      else if tag = 1 then Inr RejectInvalidAudience
      else if tag = 2 then Inr RejectReplayedNonce
      else if tag = 3 then Inr RejectInvalidSignature
      else Inl (InvalidEnumTag tag ''RejectionReason''))"

record Rejection =
  rj_reason :: RejectionReason
  rj_server_timestamp :: TimestampSeconds

definition REJECTION_SIZE :: usize where
  "REJECTION_SIZE = 1 + 8"

definition rejection_encode_payload :: "Rejection \<Rightarrow> bytes" where
  "rejection_encode_payload r = [reason_tag (rj_reason r)] @ to_be_bytes (as_secs (rj_server_timestamp r))"

text \<open>\<open>RejectionDecodeError\<close> with its conversion to \<open>DecodeError\<close>, which the only caller applies.\<close>

definition rejection_too_short :: "usize \<Rightarrow> DecodeError" where
  "rejection_too_short have = MessageTooShort ''Rejection'' REJECTION_SIZE have"

definition rejection_try_decode_payload :: "bytes \<Rightarrow> DecodeError + Rejection" where
  "rejection_try_decode_payload payload =
     (if length payload < REJECTION_SIZE then Inl (rejection_too_short (length payload))
      else
        try_bind (ok_or (get_at payload 0) (rejection_too_short 0)) (\<lambda>reason_byte.
        try_bind (reason_try_from reason_byte) (\<lambda>reason.
        try_bind (ok_or (get_range payload 1 9) (rejection_too_short (length payload))) (\<lambda>timestamp_bytes.
        Inr \<lparr>rj_reason = reason, rj_server_timestamp = TimestampSeconds (from_be_bytes timestamp_bytes)\<rparr>))))"


section \<open>Challenges\<close>

record Challenge =
  ch_audience :: Audience
  ch_timestamp :: TimestampSeconds
  ch_nonce :: Nonce

datatype ChallengeValidationError =
    InvalidAudience
  | ClockDrift TimestampSeconds TimestampSeconds
  | ReplayedNonce

definition to_rejection_reason :: "ChallengeValidationError \<Rightarrow> RejectionReason" where
  "to_rejection_reason e = (case e of
     InvalidAudience \<Rightarrow> RejectInvalidAudience
   | ClockDrift _ _ \<Rightarrow> RejectClockDrift
   | ReplayedNonce \<Rightarrow> RejectReplayedNonce)"

definition challenge_new :: "Audience \<Rightarrow> TimestampSeconds \<Rightarrow> Nonce \<Rightarrow> Challenge" where
  "challenge_new audience now nonce = \<lparr>ch_audience = audience, ch_timestamp = now, ch_nonce = nonce\<rparr>"

definition is_fresh :: "Challenge \<Rightarrow> TimestampSeconds \<Rightarrow> Duration \<Rightarrow> bool" where
  "is_fresh c now max_drift \<longleftrightarrow> abs_diff (ch_timestamp c) now \<le> max_drift"

definition challenge_validate ::
    "Challenge \<Rightarrow> Audience \<Rightarrow> TimestampSeconds \<Rightarrow> Duration \<Rightarrow> ChallengeValidationError + unit" where
  "challenge_validate c expected_audience now max_drift =
     (if ch_audience c \<noteq> expected_audience then Inl InvalidAudience
      else if \<not> is_fresh c now max_drift then Inl (ClockDrift (ch_timestamp c) now)
      else Inr ())"

definition CHALLENGE_FIELDS_SIZE :: usize where
  "CHALLENGE_FIELDS_SIZE = 1 + 32 + 8 + 16"

definition CHALLENGE_MIN_SIZE :: usize where
  "CHALLENGE_MIN_SIZE = 4 + 1 + 32 + CHALLENGE_FIELDS_SIZE + 64"

definition CHALLENGE_TAG :: byte where "CHALLENGE_TAG = 0"

definition challenge_encode_fields :: "Challenge \<Rightarrow> bytes" where
  "challenge_encode_fields c =
     (case ch_audience c of Known _ \<Rightarrow> encode_u8 0 | Discover _ \<Rightarrow> encode_u8 1) @
     (case ch_audience c of Known p \<Rightarrow> encode_array (peer_id_bytes p)
        | Discover d \<Rightarrow> encode_array (discovery_id_bytes d)) @
     encode_u64 (as_secs (ch_timestamp c)) @
     encode_array (nonce_bytes (ch_nonce c))"

definition challenge_try_decode_fields :: "bytes \<Rightarrow> DecodeError + (Challenge \<times> usize)" where
  "challenge_try_decode_fields buf =
     (if length buf < CHALLENGE_FIELDS_SIZE
      then Inl (MessageTooShort ''Challenge'' CHALLENGE_FIELDS_SIZE (length buf))
      else
        let off = 0 in
        try_bind (lift_bts (decode_u8 buf off)) (\<lambda>audience_tag. let off = off + 1 in
        try_bind (lift_bts (decode_array 32 buf off)) (\<lambda>audience_value. let off = off + 32 in
        try_bind
          (if audience_tag = 0 then Inr (Known (PeerId audience_value))
           else if audience_tag = 1 then Inr (Discover (DiscoveryId audience_value))
           else Inl (InvalidEnumTag audience_tag ''Audience'')) (\<lambda>audience.
        try_bind (lift_bts (decode_u64 buf off)) (\<lambda>timestamp_secs. let off = off + 8 in
        try_bind (lift_bts (decode_array 16 buf off)) (\<lambda>nonce. let off = off + 16 in
        Inr (\<lparr>ch_audience = audience, ch_timestamp = TimestampSeconds timestamp_secs, ch_nonce = Nonce nonce\<rparr>, off)))))))"

definition challenge_payload :: "Challenge Payload" where
  "challenge_payload =
     \<lparr>TYPE_NAME = ''Challenge'', SCHEMA = schema_header SUBDUCTION_PREFIX 0x48 0,
      DISCRIMINANT = Some CHALLENGE_TAG, MIN_SIGNED = CHALLENGE_MIN_SIZE,
      encode_fields = challenge_encode_fields, fields_size = (\<lambda>_. CHALLENGE_FIELDS_SIZE),
      try_decode_fields = challenge_try_decode_fields\<rparr>"


section \<open>Responses\<close>

record Response =
  rs_challenge_digest :: Digest
  rs_server_timestamp :: TimestampSeconds

datatype ResponseValidationError = ChallengeMismatch

definition response_new :: "Digest \<Rightarrow> TimestampSeconds \<Rightarrow> Response" where
  "response_new challenge_digest now = \<lparr>rs_challenge_digest = challenge_digest, rs_server_timestamp = now\<rparr>"

definition for_challenge :: "blake3 \<Rightarrow> Challenge \<Rightarrow> TimestampSeconds \<Rightarrow> Response" where
  "for_challenge blake3 challenge now = response_new (digest_hash blake3 challenge_payload challenge) now"

definition response_validate :: "blake3 \<Rightarrow> Response \<Rightarrow> Challenge \<Rightarrow> ResponseValidationError + unit" where
  "response_validate blake3 r expected_challenge =
     (let expected_digest = digest_hash blake3 challenge_payload expected_challenge in
      if rs_challenge_digest r \<noteq> expected_digest then Inl ChallengeMismatch else Inr ())"

definition RESPONSE_FIELDS_SIZE :: usize where
  "RESPONSE_FIELDS_SIZE = 32 + 8"

definition RESPONSE_MIN_SIZE :: usize where
  "RESPONSE_MIN_SIZE = 4 + 1 + 32 + RESPONSE_FIELDS_SIZE + 64"

definition RESPONSE_TAG :: byte where "RESPONSE_TAG = 1"

definition response_encode_fields :: "Response \<Rightarrow> bytes" where
  "response_encode_fields r =
     encode_array (digest_bytes (rs_challenge_digest r)) @ encode_u64 (as_secs (rs_server_timestamp r))"

definition response_try_decode_fields :: "bytes \<Rightarrow> DecodeError + (Response \<times> usize)" where
  "response_try_decode_fields buf =
     (if length buf < RESPONSE_FIELDS_SIZE
      then Inl (MessageTooShort ''Response'' RESPONSE_FIELDS_SIZE (length buf))
      else
        let off = 0 in
        try_bind (lift_bts (decode_array 32 buf off)) (\<lambda>challenge_digest. let off = off + 32 in
        try_bind (lift_bts (decode_u64 buf off)) (\<lambda>server_timestamp. let off = off + 8 in
        Inr (\<lparr>rs_challenge_digest = Digest challenge_digest,
              rs_server_timestamp = TimestampSeconds server_timestamp\<rparr>, off))))"

definition response_payload :: "Response Payload" where
  "response_payload =
     \<lparr>TYPE_NAME = ''Response'', SCHEMA = schema_header SUBDUCTION_PREFIX 0x48 0,
      DISCRIMINANT = Some RESPONSE_TAG, MIN_SIGNED = RESPONSE_MIN_SIZE,
      encode_fields = response_encode_fields, fields_size = (\<lambda>_. RESPONSE_FIELDS_SIZE),
      try_decode_fields = response_try_decode_fields\<rparr>"


section \<open>The envelope\<close>

datatype HandshakeMessage = SignedChallenge Signed | SignedResponse Signed | MsgRejection Rejection

definition HANDSHAKE_SCHEMA :: bytes where
  "HANDSHAKE_SCHEMA = SCHEMA challenge_payload"

definition REJECTION_TAG :: byte where "REJECTION_TAG = 2"

definition HANDSHAKE_MIN_SIZE :: usize where "HANDSHAKE_MIN_SIZE = 5"

definition handshake_encode :: "HandshakeMessage \<Rightarrow> bytes" where
  "handshake_encode m = (case m of
     SignedChallenge sg \<Rightarrow> sg_bytes sg
   | SignedResponse sg \<Rightarrow> sg_bytes sg
   | MsgRejection rejection \<Rightarrow> HANDSHAKE_SCHEMA @ [REJECTION_TAG] @ rejection_encode_payload rejection)"

definition handshake_try_decode :: "Ed25519 \<Rightarrow> bytes \<Rightarrow> DecodeError + HandshakeMessage" where
  "handshake_try_decode ed bs =
     (if length bs < HANDSHAKE_MIN_SIZE
      then Inl (MessageTooShort ''HandshakeMessage'' HANDSHAKE_MIN_SIZE (length bs))
      else
        try_bind (ok_or (get_range bs 0 4) (MessageTooShort ''HandshakeMessage'' 4 (length bs))) (\<lambda>got_schema.
        if got_schema \<noteq> HANDSHAKE_SCHEMA then Inl (InvalidSchema HANDSHAKE_SCHEMA got_schema)
        else
        try_bind (ok_or (get_at bs 4) (MessageTooShort ''HandshakeMessage'' HANDSHAKE_MIN_SIZE (length bs))) (\<lambda>tag.
        if tag = CHALLENGE_TAG then
          try_bind (signed_try_decode ed challenge_payload bs) (\<lambda>sg. Inr (SignedChallenge sg))
        else if tag = RESPONSE_TAG then
          try_bind (signed_try_decode ed response_payload bs) (\<lambda>sg. Inr (SignedResponse sg))
        else if tag = REJECTION_TAG then
          try_bind (ok_or (get_range bs 5 (length bs))
              (MessageTooShort ''HandshakeMessage::Rejection'' (HANDSHAKE_MIN_SIZE + 1) (length bs))) (\<lambda>payload.
          try_bind (rejection_try_decode_payload payload) (\<lambda>rejection. Inr (MsgRejection rejection)))
        else Inl (InvalidEnumTag tag ''HandshakeMessage''))))"


section \<open>Challenges and responses are payload types\<close>

definition wf_Audience :: "Audience \<Rightarrow> bool" where
  "wf_Audience a = (case a of Known p \<Rightarrow> length (peer_id_bytes p) = 32
     | Discover d \<Rightarrow> length (discovery_id_bytes d) = 32)"

definition wf_Challenge :: "Challenge \<Rightarrow> bool" where
  "wf_Challenge c \<longleftrightarrow> wf_Audience (ch_audience c) \<and> length (nonce_bytes (ch_nonce c)) = 16"

definition wf_Response :: "Response \<Rightarrow> bool" where
  "wf_Response r \<longleftrightarrow> length (digest_bytes (rs_challenge_digest r)) = 32"

lemmas challenge_sizes = CHALLENGE_FIELDS_SIZE_def CHALLENGE_MIN_SIZE_def
lemmas response_sizes = RESPONSE_FIELDS_SIZE_def RESPONSE_MIN_SIZE_def

lemma length_challenge_encode:
  "wf_Challenge c \<Longrightarrow> length (challenge_encode_fields c) = CHALLENGE_FIELDS_SIZE"
  by (auto simp: wf_Challenge_def wf_Audience_def challenge_encode_fields_def encode_array_def challenge_sizes
      split: Audience.splits)

lemma length_response_encode:
  "wf_Response r \<Longrightarrow> length (response_encode_fields r) = RESPONSE_FIELDS_SIZE"
  by (simp add: wf_Response_def response_encode_fields_def encode_array_def response_sizes)

lemma challenge_decode_encode:
  assumes "wf_Challenge c"
  shows "challenge_try_decode_fields (challenge_encode_fields c @ rest) = Inr (c, CHALLENGE_FIELDS_SIZE)"
proof -
  obtain ts where ts: "ch_timestamp c = TimestampSeconds ts" by (cases "ch_timestamp c")
  obtain n where n: "ch_nonce c = Nonce n" by (cases "ch_nonce c")
  obtain tag v where a: "challenge_encode_fields c = [tag] @ v @ encode_u64 ts @ n" "length v = 32"
    "(if tag = 0 then Inr (Known (PeerId v)) else if tag = 1 then Inr (Discover (DiscoveryId v))
      else Inl (InvalidEnumTag tag ''Audience'')) = Inr (ch_audience c)"
  proof (cases "ch_audience c")
    case (Known p)
    with assms that [of 0 "peer_id_bytes p"] ts n show ?thesis
      by (auto simp: challenge_encode_fields_def encode_u8_def encode_array_def wf_Challenge_def wf_Audience_def)
  next
    case (Discover d)
    with assms that [of 1 "discovery_id_bytes d"] ts n show ?thesis
      by (auto simp: challenge_encode_fields_def encode_u8_def encode_array_def wf_Challenge_def wf_Audience_def)
  qed
  have len: "length n = 16" using assms n by (simp add: wf_Challenge_def)
  have "\<not> length (challenge_encode_fields c @ rest) < CHALLENGE_FIELDS_SIZE"
    using length_challenge_encode [OF assms] by simp
  then show ?thesis
    unfolding challenge_try_decode_fields_def Let_def using a len ts n
    by (cases c) (simp add: lift_bts_def decode_u8_def decode_array_def decode_u64_def get_at_def get_range_def
        ts n challenge_sizes)
qed

lemma challenge_encode_decode:
  assumes "challenge_try_decode_fields buf = Inr (c, k)"
  shows "wf_Challenge c \<and> k \<le> length buf \<and> take k buf = challenge_encode_fields c"
proof -
  have split: "take 57 buf = take 1 buf @ take 32 (drop 1 buf) @ take 8 (drop 33 buf) @ take 16 (drop 41 buf)"
    using take_chain [of 1 57 buf] take_chain [of 32 56 "drop 1 buf"] take_chain [of 8 24 "drop 33 buf"] by simp
  have one: "take 1 buf = [buf ! 0]" if "57 \<le> length buf" using that by (cases buf) auto
  show ?thesis
    using assms split one
    by (auto simp: challenge_try_decode_fields_def Let_def result_iff lift_bts_def challenge_sizes wf_Challenge_def
        wf_Audience_def challenge_encode_fields_def encode_u8_def encode_array_def split: if_splits)
qed

lemma response_decode_encode:
  assumes "wf_Response r"
  shows "response_try_decode_fields (response_encode_fields r @ rest) = Inr (r, RESPONSE_FIELDS_SIZE)"
proof -
  obtain dg ts where r: "r = \<lparr>rs_challenge_digest = Digest dg, rs_server_timestamp = TimestampSeconds ts\<rparr>"
    by (cases r) (metis Digest.exhaust TimestampSeconds.exhaust)
  with assms have "length dg = 32" by (simp add: wf_Response_def)
  then show ?thesis
    by (simp add: r response_try_decode_fields_def response_encode_fields_def encode_array_def lift_bts_def
        decode_array_def decode_u64_def get_range_def response_sizes)
qed

lemma response_encode_decode:
  assumes "response_try_decode_fields buf = Inr (r, k)"
  shows "wf_Response r \<and> k \<le> length buf \<and> take k buf = response_encode_fields r"
  using assms take_chain [of 32 40 buf]
  by (auto simp: response_try_decode_fields_def Let_def result_iff lift_bts_def response_sizes wf_Response_def
      response_encode_fields_def encode_array_def split: if_splits)

interpretation challenge: payload_codec challenge_payload wf_Challenge
  by unfold_locales (auto simp: challenge_payload_def schema_header_def challenge_decode_encode
      length_challenge_encode signed_size_def disc_size_def challenge_sizes dest: challenge_encode_decode)

interpretation response: payload_codec response_payload wf_Response
  by unfold_locales (auto simp: response_payload_def schema_header_def response_decode_encode
      length_response_encode signed_size_def disc_size_def response_sizes dest: response_encode_decode)


section \<open>Reading messages\<close>

lemma handshake_schema [simp]:
  "SCHEMA challenge_payload = [0x53, 0x55, 0x48, 0]" "SCHEMA response_payload = [0x53, 0x55, 0x48, 0]"
  "HANDSHAKE_SCHEMA = [0x53, 0x55, 0x48, 0]"
  "DISCRIMINANT challenge_payload = Some 0" "DISCRIMINANT response_payload = Some 1"
  by (simp_all add: HANDSHAKE_SCHEMA_def challenge_payload_def response_payload_def schema_header_def
      SUBDUCTION_PREFIX_def CHALLENGE_TAG_def RESPONSE_TAG_def)

lemma seal_bytes_prefix:
  "\<exists>rest. sg_bytes (vs_signed (seal signer P x)) = SCHEMA P @ disc_bytes P @ rest"
  by (simp add: seal_def Let_def seal_payload_bytes_disc)

lemma decode_signed_prefix:
  "signed_try_decode ed P bs = Inr s \<longleftrightarrow> (\<exists>n. try_decode_prefix ed P bs = Inr (s, n))"
  by (auto simp: signed_try_decode_def result_iff)

lemma decode_challenge_bytes:
  assumes "signed_try_decode ed challenge_payload bs = Inr s"
  shows "handshake_try_decode ed bs = Inr (SignedChallenge s)"
  using decode_schema [OF assms] decode_disc [OF assms, of 0] assms
  by (auto simp: handshake_try_decode_def HANDSHAKE_MIN_SIZE_def get_range_def get_at_def CHALLENGE_TAG_def
      split: if_splits)

lemma decode_response_bytes:
  assumes "signed_try_decode ed response_payload bs = Inr s"
  shows "handshake_try_decode ed bs = Inr (SignedResponse s)"
  using decode_schema [OF assms] decode_disc [OF assms, of 1] assms
  by (auto simp: handshake_try_decode_def HANDSHAKE_MIN_SIZE_def get_range_def get_at_def CHALLENGE_TAG_def
      RESPONSE_TAG_def split: if_splits)

lemma reason_roundtrip [simp]: "reason_try_from (reason_tag r) = Inr r"
  by (simp add: reason_try_from_def reason_tag_def split: RejectionReason.splits)

lemma reason_try_from_Inr: "reason_try_from b = Inr r \<Longrightarrow> reason_tag r = b"
  by (auto simp: reason_try_from_def reason_tag_def split: if_splits)

lemma rejection_roundtrip: "rejection_try_decode_payload (rejection_encode_payload r @ rest) = Inr r"
  by (cases r) (simp add: rejection_try_decode_payload_def rejection_encode_payload_def REJECTION_SIZE_def get_at_def
      get_range_def from_to_be_bytes)

lemma rejection_canonical:
  assumes "rejection_try_decode_payload bs = Inr r"
  shows "9 \<le> length bs" and "take 9 bs = rejection_encode_payload r"
proof -
  show len: "9 \<le> length bs"
    using assms by (simp add: rejection_try_decode_payload_def REJECTION_SIZE_def split: if_splits)
  then obtain b rest where bs: "bs = b # rest" by (cases bs) auto
  then have r: "reason_tag (rj_reason r) = b" "rj_server_timestamp r = TimestampSeconds (from_be_bytes (take 8 rest))"
    using assms len by (auto simp: rejection_try_decode_payload_def REJECTION_SIZE_def get_at_def get_range_def
        result_iff dest: reason_try_from_Inr)
  then show "take 9 bs = rejection_encode_payload r"
    using len by (simp add: bs rejection_encode_payload_def to_from_be_bytes)
qed

lemma decode_rejection_bytes:
  "handshake_try_decode ed (handshake_encode (MsgRejection r) @ rest) = Inr (MsgRejection r)"
  by (simp add: handshake_try_decode_def handshake_encode_def HANDSHAKE_MIN_SIZE_def get_range_def get_at_def
      CHALLENGE_TAG_def RESPONSE_TAG_def REJECTION_TAG_def rejection_roundtrip)

lemma decode_sealed:
  assumes "signer_ok ed signer"
  shows "wf_Challenge c \<Longrightarrow> handshake_try_decode ed (sg_bytes (vs_signed (seal signer challenge_payload c)) @ rest)
      = Inr (SignedChallenge (vs_signed (seal signer challenge_payload c)))"
    and "wf_Response r \<Longrightarrow> handshake_try_decode ed (sg_bytes (vs_signed (seal signer response_payload r)) @ rest)
      = Inr (SignedResponse (vs_signed (seal signer response_payload r)))"
  using challenge.seal_roundtrip(1) [OF _ assms] response.seal_roundtrip(1) [OF _ assms]
  by (auto intro!: decode_challenge_bytes decode_response_bytes simp: decode_signed_prefix)

text \<open>A decoded message re-encodes to the bytes it was read from; only trailing bytes are dropped.\<close>

lemma handshake_decode_canonical:
  assumes "handshake_try_decode ed bs = Inr m"
  shows "take (length (handshake_encode m)) bs = handshake_encode m"
proof -
  from assms have len: "5 \<le> length bs" and sch: "take 4 bs = HANDSHAKE_SCHEMA"
    by (auto simp: handshake_try_decode_def HANDSHAKE_MIN_SIZE_def get_range_def split: if_splits)
  consider s n where "m = SignedChallenge s" "try_decode_prefix ed challenge_payload bs = Inr (s, n)"
    | s n where "m = SignedResponse s" "try_decode_prefix ed response_payload bs = Inr (s, n)"
    | r where "m = MsgRejection r" "bs ! 4 = 2" "rejection_try_decode_payload (drop 5 bs) = Inr r"
    using assms len by (auto simp: handshake_try_decode_def HANDSHAKE_MIN_SIZE_def get_range_def get_at_def result_iff
        decode_signed_prefix REJECTION_TAG_def split: if_splits)
  then show ?thesis
  proof cases
    case 1
    from challenge.try_decode_prefix_inv [OF 1(2)] have "n \<le> length bs" "take n bs = sg_bytes s" by auto
    moreover from this have "n = length (sg_bytes s)" by (metis length_take min.absorb2)
    ultimately show ?thesis using 1(1) by (simp add: handshake_encode_def)
  next
    case 2
    from response.try_decode_prefix_inv [OF 2(2)] have "n \<le> length bs" "take n bs = sg_bytes s" by auto
    moreover from this have "n = length (sg_bytes s)" by (metis length_take min.absorb2)
    ultimately show ?thesis using 2(1) by (simp add: handshake_encode_def)
  next
    case 3
    note c = rejection_canonical [OF 3(3)]
    have "take 14 bs = take 4 bs @ take 1 (drop 4 bs) @ take 9 (drop 5 bs)"
      using take_chain [of 4 14 bs] take_chain [of 1 10 "drop 4 bs"] by simp
    moreover have "take 1 (drop 4 bs) = [bs ! 4]" using len by (simp add: take_1_drop)
    ultimately have "take 14 bs = handshake_encode m"
      using 3 c sch by (simp add: handshake_encode_def REJECTION_TAG_def)
    moreover have "length (handshake_encode m) = 14"
      using 3 c by (simp add: handshake_encode_def rejection_encode_payload_def)
    ultimately show ?thesis by simp
  qed
qed

end
