(* ===== verification/Handshake.thy ===== *)
theory Handshake
  imports Handshake_Payloads
begin

text \<open>
  The handshake protocol of \<^verbatim>\<open>subduction_core/src/handshake.rs\<close>: both roles, over an arbitrary
  transport. An asynchronous call is one step of the transport; the state of the transport is
  threaded through and returned with the result, so that what was sent can be observed. The
  result of \<open>respond\<close> is \<open>None\<close> when the claim of the nonce panics.
\<close>

section \<open>Errors and results\<close>

datatype HandshakeError =
    HandshakeInvalidSignature
  | ChallengeValidation ChallengeValidationError
  | ResponseValidation ResponseValidationError

datatype 'e AuthenticateError =
    Transport 'e
  | Decode DecodeError
  | Handshake HandshakeError
  | Rejected RejectionReason TimestampSeconds
  | UnexpectedMessage
  | ConnectionClosed
  | ReflectedChallenge
  | ReflectionAttack
  | SimultaneousOpenPeerMismatch

datatype Direction = Dialed | Accepted

record 'c Authenticated =
  au_inner :: 'c
  au_peer_id :: PeerId
  au_direction :: Direction

definition from_handshake :: "'c \<Rightarrow> PeerId \<Rightarrow> Direction \<Rightarrow> 'c Authenticated" where
  "from_handshake conn peer_id direction = \<lparr>au_inner = conn, au_peer_id = peer_id, au_direction = direction\<rparr>"

record VerifiedChallenge =
  vc_client_id :: PeerId
  vc_challenge :: Challenge

record VerifiedResponse =
  vr_server_id :: PeerId
  vr_response :: Response

definition SIMULTANEOUS_OPEN_MAX_DRIFT :: Duration where
  "SIMULTANEOUS_OPEN_MAX_DRIFT = 600"


section \<open>Making and checking signed messages\<close>

definition create_challenge :: "Signer \<Rightarrow> Audience \<Rightarrow> TimestampSeconds \<Rightarrow> Nonce \<Rightarrow> Signed" where
  "create_challenge signer audience now nonce =
     vs_signed (seal signer challenge_payload (challenge_new audience now nonce))"

definition verify_challenge :: "Ed25519 \<Rightarrow> Signed \<Rightarrow> Audience \<Rightarrow> TimestampSeconds \<Rightarrow> Duration
    \<Rightarrow> HandshakeError + VerifiedChallenge" where
  "verify_challenge ed signed_challenge expected_audience now max_drift =
     try_bind (map_err (\<lambda>_. HandshakeInvalidSignature) (try_verify ed challenge_payload signed_challenge)) (\<lambda>verified.
     let challenge = vs_payload verified in
     try_bind (map_err ChallengeValidation (challenge_validate challenge expected_audience now max_drift)) (\<lambda>_.
     Inr \<lparr>vc_client_id = peer_id_from_key (sg_issuer (vs_signed verified)), vc_challenge = challenge\<rparr>))"

definition create_response :: "blake3 \<Rightarrow> Signer \<Rightarrow> Challenge \<Rightarrow> TimestampSeconds \<Rightarrow> Signed" where
  "create_response blake3 signer challenge now =
     vs_signed (seal signer response_payload (for_challenge blake3 challenge now))"

definition verify_response :: "Ed25519 \<Rightarrow> blake3 \<Rightarrow> Signed \<Rightarrow> Challenge \<Rightarrow> HandshakeError + VerifiedResponse" where
  "verify_response ed blake3 signed_response original_challenge =
     try_bind (map_err (\<lambda>_. HandshakeInvalidSignature) (try_verify ed response_payload signed_response)) (\<lambda>verified.
     let response = vs_payload verified in
     try_bind (map_err ResponseValidation (response_validate blake3 response original_challenge)) (\<lambda>_.
     Inr \<lparr>vr_server_id = peer_id_from_key (sg_issuer (vs_signed verified)), vr_response = response\<rparr>))"

text \<open>
  The audience check of both roles: the own identity first, then the discovery audience if
  there is one and the first check failed on the audience.
\<close>

definition verify_known_or_discovery :: "Ed25519 \<Rightarrow> Signed \<Rightarrow> Audience \<Rightarrow> Audience option \<Rightarrow> TimestampSeconds
    \<Rightarrow> Duration \<Rightarrow> HandshakeError + VerifiedChallenge" where
  "verify_known_or_discovery ed signed_challenge known_audience discovery_audience now max_drift =
     (case verify_challenge ed signed_challenge known_audience now max_drift of
        Inr v \<Rightarrow> Inr v
      | Inl e \<Rightarrow>
          (case discovery_audience of
             Some disc \<Rightarrow>
               if e = ChallengeValidation InvalidAudience
               then verify_challenge ed signed_challenge disc now max_drift else Inl e
           | None \<Rightarrow> Inl e))"


section \<open>The transport\<close>

record ('h, 'e) Transport =
  tr_send :: "'h \<Rightarrow> bytes \<Rightarrow> 'h \<times> ('e + unit)"
  tr_recv :: "'h \<Rightarrow> 'h \<times> ('e + bytes)"

type_synonym ('h, 'e, 'a) io = "'h \<Rightarrow> 'h \<times> ('e AuthenticateError + 'a)"

definition io_bind :: "('h, 'e, 'a) io \<Rightarrow> ('a \<Rightarrow> ('h, 'e, 'b) io) \<Rightarrow> ('h, 'e, 'b) io" where
  "io_bind m f h = (case m h of (h, Inl e) \<Rightarrow> (h, Inl e) | (h, Inr x) \<Rightarrow> f x h)"

definition io_result :: "'e AuthenticateError + 'a \<Rightarrow> ('h, 'e, 'a) io" where
  "io_result r h = (h, r)"

definition send_message :: "('h, 'e) Transport \<Rightarrow> HandshakeMessage \<Rightarrow> ('h, 'e, unit) io" where
  "send_message tr msg h = (case tr_send tr h (handshake_encode msg) of (h, r) \<Rightarrow> (h, map_err Transport r))"

definition recv_handshake_message :: "('h, 'e) Transport \<Rightarrow> Ed25519 \<Rightarrow> ('h, 'e, HandshakeMessage) io" where
  "recv_handshake_message tr ed h =
     (case tr_recv tr h of (h, r) \<Rightarrow>
        (h, try_bind (map_err Transport r) (\<lambda>bs.
            if bs = [] then Inl ConnectionClosed
            else map_err Decode (handshake_try_decode ed bs))))"

definition recv_verified_response :: "('h, 'e) Transport \<Rightarrow> Ed25519 \<Rightarrow> blake3 \<Rightarrow> Challenge \<Rightarrow> ('h, 'e, PeerId) io" where
  "recv_verified_response tr ed blake3 original_challenge =
     io_bind (recv_handshake_message tr ed) (\<lambda>msg. io_result (case msg of
       SignedResponse signed_response \<Rightarrow>
         try_bind (map_err Handshake (verify_response ed blake3 signed_response original_challenge)) (\<lambda>verified.
         Inr (vr_server_id verified))
     | MsgRejection rejection \<Rightarrow> Inl (Rejected (rj_reason rejection) (rj_server_timestamp rejection))
     | SignedChallenge _ \<Rightarrow> Inl UnexpectedMessage))"

definition send_rejection :: "('h, 'e) Transport \<Rightarrow> HandshakeError \<Rightarrow> TimestampSeconds \<Rightarrow> ('h, 'e, unit) io" where
  "send_rejection tr err now =
     (let reason = (case err of
            HandshakeInvalidSignature \<Rightarrow> RejectInvalidSignature
          | ResponseValidation _ \<Rightarrow> RejectInvalidSignature
          | ChallengeValidation cv \<Rightarrow> to_rejection_reason cv)
      in send_message tr (MsgRejection \<lparr>rj_reason = reason, rj_server_timestamp = now\<rparr>))"


section \<open>The initiator\<close>

definition dialed :: "('h \<Rightarrow> PeerId \<Rightarrow> 'c \<times> 'x) \<Rightarrow> PeerId \<Rightarrow> ('h, 'e, 'c Authenticated \<times> 'x) io" where
  "dialed build_connection peer_id h =
     (case build_connection h peer_id of (conn, extra) \<Rightarrow> (h, Inr (from_handshake conn peer_id Dialed, extra)))"

text \<open>Both sides sent challenges: the branch of the simultaneous open.\<close>

definition simultaneous_open :: "('h, 'e) Transport \<Rightarrow> Ed25519 \<Rightarrow> blake3 \<Rightarrow> ('h \<Rightarrow> PeerId \<Rightarrow> 'c \<times> 'x) \<Rightarrow> Signer
    \<Rightarrow> Audience \<Rightarrow> TimestampSeconds \<Rightarrow> Challenge \<Rightarrow> Signed \<Rightarrow> Signed \<Rightarrow> ('h, 'e, 'c Authenticated \<times> 'x) io" where
  "simultaneous_open tr ed blake3 build_connection signer audience now challenge signed_challenge their_signed_challenge =
     (if sg_bytes signed_challenge = sg_bytes their_signed_challenge then io_result (Inl ReflectedChallenge)
      else
        let our_peer_id = peer_id_from_key (verifying_key signer);
            discovery = (case audience of Discover _ \<Rightarrow> Some audience | Known _ \<Rightarrow> None)
        in
        io_bind (io_result (map_err Handshake (verify_known_or_discovery ed their_signed_challenge
            (Known our_peer_id) discovery now SIMULTANEOUS_OPEN_MAX_DRIFT))) (\<lambda>their_verified.
        if vc_client_id their_verified = our_peer_id then io_result (Inl ReflectionAttack)
        else
          let expected_peer_id = vc_client_id their_verified;
              our_response = create_response blake3 signer (vc_challenge their_verified) now;
              check = (\<lambda>peer_id. if peer_id \<noteq> expected_peer_id then io_result (Inl SimultaneousOpenPeerMismatch)
                 else io_result (Inr ()))
          in
          if sg_bytes signed_challenge > sg_bytes their_signed_challenge
          then
            io_bind (recv_verified_response tr ed blake3 challenge) (\<lambda>peer_id.
            io_bind (check peer_id) (\<lambda>_.
            io_bind (send_message tr (SignedResponse our_response)) (\<lambda>_.
            dialed build_connection peer_id)))
          else
            io_bind (send_message tr (SignedResponse our_response)) (\<lambda>_.
            io_bind (recv_verified_response tr ed blake3 challenge) (\<lambda>peer_id.
            io_bind (check peer_id) (\<lambda>_.
            dialed build_connection peer_id)))))"

definition initiate :: "('h, 'e) Transport \<Rightarrow> Ed25519 \<Rightarrow> blake3 \<Rightarrow> ('h \<Rightarrow> PeerId \<Rightarrow> 'c \<times> 'x) \<Rightarrow> Signer
    \<Rightarrow> Audience \<Rightarrow> TimestampSeconds \<Rightarrow> Nonce \<Rightarrow> ('h, 'e, 'c Authenticated \<times> 'x) io" where
  "initiate tr ed blake3 build_connection signer audience now nonce =
     (let challenge = challenge_new audience now nonce;
          signed_challenge = vs_signed (seal signer challenge_payload challenge)
      in
      io_bind (send_message tr (SignedChallenge signed_challenge)) (\<lambda>_.
      io_bind (recv_handshake_message tr ed) (\<lambda>first_msg. case first_msg of
        SignedResponse signed_response \<Rightarrow>
          io_bind (io_result (map_err Handshake (verify_response ed blake3 signed_response challenge))) (\<lambda>verified.
          dialed build_connection (vr_server_id verified))
      | MsgRejection rejection \<Rightarrow>
          io_result (Inl (Rejected (rj_reason rejection) (rj_server_timestamp rejection)))
      | SignedChallenge their_signed_challenge \<Rightarrow>
          simultaneous_open tr ed blake3 build_connection signer audience now challenge
            signed_challenge their_signed_challenge)))"


section \<open>The responder\<close>

definition respond :: "('h, 'e) Transport \<Rightarrow> Ed25519 \<Rightarrow> blake3 \<Rightarrow> ('h \<Rightarrow> PeerId \<Rightarrow> 'c \<times> 'x) \<Rightarrow> Signer
    \<Rightarrow> NonceCache \<Rightarrow> PeerId \<Rightarrow> Audience option \<Rightarrow> TimestampSeconds \<Rightarrow> Duration
    \<Rightarrow> 'h \<Rightarrow> ('h \<times> NonceCache \<times> ('e AuthenticateError + ('c Authenticated \<times> 'x))) option" where
  "respond tr ed blake3 build_connection signer cache our_peer_id discovery_audience now max_drift h =
     (case recv_handshake_message tr ed h of
        (h, Inl e) \<Rightarrow> Some (h, cache, Inl e)
      | (h, Inr (SignedChallenge signed_challenge)) \<Rightarrow>
          (case verify_known_or_discovery ed signed_challenge (Known our_peer_id) discovery_audience now max_drift of
             Inl e \<Rightarrow>
               (case send_rejection tr e now h of
                  (h, Inl e') \<Rightarrow> Some (h, cache, Inl e')
                | (h, Inr _) \<Rightarrow> Some (h, cache, Inl (Handshake e)))
           | Inr verified \<Rightarrow>
               Option.bind (try_claim cache (vc_client_id verified) (ch_nonce (vc_challenge verified)) now) (\<lambda>(cache, claim).
               case claim of
                 Inl _ \<Rightarrow>
                   (case send_message tr (MsgRejection \<lparr>rj_reason = RejectReplayedNonce, rj_server_timestamp = now\<rparr>) h of
                      (h, Inl e') \<Rightarrow> Some (h, cache, Inl e')
                    | (h, Inr _) \<Rightarrow> Some (h, cache, Inl (Handshake (ChallengeValidation ReplayedNonce))))
               | Inr _ \<Rightarrow>
                   (case send_message tr (SignedResponse (create_response blake3 signer (vc_challenge verified) now)) h of
                      (h, Inl e') \<Rightarrow> Some (h, cache, Inl e')
                    | (h, Inr _) \<Rightarrow>
                        (case build_connection h (vc_client_id verified) of (conn, extra) \<Rightarrow>
                           Some (h, cache, Inr (from_handshake conn (vc_client_id verified) Accepted, extra))))))
      | (h, Inr _) \<Rightarrow> Some (h, cache, Inl UnexpectedMessage))"


section \<open>What a verified message proves\<close>

text \<open>
  \<open>carries ed P bs p x\<close>: the bytes are the signed message of the peer \<open>p\<close> with the payload
  \<open>x\<close>, followed by anything.
\<close>

definition carries :: "Ed25519 \<Rightarrow> 'a Payload \<Rightarrow> bytes \<Rightarrow> PeerId \<Rightarrow> 'a \<Rightarrow> bool" where
  "carries ed P bs p x \<longleftrightarrow> (\<exists>sg rest.
     bs = seal_payload_bytes P (peer_id_bytes p) x @ sg @ rest
     \<and> verify_strict ed (peer_id_bytes p) (seal_payload_bytes P (peer_id_bytes p) x) sg)"

context payload_codec
begin

lemma verified_carries:
  assumes "signed_try_decode ed P bs = Inr s" and "try_verify ed P s = Inr v"
  shows "carries ed P bs (peer_id_from_key (sg_issuer (vs_signed v))) (vs_payload v)" and "valid (vs_payload v)"
proof -
  note v = verify_sound [OF assms]
  obtain n where "try_decode_prefix ed P bs = Inr (s, n)"
    using assms(1) by (auto simp: decode_signed_prefix)
  from try_decode_prefix_inv [OF this] have "take n bs = sg_bytes s" by auto
  then have "bs = sg_bytes s @ drop n bs" by (metis append_take_drop_id)
  with v show "carries ed P bs (peer_id_from_key (sg_issuer (vs_signed v))) (vs_payload v)"
    unfolding carries_def peer_id_from_key_def by auto
  show "valid (vs_payload v)" using v by simp
qed

end

lemma verify_challenge_Inr:
  assumes "verify_challenge ed s aud now md = Inr v"
  shows "\<exists>w. try_verify ed challenge_payload s = Inr w \<and> vc_challenge v = vs_payload w
    \<and> vc_client_id v = peer_id_from_key (sg_issuer (vs_signed w))
    \<and> ch_audience (vc_challenge v) = aud \<and> abs_diff (ch_timestamp (vc_challenge v)) now \<le> md"
  using assms by (auto simp: verify_challenge_def Let_def result_iff challenge_validate_def is_fresh_def split: if_splits)

lemma verify_response_Inr:
  assumes "verify_response ed blake3 s c = Inr v"
  shows "\<exists>w. try_verify ed response_payload s = Inr w \<and> vr_response v = vs_payload w
    \<and> vr_server_id v = peer_id_from_key (sg_issuer (vs_signed w))
    \<and> rs_challenge_digest (vr_response v) = digest_hash blake3 challenge_payload c"
  using assms by (auto simp: verify_response_def Let_def result_iff response_validate_def split: if_splits)

lemma verify_known_or_discovery_Inr:
  assumes "verify_known_or_discovery ed s known disc now md = Inr v"
  shows "\<exists>aud. (aud = known \<or> disc = Some aud) \<and> verify_challenge ed s aud now md = Inr v"
  using assms by (auto simp: verify_known_or_discovery_def split: sum.splits option.splits if_splits)

lemma handshake_decode_Inr:
  assumes "handshake_try_decode ed bs = Inr m"
  shows "m = SignedChallenge s \<Longrightarrow> signed_try_decode ed challenge_payload bs = Inr s"
    and "m = SignedResponse s \<Longrightarrow> signed_try_decode ed response_payload bs = Inr s"
  using assms by (auto simp: handshake_try_decode_def result_iff split: if_splits)

lemma recv_handshake_Inr:
  assumes "recv_handshake_message tr ed h = (h', Inr m)"
  shows "\<exists>bs. tr_recv tr h = (h', Inr bs) \<and> handshake_try_decode ed bs = Inr m"
  using assms by (auto simp: recv_handshake_message_def result_iff split: prod.splits)

lemma io_bind_Inr:
  "io_bind m f h = (h', Inr y) \<longleftrightarrow> (\<exists>h1 x. m h = (h1, Inr x) \<and> f x h1 = (h', Inr y))"
  by (cases "m h") (auto simp: io_bind_def split: sum.splits)

lemma recv_verified_response_Inr:
  fixes tr :: "('h, 'e) Transport"
  assumes "recv_verified_response tr ed blake3 c h = (h', Inr p)"
  shows "\<exists>bs r. tr_recv tr h = (h', Inr bs) \<and> carries ed response_payload bs p r
    \<and> rs_challenge_digest r = digest_hash blake3 challenge_payload c"
proof -
  obtain m0 where m0: "recv_handshake_message tr ed h = (h', Inr m0)"
    and r: "(case m0 of
        SignedResponse sr \<Rightarrow> try_bind (map_err Handshake (verify_response ed blake3 sr c)) (\<lambda>v. Inr (vr_server_id v))
      | MsgRejection r \<Rightarrow> Inl (Rejected (rj_reason r) (rj_server_timestamp r))
      | SignedChallenge _ \<Rightarrow> Inl UnexpectedMessage) = (Inr p :: 'e AuthenticateError + PeerId)"
    using assms by (auto simp: recv_verified_response_def io_bind_Inr io_result_def)
  then obtain s v where m: "recv_handshake_message tr ed h = (h', Inr (SignedResponse s))"
    and v: "verify_response ed blake3 s c = Inr v" "p = vr_server_id v"
    by (cases m0) (auto simp: result_iff)
  obtain bs where bs: "tr_recv tr h = (h', Inr bs)" "signed_try_decode ed response_payload bs = Inr s"
    using recv_handshake_Inr [OF m] handshake_decode_Inr(2) by blast
  from verify_response_Inr [OF v(1)] obtain w where w: "try_verify ed response_payload s = Inr w"
    "vr_response v = vs_payload w" "vr_server_id v = peer_id_from_key (sg_issuer (vs_signed w))"
    "rs_challenge_digest (vr_response v) = digest_hash blake3 challenge_payload c" by blast
  with bs v(2) response.verified_carries(1) [OF bs(2) w(1)] show ?thesis
    by (intro exI [of _ bs] exI [of _ "vs_payload w"]) simp
qed


section \<open>Success of the roles\<close>

lemma dialed_Inr:
  "dialed build p h = (h', Inr (auth, extra)) \<longleftrightarrow>
     h' = h \<and> build h p = (au_inner auth, extra) \<and> au_peer_id auth = p \<and> au_direction auth = Dialed"
  by (cases "build h p"; cases auth) (auto simp: dialed_def from_handshake_def)

lemma simultaneous_open_Inr:
  assumes "simultaneous_open tr ed blake3 build signer audience now c sc their h = (h', Inr (auth, extra))"
  shows "\<exists>h1 h2 v. verify_known_or_discovery ed their (Known (peer_id_from_key (verifying_key signer)))
        (case audience of Discover _ \<Rightarrow> Some audience | Known _ \<Rightarrow> None) now SIMULTANEOUS_OPEN_MAX_DRIFT = Inr v
    \<and> vc_client_id v = au_peer_id auth \<and> au_peer_id auth \<noteq> peer_id_from_key (verifying_key signer)
    \<and> recv_verified_response tr ed blake3 c h1 = (h2, Inr (au_peer_id auth))
    \<and> build h' (au_peer_id auth) = (au_inner auth, extra) \<and> au_direction auth = Dialed"
  using assms unfolding simultaneous_open_def Let_def
  by (auto simp: io_bind_Inr io_result_def dialed_Inr result_iff split: if_splits)

lemma initiate_cases:
  assumes "initiate tr ed blake3 build signer audience now nonce h = (h', Inr (auth, extra))"
  shows "\<exists>h1 h2. recv_verified_response tr ed blake3 (challenge_new audience now nonce) h1 = (h2, Inr (au_peer_id auth))
    \<and> build h' (au_peer_id auth) = (au_inner auth, extra) \<and> au_direction auth = Dialed"
proof -
  let ?c = "challenge_new audience now nonce"
  let ?sc = "vs_signed (seal signer challenge_payload ?c)"
  from assms obtain h1 h2 m where m: "recv_handshake_message tr ed h1 = (h2, Inr m)"
    and rest: "(case m of
        SignedResponse sr \<Rightarrow> io_bind (io_result (map_err Handshake (verify_response ed blake3 sr ?c)))
          (\<lambda>verified. dialed build (vr_server_id verified))
      | MsgRejection r \<Rightarrow> io_result (Inl (Rejected (rj_reason r) (rj_server_timestamp r)))
      | SignedChallenge t \<Rightarrow> simultaneous_open tr ed blake3 build signer audience now ?c ?sc t) h2
        = (h', Inr (auth, extra))"
    unfolding initiate_def Let_def io_bind_Inr by blast
  show ?thesis
  proof (cases m)
    case (SignedChallenge t)
    with rest simultaneous_open_Inr show ?thesis by fastforce
  next
    case (SignedResponse sr)
    with rest obtain v where v: "verify_response ed blake3 sr ?c = Inr v" "au_peer_id auth = vr_server_id v"
      "build h' (au_peer_id auth) = (au_inner auth, extra)" "au_direction auth = Dialed"
      by (auto simp: io_bind_Inr io_result_def dialed_Inr result_iff)
    moreover have "recv_verified_response tr ed blake3 ?c h1 = (h2, Inr (vr_server_id v))"
      using m v(1) by (simp add: SignedResponse recv_verified_response_def io_bind_def io_result_def)
    ultimately show ?thesis by auto
  next
    case (MsgRejection r)
    with rest show ?thesis by (simp add: io_result_def)
  qed
qed

lemma respond_Inr:
  assumes "respond tr ed blake3 build signer cache our disc now max_drift h = Some (h', cache', Inr (auth, extra))"
  shows "\<exists>h1 s v. recv_handshake_message tr ed h = (h1, Inr (SignedChallenge s))
    \<and> verify_known_or_discovery ed s (Known our) disc now max_drift = Inr v
    \<and> try_claim cache (vc_client_id v) (ch_nonce (vc_challenge v)) now = Some (cache', Inr ())
    \<and> tr_send tr h1 (sg_bytes (create_response blake3 signer (vc_challenge v) now)) = (h', Inr ())
    \<and> build h' (vc_client_id v) = (au_inner auth, extra) \<and> au_peer_id auth = vc_client_id v
    \<and> au_direction auth = Accepted"
proof -
  obtain h1 m where m: "recv_handshake_message tr ed h = (h1, m)" by (cases "recv_handshake_message tr ed h")
  then obtain s v where s: "m = Inr (SignedChallenge s)"
    and v: "verify_known_or_discovery ed s (Known our) disc now max_drift = Inr v"
    using assms by (auto simp: respond_def split: sum.splits HandshakeMessage.splits prod.splits)
  then obtain cl where cl: "try_claim cache (vc_client_id v) (ch_nonce (vc_challenge v)) now = Some cl"
    using assms m by (cases "try_claim cache (vc_client_id v) (ch_nonce (vc_challenge v)) now") (auto simp: respond_def)
  obtain c1 r where c1: "cl = (c1, r)" by (cases cl)
  have r: "r = Inr ()"
    using assms m s v cl c1 by (cases r) (auto simp: respond_def split: prod.splits sum.splits)
  obtain h2 q where h2: "send_message tr (SignedResponse (create_response blake3 signer (vc_challenge v) now)) h1 = (h2, q)"
    by (cases "send_message tr (SignedResponse (create_response blake3 signer (vc_challenge v) now)) h1")
  have "q = Inr ()" "h' = h2" "c1 = cache'" "build h' (vc_client_id v) = (au_inner auth, extra)"
    "au_peer_id auth = vc_client_id v" "au_direction auth = Accepted"
    using assms m s v cl c1 r h2 by (auto simp: respond_def from_handshake_def split: prod.splits sum.splits)
  moreover have "tr_send tr h1 (sg_bytes (create_response blake3 signer (vc_challenge v) now)) = (h2, Inr ())"
    using h2 \<open>q = Inr ()\<close>
    by (auto simp: send_message_def handshake_encode_def result_iff split: prod.splits)
  ultimately show ?thesis using m s v cl c1 r by auto
qed

end
