(* ===== verification/Handshake_Props.thy ===== *)
theory Handshake_Props
  imports Handshake
begin

text \<open>
  Properties of the handshake: what success proves to either role, that failures leave the
  nonce cache alone, that honest peers complete, and the limit of the replay protection.
\<close>

section \<open>Honest messages\<close>

definition signer_peer :: "Signer \<Rightarrow> PeerId" where
  "signer_peer s = peer_id_from_key (verifying_key s)"

definition blake3_ok :: "blake3 \<Rightarrow> bool" where
  "blake3_ok blake3 \<longleftrightarrow> (\<forall>m. length (blake3 m) = 32)"

lemma seal_fields [simp]:
  "vs_payload (seal s P x) = x" "sg_issuer (vs_signed (seal s P x)) = verifying_key s"
  by (simp_all add: seal_def Let_def)

lemma sealed_nonempty [simp]: "signer_ok ed s \<Longrightarrow> sg_bytes (vs_signed (seal s P x)) \<noteq> []"
  by (auto simp: seal_def Let_def signer_ok_def seal_payload_bytes_disc)

lemma verify_challenge_sealed:
  assumes "signer_ok ed a" and "wf_Challenge c"
  shows "verify_challenge ed (vs_signed (seal a challenge_payload c)) aud now md =
    (if ch_audience c \<noteq> aud then Inl (ChallengeValidation InvalidAudience)
     else if abs_diff (ch_timestamp c) now \<le> md
     then Inr \<lparr>vc_client_id = signer_peer a, vc_challenge = c\<rparr>
     else Inl (ChallengeValidation (ClockDrift (ch_timestamp c) now)))"
  using challenge.seal_roundtrip(2) [OF assms(2,1)]
  by (simp add: verify_challenge_def challenge_validate_def is_fresh_def signer_peer_def)

lemma verify_known_or_discovery_sealed:
  assumes "signer_ok ed a" and "wf_Challenge c" and "ch_audience c = known \<or> disc = Some (ch_audience c)"
    and "abs_diff (ch_timestamp c) now \<le> md"
  shows "verify_known_or_discovery ed (vs_signed (seal a challenge_payload c)) known disc now md
    = Inr \<lparr>vc_client_id = signer_peer a, vc_challenge = c\<rparr>"
  using assms(3,4) by (auto simp: verify_known_or_discovery_def verify_challenge_sealed [OF assms(1,2)])

lemma wf_for_challenge: "blake3_ok blake3 \<Longrightarrow> wf_Response (for_challenge blake3 c now)"
  by (simp add: blake3_ok_def wf_Response_def for_challenge_def response_new_def digest_hash_def digest_hash_raw_def)

lemma verify_response_created:
  assumes "signer_ok ed b" and "blake3_ok blake3"
  shows "verify_response ed blake3 (create_response blake3 b c now) c =
    Inr \<lparr>vr_server_id = signer_peer b, vr_response = for_challenge blake3 c now\<rparr>"
  using response.seal_roundtrip(2) [OF wf_for_challenge [OF assms(2)] assms(1)]
  by (simp add: verify_response_def create_response_def response_validate_def for_challenge_def response_new_def
      signer_peer_def)


section \<open>A queue as transport\<close>

text \<open>Received messages are taken from a list, sent ones are appended to another.\<close>

record queue =
  q_in :: "bytes list"
  q_out :: "bytes list"

definition queue_transport :: "(queue, unit) Transport" where
  "queue_transport =
     \<lparr>tr_send = (\<lambda>q bs. (q\<lparr>q_out := q_out q @ [bs]\<rparr>, Inr ())),
      tr_recv = (\<lambda>q. case q_in q of [] \<Rightarrow> (q, Inl ()) | bs # rest \<Rightarrow> (q\<lparr>q_in := rest\<rparr>, Inr bs))\<rparr>"

lemma queue_send:
  "send_message queue_transport m q = (q\<lparr>q_out := q_out q @ [handshake_encode m]\<rparr>, Inr ())"
  by (simp add: send_message_def queue_transport_def)

lemma queue_recv_challenge:
  assumes "signer_ok ed a" and "wf_Challenge c" and "q_in q = sg_bytes (vs_signed (seal a challenge_payload c)) # rest"
  shows "recv_handshake_message queue_transport ed q
    = (q\<lparr>q_in := rest\<rparr>, Inr (SignedChallenge (vs_signed (seal a challenge_payload c))))"
  using decode_sealed(1) [OF assms(1,2), of "[]"] assms(1,3)
  by (simp add: recv_handshake_message_def queue_transport_def)

lemma queue_recv_response:
  assumes "signer_ok ed b" and "blake3_ok blake3" and "q_in q = sg_bytes (create_response blake3 b c now) # rest"
  shows "recv_handshake_message queue_transport ed q
    = (q\<lparr>q_in := rest\<rparr>, Inr (SignedResponse (create_response blake3 b c now)))"
  using decode_sealed(2) [OF assms(1) wf_for_challenge [OF assms(2), of c now], of "[]"] assms(1,3)
  by (simp add: recv_handshake_message_def queue_transport_def create_response_def)

lemma queue_recv_verified:
  assumes "signer_ok ed b" and "blake3_ok blake3" and "q_in q = sg_bytes (create_response blake3 b c now) # rest"
  shows "recv_verified_response queue_transport ed blake3 c q = (q\<lparr>q_in := rest\<rparr>, Inr (signer_peer b))"
  by (simp add: recv_verified_response_def io_bind_def queue_recv_response [OF assms] io_result_def
      verify_response_created [OF assms(1,2)])

lemma queue_recv_empty:
  "q_in q = [] \<Longrightarrow> recv_verified_response queue_transport ed blake3 c q = (q, Inl (Transport ()))"
  by (simp add: recv_verified_response_def recv_handshake_message_def queue_transport_def io_bind_def)

lemma respond_honest:
  assumes "signer_ok ed a" and "wf_Challenge c" and "ch_audience c = Known our \<or> disc = Some (ch_audience c)"
    and "abs_diff (ch_timestamp c) now \<le> md"
    and "try_claim cache (signer_peer a) (ch_nonce c) now = Some (cache', Inr ())"
  shows "respond queue_transport ed blake3 build b cache our disc now md
      \<lparr>q_in = [sg_bytes (vs_signed (seal a challenge_payload c))], q_out = []\<rparr>
    = (let q = \<lparr>q_in = [], q_out = [sg_bytes (create_response blake3 b c now)]\<rparr>; (conn, extra) = build q (signer_peer a)
       in Some (q, cache', Inr (from_handshake conn (signer_peer a) Accepted, extra)))"
  using assms(5) queue_recv_challenge [OF assms(1,2), of "\<lparr>q_in = _, q_out = _\<rparr>"]
  by (simp add: respond_def verify_known_or_discovery_sealed [OF assms(1-4)] queue_send handshake_encode_def Let_def
      split: prod.splits)

lemma initiate_honest:
  assumes "signer_ok ed b" and "blake3_ok blake3" and "c = challenge_new aud now nonce"
  shows "initiate queue_transport ed blake3 build a aud now nonce
      \<lparr>q_in = [sg_bytes (create_response blake3 b c now')], q_out = []\<rparr>
    = (let q = \<lparr>q_in = [], q_out = [sg_bytes (create_challenge a aud now nonce)]\<rparr>; (conn, extra) = build q (signer_peer b)
       in (q, Inr (from_handshake conn (signer_peer b) Dialed, extra)))"
  using queue_recv_response [OF assms(1,2), of "\<lparr>q_in = _, q_out = _\<rparr>" c now' "[]"]
    verify_response_created [OF assms(1,2), of c now']
  by (simp add: initiate_def Let_def io_bind_def queue_send handshake_encode_def create_challenge_def io_result_def
      dialed_def assms(3) [symmetric] split: prod.splits)

text \<open>
  The branch of the simultaneous open on honest messages. \<open>c\<close> is the own challenge and \<open>c'\<close>
  the challenge of the peer \<open>b\<close>; both sides then exchange responses, the one with the smaller
  bytes first.
\<close>

definition open_ok :: "Ed25519 \<Rightarrow> Signer \<Rightarrow> Audience \<Rightarrow> TimestampSeconds \<Rightarrow> Signer \<Rightarrow> Challenge \<Rightarrow> bool" where
  "open_ok ed a aud now b c' \<longleftrightarrow> signer_ok ed a \<and> signer_ok ed b \<and> wf_Challenge c' \<and> signer_peer a \<noteq> signer_peer b
     \<and> (ch_audience c' = Known (signer_peer a) \<or> (\<exists>d. aud = Discover d \<and> ch_audience c' = aud))
     \<and> abs_diff (ch_timestamp c') now \<le> SIMULTANEOUS_OPEN_MAX_DRIFT"

lemma sealed_bytes_differ:
  assumes "signer_ok ed a" and "signer_ok ed b" and "signer_peer a \<noteq> signer_peer b"
  shows "sg_bytes (vs_signed (seal a challenge_payload c)) \<noteq> sg_bytes (vs_signed (seal b challenge_payload c'))"
  using assms by (auto simp: seal_def Let_def seal_payload_bytes_disc signer_peer_def peer_id_from_key_def signer_ok_def)

lemma simultaneous_open_verified:
  assumes "open_ok ed a aud now b c'"
  shows "verify_known_or_discovery ed (vs_signed (seal b challenge_payload c')) (Known (signer_peer a))
      (case aud of Discover _ \<Rightarrow> Some aud | Known _ \<Rightarrow> None) now SIMULTANEOUS_OPEN_MAX_DRIFT
    = Inr \<lparr>vc_client_id = signer_peer b, vc_challenge = c'\<rparr>"
  using assms by (intro verify_known_or_discovery_sealed) (auto simp: open_ok_def)

lemmas io_simps = io_bind_def io_result_def queue_send handshake_encode_def dialed_def Let_def

text \<open>Each side takes the other's response from its queue and puts its own challenge and response out.\<close>

lemma initiate_simultaneous:
  assumes ok: "open_ok ed a aud now b c'" and "blake3_ok blake3"
    and c: "c = challenge_new aud now nonce"
  shows "initiate queue_transport ed blake3 build a aud now nonce
      \<lparr>q_in = [sg_bytes (vs_signed (seal b challenge_payload c')), sg_bytes (create_response blake3 b c now')], q_out = []\<rparr>
    = (let q = \<lparr>q_in = [], q_out = [sg_bytes (vs_signed (seal a challenge_payload c)), sg_bytes (create_response blake3 a c' now)]\<rparr>;
           (conn, extra) = build q (signer_peer b)
       in (q, Inr (from_handshake conn (signer_peer b) Dialed, extra)))"
proof -
  have a: "signer_ok ed a" "signer_ok ed b" "wf_Challenge c'" "signer_peer a \<noteq> signer_peer b"
    using ok by (simp_all add: open_ok_def)
  note facts = sealed_bytes_differ [OF a(1,2,4), of c c'] simultaneous_open_verified [OF ok]
    queue_recv_challenge [OF a(2,3)] queue_recv_verified [OF a(2) assms(2)] a(4)
  show ?thesis
    using facts
    by (simp add: initiate_def simultaneous_open_def io_simps c [symmetric] signer_peer_def [symmetric]
        eq_commute [of "signer_peer b"] split: prod.splits)
qed

text \<open>The side with the smaller bytes answers before it waits.\<close>

lemma initiate_loser_answers:
  assumes ok: "open_ok ed a aud now b c'" and c: "c = challenge_new aud now nonce"
    and less: "sg_bytes (vs_signed (seal a challenge_payload c)) < sg_bytes (vs_signed (seal b challenge_payload c'))"
  shows "initiate queue_transport ed blake3 build a aud now nonce
      \<lparr>q_in = [sg_bytes (vs_signed (seal b challenge_payload c'))], q_out = []\<rparr>
    = (\<lparr>q_in = [], q_out = [sg_bytes (vs_signed (seal a challenge_payload c)), sg_bytes (create_response blake3 a c' now)]\<rparr>,
       Inl (Transport ()))"
proof -
  have a: "signer_ok ed a" "signer_ok ed b" "wf_Challenge c'" "signer_peer a \<noteq> signer_peer b"
    using ok by (simp_all add: open_ok_def)
  note facts = sealed_bytes_differ [OF a(1,2,4), of c c'] simultaneous_open_verified [OF ok]
    queue_recv_challenge [OF a(2,3)] a(4) less
  show ?thesis
    using facts
    by (simp add: initiate_def simultaneous_open_def io_simps c [symmetric] signer_peer_def [symmetric]
        eq_commute [of "signer_peer b"] queue_recv_empty less_imp_not_less split: prod.splits)
qed

text \<open>The side with the greater bytes waits for the answer before it sends its own.\<close>

lemma initiate_winner_waits:
  assumes ok: "open_ok ed a aud now b c'" and c: "c = challenge_new aud now nonce"
    and less: "sg_bytes (vs_signed (seal b challenge_payload c')) < sg_bytes (vs_signed (seal a challenge_payload c))"
  shows "initiate queue_transport ed blake3 build a aud now nonce
      \<lparr>q_in = [sg_bytes (vs_signed (seal b challenge_payload c'))], q_out = []\<rparr>
    = (\<lparr>q_in = [], q_out = [sg_bytes (vs_signed (seal a challenge_payload c))]\<rparr>, Inl (Transport ()))"
proof -
  have a: "signer_ok ed a" "signer_ok ed b" "wf_Challenge c'" "signer_peer a \<noteq> signer_peer b"
    using ok by (simp_all add: open_ok_def)
  note facts = sealed_bytes_differ [OF a(1,2,4), of c c'] simultaneous_open_verified [OF ok]
    queue_recv_challenge [OF a(2,3)] a(4) less
  show ?thesis
    using facts
    by (simp add: initiate_def simultaneous_open_def io_simps c [symmetric] signer_peer_def [symmetric]
        eq_commute [of "signer_peer b"] queue_recv_empty split: prod.splits)
qed



section \<open>Concrete parameters\<close>

definition sample_blake3 :: blake3 where
  "sample_blake3 m = replicate 32 0"

definition sample_challenge :: "byte \<Rightarrow> Challenge" where
  "sample_challenge k = challenge_new (Known (signer_peer (sample_signer k))) (TimestampSeconds 179) (Nonce (replicate 16 7))"

lemma sample_blake3_ok: "blake3_ok sample_blake3"
  by (simp add: blake3_ok_def sample_blake3_def)

lemma sample_challenge_wf: "wf_Challenge (sample_challenge k)"
  by (simp add: wf_Challenge_def wf_Audience_def sample_challenge_def challenge_new_def signer_peer_def
      peer_id_from_key_def sample_signer_def)

lemma sample_challenge_fields [simp]:
  "ch_audience (sample_challenge k) = Known (signer_peer (sample_signer k))"
  "ch_timestamp (sample_challenge k) = TimestampSeconds 179" "ch_nonce (sample_challenge k) = Nonce (replicate 16 7)"
  by (simp_all add: sample_challenge_def challenge_new_def)

lemma sample_peers_differ: "signer_peer (sample_signer j) = signer_peer (sample_signer k) \<longleftrightarrow> j = k"
  by (simp add: signer_peer_def peer_id_from_key_def sample_signer_def replicate_eq_replicate)

lemma sample_claims_run:
  "\<exists>cache1 cache2. try_claim nonce_cache_default p n (TimestampSeconds 179) = Some (cache1, Inr ())
    \<and> try_claim cache1 p n (TimestampSeconds 720) = Some (cache2, Inr ())"
proof -
  let ?reqs = "[(p, n, TimestampSeconds 179), (p, n, TimestampSeconds 720)]"
  have "run_ok (window_spec 180) clock_ok (0, []) ?reqs" unfolding run_ok_sorted by simp
  moreover have "window_rel 180 (0, []) (nonce_cache_new 180)" by (rule window_rel_new) simp
  ultimately obtain c where
    "run_steps claim_step nonce_cache_default ?reqs = Some (c, [Inr (), Inr ()])"
    using claims.run_sim [of 180 "(0, [])" "nonce_cache_new 180" ?reqs]
    by (auto simp: window_spec_def Let_def nonce_cache_default_def DEFAULT_BUCKET_DURATION_def)
  then show ?thesis by (auto split: Option.bind_splits)
qed

lemma sample_respond:
  assumes "try_claim cache (signer_peer (sample_signer 1)) (Nonce (replicate 16 7)) now = Some (cache', Inr ())"
    and "abs_diff (TimestampSeconds 179) now \<le> MAX_PLAUSIBLE_DRIFT"
  shows "\<exists>q auth. respond queue_transport sample_ed25519 sample_blake3 (\<lambda>q p. (q, ())) (sample_signer 2) cache
      (signer_peer (sample_signer 2)) None now MAX_PLAUSIBLE_DRIFT
      \<lparr>q_in = [sg_bytes (vs_signed (seal (sample_signer 1) challenge_payload (sample_challenge 2)))], q_out = []\<rparr>
    = Some (q, cache', Inr (auth, ())) \<and> au_peer_id auth = signer_peer (sample_signer 1)"
  using respond_honest [of sample_ed25519 "sample_signer 1" "sample_challenge 2" "signer_peer (sample_signer 2)" None
      now MAX_PLAUSIBLE_DRIFT cache cache' sample_blake3 "\<lambda>q p. (q, ())" "sample_signer 2"]
    assms sample_signer_ok sample_challenge_wf
  by (simp add: Let_def from_handshake_def)


section \<open>Properties\<close>

text \<open>
  C3: When \<open>respond\<close> succeeds, the first message received carries a challenge with a valid
  signature of the peer that is reported, addressed to this node's identity or discovery
  audience and fresh; its nonce was claimed in the cache, and the response to it was sent.
\<close>

theorem respond_authenticates:
  assumes "respond tr ed blake3 build signer cache our disc now max_drift h = Some (h', cache', Inr (auth, extra))"
  shows "\<exists>h1 bs c. tr_recv tr h = (h1, Inr bs) \<and> carries ed challenge_payload bs (au_peer_id auth) c
    \<and> (ch_audience c = Known our \<or> disc = Some (ch_audience c)) \<and> abs_diff (ch_timestamp c) now \<le> max_drift
    \<and> try_claim cache (au_peer_id auth) (ch_nonce c) now = Some (cache', Inr ())
    \<and> tr_send tr h1 (sg_bytes (create_response blake3 signer c now)) = (h', Inr ())
    \<and> build h' (au_peer_id auth) = (au_inner auth, extra) \<and> au_direction auth = Accepted"
proof -
  obtain h1 s v where r: "recv_handshake_message tr ed h = (h1, Inr (SignedChallenge s))"
    "verify_known_or_discovery ed s (Known our) disc now max_drift = Inr v"
    "try_claim cache (vc_client_id v) (ch_nonce (vc_challenge v)) now = Some (cache', Inr ())"
    "tr_send tr h1 (sg_bytes (create_response blake3 signer (vc_challenge v) now)) = (h', Inr ())"
    "build h' (vc_client_id v) = (au_inner auth, extra)" "au_peer_id auth = vc_client_id v"
    "au_direction auth = Accepted"
    using respond_Inr [OF assms] by blast
  obtain bs where bs: "tr_recv tr h = (h1, Inr bs)" "signed_try_decode ed challenge_payload bs = Inr s"
    using recv_handshake_Inr [OF r(1)] handshake_decode_Inr(1) by blast
  obtain aud where aud: "aud = Known our \<or> disc = Some aud" "verify_challenge ed s aud now max_drift = Inr v"
    using verify_known_or_discovery_Inr [OF r(2)] by blast
  obtain w where w: "try_verify ed challenge_payload s = Inr w" "vc_challenge v = vs_payload w"
    "vc_client_id v = peer_id_from_key (sg_issuer (vs_signed w))" "ch_audience (vc_challenge v) = aud"
    "abs_diff (ch_timestamp (vc_challenge v)) now \<le> max_drift"
    using verify_challenge_Inr [OF aud(2)] by blast
  have "carries ed challenge_payload bs (au_peer_id auth) (vc_challenge v)"
    using challenge.verified_carries(1) [OF bs(2) w(1)] w(2,3) r(6) by simp
  then show ?thesis
    using bs(1) aud(1) w(4,5) r(3-7) by (intro exI [of _ h1] exI [of _ bs] exI [of _ "vc_challenge v"]) auto
qed

theorem respond_authenticates_witness:
  "\<exists>q cache' auth h1 bs c. respond queue_transport sample_ed25519 sample_blake3 (\<lambda>q p. (q, ())) (sample_signer 2)
      nonce_cache_default (signer_peer (sample_signer 2)) None (TimestampSeconds 179) MAX_PLAUSIBLE_DRIFT
      \<lparr>q_in = [sg_bytes (vs_signed (seal (sample_signer 1) challenge_payload (sample_challenge 2)))], q_out = []\<rparr>
    = Some (q, cache', Inr (auth, ()))
    \<and> tr_recv queue_transport
      \<lparr>q_in = [sg_bytes (vs_signed (seal (sample_signer 1) challenge_payload (sample_challenge 2)))], q_out = []\<rparr>
      = (h1, Inr bs) \<and> carries sample_ed25519 challenge_payload bs (au_peer_id auth) c"
proof -
  obtain cache1 where "try_claim nonce_cache_default (signer_peer (sample_signer 1)) (Nonce (replicate 16 7))
      (TimestampSeconds 179) = Some (cache1, Inr ())"
    using sample_claims_run by blast
  moreover have "abs_diff (TimestampSeconds 179) (TimestampSeconds 179) \<le> MAX_PLAUSIBLE_DRIFT"
    by (simp add: abs_diff_def MAX_PLAUSIBLE_DRIFT_def)
  ultimately show ?thesis
    using sample_respond respond_authenticates by (metis (no_types, lifting))
qed

text \<open>
  C10: When \<open>initiate\<close> succeeds, directly or through a simultaneous open, a message was received
  that carries a response signed by the peer that is reported and bound by its digest to the
  challenge of this run.
\<close>

theorem initiate_authenticates:
  assumes "initiate tr ed blake3 build signer audience now nonce h = (h', Inr (auth, extra))"
  shows "\<exists>h1 h2 bs r. tr_recv tr h1 = (h2, Inr bs) \<and> carries ed response_payload bs (au_peer_id auth) r
    \<and> rs_challenge_digest r = digest_hash blake3 challenge_payload (challenge_new audience now nonce)
    \<and> build h' (au_peer_id auth) = (au_inner auth, extra) \<and> au_direction auth = Dialed"
proof -
  obtain h1 h2 where "recv_verified_response tr ed blake3 (challenge_new audience now nonce) h1
      = (h2, Inr (au_peer_id auth))"
    and b: "build h' (au_peer_id auth) = (au_inner auth, extra)" "au_direction auth = Dialed"
    using initiate_cases [OF assms] by blast
  from recv_verified_response_Inr [OF this(1)] b show ?thesis by blast
qed

theorem initiate_authenticates_witness:
  "\<exists>q auth h1 h2 bs r. initiate queue_transport sample_ed25519 sample_blake3 (\<lambda>q p. (q, ())) (sample_signer 1)
      (Known (signer_peer (sample_signer 2))) (TimestampSeconds 179) (Nonce (replicate 16 7))
      \<lparr>q_in = [sg_bytes (create_response sample_blake3 (sample_signer 2) (sample_challenge 2) (TimestampSeconds 200))],
       q_out = []\<rparr> = (q, Inr (auth, ())) \<and> au_peer_id auth = signer_peer (sample_signer 2)
    \<and> tr_recv queue_transport h1 = (h2, Inr bs)
    \<and> carries sample_ed25519 response_payload bs (signer_peer (sample_signer 2)) r"
proof -
  obtain q auth where i: "initiate queue_transport sample_ed25519 sample_blake3 (\<lambda>q p. (q, ())) (sample_signer 1)
      (Known (signer_peer (sample_signer 2))) (TimestampSeconds 179) (Nonce (replicate 16 7))
      \<lparr>q_in = [sg_bytes (create_response sample_blake3 (sample_signer 2) (sample_challenge 2) (TimestampSeconds 200))],
       q_out = []\<rparr> = (q, Inr (auth, ()))" and a: "au_peer_id auth = signer_peer (sample_signer 2)"
    using initiate_honest [OF sample_signer_ok [of 2] sample_blake3_ok sample_challenge_def [of 2], of "\<lambda>q p. (q, ())"]
    by (simp add: from_handshake_def Let_def)
  from initiate_authenticates [OF i] i a show ?thesis by auto
qed

text \<open>
  C32: A failed \<open>respond\<close> leaves the nonce cache as it was unless a challenge was verified; then
  the cache is the one after the claim, and the claim succeeded only if sending the response
  failed. Forged, misdirected or stale challenges never enter the cache.
\<close>

theorem respond_failure_keeps_cache:
  assumes "respond tr ed blake3 build signer cache our disc now max_drift h = Some (h', cache', Inl e)"
  shows "cache' = cache \<or> (\<exists>h1 s v claim. recv_handshake_message tr ed h = (h1, Inr (SignedChallenge s))
    \<and> verify_known_or_discovery ed s (Known our) disc now max_drift = Inr v
    \<and> try_claim cache (vc_client_id v) (ch_nonce (vc_challenge v)) now = Some (cache', claim)
    \<and> (claim = Inr () \<longrightarrow> (\<exists>te. e = Transport te))
    \<and> (claim = Inl NonceReused \<longrightarrow> e = Handshake (ChallengeValidation ReplayedNonce) \<or> (\<exists>te. e = Transport te)))"
proof (cases "\<exists>h1 s v cl. recv_handshake_message tr ed h = (h1, Inr (SignedChallenge s))
    \<and> verify_known_or_discovery ed s (Known our) disc now max_drift = Inr v
    \<and> try_claim cache (vc_client_id v) (ch_nonce (vc_challenge v)) now = Some cl")
  case True
  then obtain h1 s v c1 r where t: "recv_handshake_message tr ed h = (h1, Inr (SignedChallenge s))"
    "verify_known_or_discovery ed s (Known our) disc now max_drift = Inr v"
    "try_claim cache (vc_client_id v) (ch_nonce (vc_challenge v)) now = Some (c1, r)" by auto
  have "c1 = cache' \<and> (r = Inr () \<longrightarrow> (\<exists>te. e = Transport te))
    \<and> (r = Inl NonceReused \<longrightarrow> e = Handshake (ChallengeValidation ReplayedNonce) \<or> (\<exists>te. e = Transport te))"
    using assms t
    by (cases r) (auto simp: respond_def send_message_def map_err_def split: prod.splits sum.splits)
  with t show ?thesis by blast
next
  case False
  then have "cache' = cache"
    using assms by (auto simp: respond_def split: prod.splits sum.splits HandshakeMessage.splits Option.bind_splits)
  then show ?thesis ..
qed

theorem respond_failure_keeps_cache_witness:
  "\<exists>q cache'. respond queue_transport sample_ed25519 sample_blake3 (\<lambda>q p. (q, ())) (sample_signer 2)
      nonce_cache_default (signer_peer (sample_signer 2)) None (TimestampSeconds 179) MAX_PLAUSIBLE_DRIFT
      \<lparr>q_in = [sg_bytes (vs_signed (seal (sample_signer 1) challenge_payload (sample_challenge 3)))], q_out = []\<rparr>
    = Some (q, cache', Inl (Handshake (ChallengeValidation InvalidAudience))) \<and> cache' = nonce_cache_default"
proof -
  let ?bs = "sg_bytes (vs_signed (seal (sample_signer 1) challenge_payload (sample_challenge 3)))"
  obtain q cache' where r: "respond queue_transport sample_ed25519 sample_blake3 (\<lambda>q p. (q, ())) (sample_signer 2)
      nonce_cache_default (signer_peer (sample_signer 2)) None (TimestampSeconds 179) MAX_PLAUSIBLE_DRIFT
      \<lparr>q_in = [?bs], q_out = []\<rparr> = Some (q, cache', Inl (Handshake (ChallengeValidation InvalidAudience)))"
    using queue_recv_challenge [OF sample_signer_ok [of 1] sample_challenge_wf [of 3], of "\<lparr>q_in = [?bs], q_out = []\<rparr>" "[]"]
    by (simp add: respond_def verify_known_or_discovery_def verify_challenge_sealed [OF sample_signer_ok sample_challenge_wf]
        sample_peers_differ send_rejection_def queue_send Let_def)
  obtain claim_or: "cache' = nonce_cache_default \<or> (\<exists>claim :: NonceReused + unit. claim \<noteq> Inr () \<and> claim \<noteq> Inl NonceReused)"
    using respond_failure_keeps_cache [OF r] by auto
  have "claim = Inr () \<or> claim = Inl NonceReused" for claim :: "NonceReused + unit"
    by (cases claim) (auto intro: NonceReused.exhaust)
  with claim_or r show ?thesis by blast
qed

text \<open>
  C33: Honest peers complete. If the challenge of \<open>a\<close> is addressed to \<open>b\<close>, fresh for \<open>b\<close>'s clock and
  its nonce is new, then \<open>respond\<close> accepts it and reports \<open>a\<close>, and \<open>initiate\<close> accepts the response
  that was sent and reports \<open>b\<close>.
\<close>

theorem handshake_completes:
  assumes "signer_ok ed a" and "signer_ok ed b" and "blake3_ok blake3"
    and "wf_Challenge (challenge_new aud now_a nonce)" and "aud = Known (signer_peer b) \<or> disc = Some aud"
    and "abs_diff now_a now_b \<le> max_drift"
    and "try_claim cache (signer_peer a) nonce now_b = Some (cache', Inr ())"
  shows "\<exists>answer q auth extra auth' extra'.
    respond queue_transport ed blake3 build b cache (signer_peer b) disc now_b max_drift
      \<lparr>q_in = [sg_bytes (create_challenge a aud now_a nonce)], q_out = []\<rparr>
      = Some (\<lparr>q_in = [], q_out = [answer]\<rparr>, cache', Inr (auth, extra))
    \<and> au_peer_id auth = signer_peer a \<and> au_direction auth = Accepted
    \<and> initiate queue_transport ed blake3 build' a aud now_a nonce \<lparr>q_in = [answer], q_out = []\<rparr>
      = (\<lparr>q_in = [], q_out = [sg_bytes (create_challenge a aud now_a nonce)]\<rparr>, Inr (auth', extra'))
    \<and> au_peer_id auth' = signer_peer b \<and> au_direction auth' = Dialed"
  using respond_honest [OF assms(1,4), of "signer_peer b" disc now_b max_drift cache cache' blake3 build b]
    initiate_honest [OF assms(2,3) refl, of build' a aud now_a nonce now_b] assms(5-7)
  by (auto simp: create_challenge_def challenge_new_def Let_def from_handshake_def split: prod.splits)

theorem handshake_completes_witness:
  "\<exists>answer cache' auth auth'.
    respond queue_transport sample_ed25519 sample_blake3 (\<lambda>q p. (q, ())) (sample_signer 2)
      nonce_cache_default (signer_peer (sample_signer 2)) None (TimestampSeconds 179) MAX_PLAUSIBLE_DRIFT
      \<lparr>q_in = [sg_bytes (create_challenge (sample_signer 1) (Known (signer_peer (sample_signer 2))) (TimestampSeconds 179)
        (Nonce (replicate 16 7)))], q_out = []\<rparr>
      = Some (\<lparr>q_in = [], q_out = [answer]\<rparr>, cache', Inr (auth, ()))
    \<and> initiate queue_transport sample_ed25519 sample_blake3 (\<lambda>q p. (q, ())) (sample_signer 1)
      (Known (signer_peer (sample_signer 2))) (TimestampSeconds 179) (Nonce (replicate 16 7)) \<lparr>q_in = [answer], q_out = []\<rparr>
      = (\<lparr>q_in = [], q_out = [sg_bytes (create_challenge (sample_signer 1) (Known (signer_peer (sample_signer 2)))
        (TimestampSeconds 179) (Nonce (replicate 16 7)))]\<rparr>, Inr (auth', ()))
    \<and> au_peer_id auth = signer_peer (sample_signer 1) \<and> au_peer_id auth' = signer_peer (sample_signer 2)"
proof -
  obtain cache' where c: "try_claim nonce_cache_default (signer_peer (sample_signer 1)) (Nonce (replicate 16 7))
      (TimestampSeconds 179) = Some (cache', Inr ())"
    using sample_claims_run by blast
  have d: "abs_diff (TimestampSeconds 179) (TimestampSeconds 179) \<le> MAX_PLAUSIBLE_DRIFT"
    by (simp add: abs_diff_def MAX_PLAUSIBLE_DRIFT_def)
  from handshake_completes [OF sample_signer_ok [of 1] sample_signer_ok [of 2] sample_blake3_ok
      sample_challenge_wf [of 2, unfolded sample_challenge_def] _ d c, of None "\<lambda>q p. (q, ())" "\<lambda>q p. (q, ())"]
  show ?thesis by auto
qed

text \<open>
  C34: Simultaneous open. When two peers both call \<open>initiate\<close>, exactly the one with the
  lexicographically smaller challenge answers on seeing the other challenge; the one with the
  greater challenge sends nothing more until it has that answer. It then completes on challenge and
  answer, and the first completes on the answer it gets. Each reports the other.
\<close>

theorem simultaneous_open_completes:
  assumes "open_ok ed a aud_a now_a b (challenge_new aud_b now_b nonce_b)"
    and "open_ok ed b aud_b now_b a (challenge_new aud_a now_a nonce_a)" and "blake3_ok blake3"
    and "sg_bytes (create_challenge a aud_a now_a nonce_a) < sg_bytes (create_challenge b aud_b now_b nonce_b)"
  shows "\<exists>answer_a answer_b auth_a extra_a auth_b extra_b.
    initiate queue_transport ed blake3 build a aud_a now_a nonce_a
      \<lparr>q_in = [sg_bytes (create_challenge b aud_b now_b nonce_b)], q_out = []\<rparr>
      = (\<lparr>q_in = [], q_out = [sg_bytes (create_challenge a aud_a now_a nonce_a), answer_a]\<rparr>, Inl (Transport ()))
    \<and> initiate queue_transport ed blake3 build' b aud_b now_b nonce_b
      \<lparr>q_in = [sg_bytes (create_challenge a aud_a now_a nonce_a)], q_out = []\<rparr>
      = (\<lparr>q_in = [], q_out = [sg_bytes (create_challenge b aud_b now_b nonce_b)]\<rparr>, Inl (Transport ()))
    \<and> initiate queue_transport ed blake3 build' b aud_b now_b nonce_b
      \<lparr>q_in = [sg_bytes (create_challenge a aud_a now_a nonce_a), answer_a], q_out = []\<rparr>
      = (\<lparr>q_in = [], q_out = [sg_bytes (create_challenge b aud_b now_b nonce_b), answer_b]\<rparr>, Inr (auth_b, extra_b))
    \<and> initiate queue_transport ed blake3 build a aud_a now_a nonce_a
      \<lparr>q_in = [sg_bytes (create_challenge b aud_b now_b nonce_b), answer_b], q_out = []\<rparr>
      = (\<lparr>q_in = [], q_out = [sg_bytes (create_challenge a aud_a now_a nonce_a), answer_a]\<rparr>, Inr (auth_a, extra_a))
    \<and> au_peer_id auth_a = signer_peer b \<and> au_peer_id auth_b = signer_peer a"
  using initiate_loser_answers [OF assms(1) refl, of nonce_a blake3 build] assms(4)
    initiate_winner_waits [OF assms(2) refl, of nonce_b blake3 build']
    initiate_simultaneous [OF assms(1,3) refl, of build nonce_a now_b]
    initiate_simultaneous [OF assms(2,3) refl, of build' nonce_b now_a]
  by (auto simp: create_challenge_def Let_def from_handshake_def split: prod.splits)

lemma sample_open_ok:
  "j \<noteq> k \<Longrightarrow> open_ok sample_ed25519 (sample_signer j) (Known (signer_peer (sample_signer k))) (TimestampSeconds 179)
     (sample_signer k) (sample_challenge j)"
  by (simp add: open_ok_def sample_signer_ok sample_challenge_wf sample_peers_differ abs_diff_def
      SIMULTANEOUS_OPEN_MAX_DRIFT_def)

lemma sample_less:
  "sg_bytes (create_challenge (sample_signer 1) aud now nonce) < sg_bytes (create_challenge (sample_signer 2) aud' now' nonce')"
proof -
  have "replicate 32 k = k # replicate 31 k" for k :: byte by (simp add: numeral_eq_Suc)
  then show ?thesis
    by (simp add: create_challenge_def seal_def Let_def seal_payload_bytes_disc disc_bytes_def sample_signer_def)
qed

theorem simultaneous_open_completes_witness:
  "\<exists>answer_a answer_b q_a q_b auth_a extra_a auth_b extra_b.
    initiate queue_transport sample_ed25519 sample_blake3 (\<lambda>q p. (q, ())) (sample_signer 1)
      (Known (signer_peer (sample_signer 2))) (TimestampSeconds 179) (Nonce (replicate 16 7))
      \<lparr>q_in = [sg_bytes (create_challenge (sample_signer 2) (Known (signer_peer (sample_signer 1)))
         (TimestampSeconds 179) (Nonce (replicate 16 7))), answer_b], q_out = []\<rparr> = (q_a, Inr (auth_a, extra_a))
    \<and> initiate queue_transport sample_ed25519 sample_blake3 (\<lambda>q p. (q, ())) (sample_signer 2)
      (Known (signer_peer (sample_signer 1))) (TimestampSeconds 179) (Nonce (replicate 16 7))
      \<lparr>q_in = [sg_bytes (create_challenge (sample_signer 1) (Known (signer_peer (sample_signer 2)))
         (TimestampSeconds 179) (Nonce (replicate 16 7))), answer_a], q_out = []\<rparr> = (q_b, Inr (auth_b, extra_b))
    \<and> au_peer_id auth_a = signer_peer (sample_signer 2) \<and> au_peer_id auth_b = signer_peer (sample_signer 1)"
proof -
  have ne: "(1 :: byte) \<noteq> 2" "(2 :: byte) \<noteq> 1" by simp_all
  note o = sample_open_ok [OF ne(1), unfolded sample_challenge_def] sample_open_ok [OF ne(2), unfolded sample_challenge_def]
  from simultaneous_open_completes [OF o sample_blake3_ok sample_less, of "\<lambda>q p. (q, ())" "\<lambda>q p. (q, ())"]
  show ?thesis by blast
qed

text \<open>
  The limit of the replay protection. The bytes of one challenge, stamped at second 179,
  are accepted by a responder with the default cache at second 179 and again at second 720,
  although both times are within \<open>MAX_PLAUSIBLE_DRIFT\<close> of the stamp: the claim has expired
  after four buckets of three minutes while the challenge is still fresh.
\<close>

lemma replay_accepted_after_expiry:
  "let bs = sg_bytes (create_challenge (sample_signer 1) (Known (signer_peer (sample_signer 2))) (TimestampSeconds 179)
         (Nonce (replicate 16 7)));
       node = respond queue_transport sample_ed25519 sample_blake3 (\<lambda>q p. (q, ())) (sample_signer 2)
   in \<exists>q cache1 auth q' cache2 auth'.
    node nonce_cache_default (signer_peer (sample_signer 2)) None (TimestampSeconds 179) MAX_PLAUSIBLE_DRIFT
      \<lparr>q_in = [bs], q_out = []\<rparr> = Some (q, cache1, Inr (auth, ()))
    \<and> node cache1 (signer_peer (sample_signer 2)) None (TimestampSeconds 720) MAX_PLAUSIBLE_DRIFT
      \<lparr>q_in = [bs], q_out = []\<rparr> = Some (q', cache2, Inr (auth', ()))
    \<and> au_peer_id auth = signer_peer (sample_signer 1) \<and> au_peer_id auth' = signer_peer (sample_signer 1)"
proof -
  let ?p = "signer_peer (sample_signer 1)" and ?n = "Nonce (replicate 16 7)"
  obtain cache1 cache2 where c: "try_claim nonce_cache_default ?p ?n (TimestampSeconds 179) = Some (cache1, Inr ())"
    "try_claim cache1 ?p ?n (TimestampSeconds 720) = Some (cache2, Inr ())"
    using sample_claims_run by blast
  have d: "abs_diff (TimestampSeconds 179) (TimestampSeconds 179) \<le> MAX_PLAUSIBLE_DRIFT"
    "abs_diff (TimestampSeconds 179) (TimestampSeconds 720) \<le> MAX_PLAUSIBLE_DRIFT"
    by (simp_all add: abs_diff_def MAX_PLAUSIBLE_DRIFT_def)
  have b: "create_challenge (sample_signer 1) (Known (signer_peer (sample_signer 2))) (TimestampSeconds 179) ?n
      = vs_signed (seal (sample_signer 1) challenge_payload (sample_challenge 2))"
    by (simp add: create_challenge_def sample_challenge_def)
  show ?thesis
    unfolding Let_def b using sample_respond [OF c(1) d(1)] sample_respond [OF c(2) d(2)] by blast
qed



text \<open>
  C36: Domain separation. The bytes that are signed for a commit, a fragment, a challenge and a
  response differ in the schema or the discriminant, so a signature made for one kind of
  payload is never one for another kind, whoever the issuer is and whatever follows.
\<close>

theorem signed_bytes_separated:
  "seal_payload_bytes (loose_commit_payload bj) k1 lc @ r1 \<noteq> seal_payload_bytes (fragment_payload bj) k2 f @ r2
   \<and> seal_payload_bytes (loose_commit_payload bj) k1 lc @ r1 \<noteq> seal_payload_bytes challenge_payload k3 c @ r3
   \<and> seal_payload_bytes (loose_commit_payload bj) k1 lc @ r1 \<noteq> seal_payload_bytes response_payload k4 r @ r4
   \<and> seal_payload_bytes (fragment_payload bj) k2 f @ r2 \<noteq> seal_payload_bytes challenge_payload k3 c @ r3
   \<and> seal_payload_bytes (fragment_payload bj) k2 f @ r2 \<noteq> seal_payload_bytes response_payload k4 r @ r4
   \<and> seal_payload_bytes challenge_payload k3 c @ r3 \<noteq> seal_payload_bytes response_payload k4 r @ r4"
  by (simp add: seal_payload_bytes_disc disc_bytes_def loose_commit_payload_def fragment_payload_def
      schema_header_def SEDIMENTREE_PREFIX_def)

end
