(* ===== verification/Fragment_Builder.thy ===== *)
theory Fragment_Builder
  imports Handshake_Props
begin

text \<open>
  Building fragments from a store of commits, \<^verbatim>\<open>sedimentree_core/src/commit.rs\<close>. The store is a
  parameter: a lookup that may fail or find nothing, and the parents of a node. Nothing bounds
  the commits a lookup can find, so the loops are \<open>partial_function\<close>s: \<open>None\<close> is a loop that
  does not end (or a failing \<open>expect\<close>), and that it does not happen is proved for stores that
  hold finitely many commits. Stacks have their top at the head of the list.
\<close>

section \<open>Stores and states\<close>

record ('n, 'e) CommitStore =
  cs_lookup :: "CommitId \<Rightarrow> 'e + 'n option"
  cs_parents :: "'n \<Rightarrow> CommitId list"

datatype 'e FragmentError = LookupError 'e | MissingCommit CommitId | DepthZeroHead CommitId

record 'n FragmentState =
  fst_head_id :: CommitId
  fst_members :: "CommitId set"
  fst_checkpoints :: "CommitId set"
  fst_boundary :: "(CommitId, 'n) omap"

type_synonym 'n known_states = "(CommitId, 'n FragmentState) omap"

definition to_fragment :: "'n FragmentState \<Rightarrow> SedimentreeId \<Rightarrow> BlobMeta \<Rightarrow> Fragment" where
  "to_fragment self sedimentree_id blob_meta =
     (let checkpoints = sorted_list_of_set (fst_checkpoints self)
      in fragment_new sedimentree_id (fst_head_id self) (om_keys (fst_boundary self)) checkpoints blob_meta)"

definition retain_members :: "'n FragmentState \<Rightarrow> (CommitId \<Rightarrow> bool) \<Rightarrow> 'n FragmentState" where
  "retain_members self predicate =
     self\<lparr>fst_members := {c \<in> fst_members self. predicate c},
          fst_checkpoints := {c \<in> fst_checkpoints self. predicate c}\<rparr>"


section \<open>One fragment\<close>

text \<open>The local variables of the walk.\<close>

record 'n FragmentScan =
  sc_visited :: "CommitId set"
  sc_members :: "CommitId set"
  sc_boundary :: "(CommitId, 'n) omap"
  sc_checkpoints :: "CommitId set"

partial_function (option) fragment_loop :: "('n, 'e) CommitStore \<Rightarrow> DepthMetric \<Rightarrow> Depth \<Rightarrow> CommitId list
    \<Rightarrow> 'n FragmentScan \<Rightarrow> ('e FragmentError + 'n FragmentScan) option" where
  "fragment_loop store to_depth head_depth queue sc = (case queue of
     [] \<Rightarrow> Some (Inr sc)
   | i # queue \<Rightarrow>
       if i \<in> sc_visited sc then fragment_loop store to_depth head_depth queue sc
       else
         (case cs_lookup store i of
            Inl e \<Rightarrow> Some (Inl (LookupError e))
          | Inr None \<Rightarrow> Some (Inl (MissingCommit i))
          | Inr (Some node) \<Rightarrow>
              (let sc = sc\<lparr>sc_visited := insert i (sc_visited sc)\<rparr>; depth = to_depth i in
               if head_depth \<le> depth
               then fragment_loop store to_depth head_depth queue (sc\<lparr>sc_boundary := om_insert i node (sc_boundary sc)\<rparr>)
               else
                 fragment_loop store to_depth head_depth
                   (rev (filter (\<lambda>p. p \<notin> sc_visited sc) (cs_parents store node)) @ queue)
                   (sc\<lparr>sc_members := insert i (sc_members sc),
                       sc_checkpoints := (if is_boundary depth \<and> depth < head_depth
                         then insert i (sc_checkpoints sc) else sc_checkpoints sc)\<rparr>))))"

text \<open>The members of the known fragments whose heads are on the boundary.\<close>

definition known_boundary_members :: "'n known_states \<Rightarrow> CommitId list \<Rightarrow> CommitId set" where
  "known_boundary_members known boundary_keys =
     (\<Union>b \<in> set boundary_keys. case map_of known b of None \<Rightarrow> {} | Some st \<Rightarrow> fst_members st)"

definition fragment :: "('n, 'e) CommitStore \<Rightarrow> CommitId \<Rightarrow> 'n known_states \<Rightarrow> DepthMetric
    \<Rightarrow> ('e FragmentError + 'n FragmentState) option" where
  "fragment store head_id known to_depth =
     (let head_depth = to_depth head_id in
      if \<not> is_boundary head_depth then Some (Inl (DepthZeroHead head_id))
      else
        case cs_lookup store head_id of
          Inl e \<Rightarrow> Some (Inl (LookupError e))
        | Inr None \<Rightarrow> Some (Inl (MissingCommit head_id))
        | Inr (Some head_node) \<Rightarrow>
            Option.bind (fragment_loop store to_depth head_depth (rev (cs_parents store head_node))
                \<lparr>sc_visited = {head_id}, sc_members = {head_id}, sc_boundary = [], sc_checkpoints = {}\<rparr>) (\<lambda>r.
            Some (try_bind r (\<lambda>sc.
              let strip = known_boundary_members known (om_keys (sc_boundary sc))
              in Inr \<lparr>fst_head_id = head_id, fst_members = sc_members sc - strip,
                      fst_checkpoints = sc_checkpoints sc - strip, fst_boundary = sc_boundary sc\<rparr>))))"


section \<open>All fragments\<close>

definition boundary_keys :: "'n known_states \<Rightarrow> CommitId \<Rightarrow> CommitId list" where
  "boundary_keys known b = (case map_of known b of None \<Rightarrow> [] | Some st \<Rightarrow> om_keys (fst_boundary st))"

function ancestor_loop :: "'n known_states \<Rightarrow> CommitId list \<Rightarrow> CommitId set \<Rightarrow> CommitId set \<Rightarrow> CommitId set" where
  "ancestor_loop known [] seen acc = acc"
| "ancestor_loop known (b # to_visit) seen acc =
     (if b \<in> seen then ancestor_loop known to_visit seen acc
      else
        case map_of known b of
          Some anc \<Rightarrow>
            ancestor_loop known (rev (om_keys (fst_boundary anc)) @ to_visit) (insert b seen) (acc \<union> fst_members anc)
        | None \<Rightarrow> ancestor_loop known to_visit (insert b seen) acc)"
  by pat_completeness auto
termination
proof (relation "inv_image (finite_psubset <*lex*> less_than)
    (\<lambda>(known, to_visit, seen, acc). (fst ` set known - seen, length to_visit))", goal_cases)
  case (3 known b to_visit seen acc)
  then have "fst ` set known - insert b seen = fst ` set known - seen"
    by (auto simp: map_of_eq_None_iff)
  then show ?case by simp
next
  case (4 known b to_visit seen acc anc)
  then have "b \<in> fst ` set known - seen" by (auto dest: map_of_SomeD intro: rev_image_eqI)
  then show ?case by (auto simp: finite_psubset_def)
qed (auto simp: finite_psubset_def [THEN eq_reflection] wf_finite_psubset [unfolded finite_psubset_def])

definition transitive_ancestor_members :: "'n FragmentState \<Rightarrow> 'n known_states \<Rightarrow> CommitId set" where
  "transitive_ancestor_members self known = ancestor_loop known (rev (om_keys (fst_boundary self))) {} {}"

partial_function (option) build_loop :: "('n, 'e) CommitStore \<Rightarrow> DepthMetric \<Rightarrow> CommitId list \<Rightarrow> CommitId set
    \<Rightarrow> 'n known_states \<Rightarrow> CommitId list \<Rightarrow> ('e FragmentError + ('n known_states \<times> CommitId list)) option" where
  "build_loop store to_depth queue visited known fresh_heads = (case queue of
     [] \<Rightarrow> Some (Inr (known, fresh_heads))
   | head # queue \<Rightarrow>
       if head \<in> visited then build_loop store to_depth queue visited known fresh_heads
       else
         (case map_of known head of
            Some state \<Rightarrow>
              build_loop store to_depth (rev (om_keys (fst_boundary state)) @ queue) (insert head visited) known fresh_heads
          | None \<Rightarrow>
              if \<not> is_boundary (to_depth head) then
                (case cs_lookup store head of
                   Inl e \<Rightarrow> Some (Inl (LookupError e))
                 | Inr None \<Rightarrow> build_loop store to_depth queue (insert head visited) known fresh_heads
                 | Inr (Some node) \<Rightarrow>
                     build_loop store to_depth (rev (cs_parents store node) @ queue) (insert head visited) known fresh_heads)
              else
                Option.bind (fragment store head known to_depth) (\<lambda>r. case r of
                  Inr state \<Rightarrow>
                    build_loop store to_depth (rev (om_keys (fst_boundary state)) @ queue) (insert head visited)
                      (om_insert head state known) (fresh_heads @ [head])
                | Inl e \<Rightarrow>
                    (case e of
                       MissingCommit _ \<Rightarrow> build_loop store to_depth queue (insert head visited) known fresh_heads
                     | _ \<Rightarrow> Some (Inl e)))))"

text \<open>The post-pass, one fresh head after the other.\<close>

definition dedupe_head :: "'n known_states \<Rightarrow> CommitId \<Rightarrow> 'n known_states" where
  "dedupe_head known head = (case map_of known head of
     None \<Rightarrow> known
   | Some state \<Rightarrow>
       (let ancestor_members = transitive_ancestor_members state known in
        if ancestor_members = {} then known
        else om_insert head (retain_members state (\<lambda>c. c \<notin> ancestor_members)) known))"

definition post_pass :: "'n known_states \<Rightarrow> CommitId list \<Rightarrow> 'n known_states" where
  "post_pass known fresh_heads = foldl dedupe_head known fresh_heads"

definition build_fragment_store :: "('n, 'e) CommitStore \<Rightarrow> CommitId list \<Rightarrow> 'n known_states \<Rightarrow> DepthMetric
    \<Rightarrow> ('e FragmentError + ('n known_states \<times> 'n FragmentState list)) option" where
  "build_fragment_store store head_ids known to_depth =
     Option.bind (build_loop store to_depth (rev head_ids) {} known []) (\<lambda>r. case r of
       Inl e \<Rightarrow> Some (Inl e)
     | Inr (known, fresh_heads) \<Rightarrow>
         (let known = post_pass known fresh_heads in
          Option.bind (those (map (map_of known) fresh_heads)) (\<lambda>fresh. Some (Inr (known, fresh)))))"


section \<open>What the walk reaches\<close>

definition present :: "('n, 'e) CommitStore \<Rightarrow> CommitId set" where
  "present store = {i. \<exists>n. cs_lookup store i = Inr (Some n)}"

text \<open>The walk from \<open>head\<close> goes on to the parents of the head and of shallower commits.\<close>

definition frag_edge :: "('n, 'e) CommitStore \<Rightarrow> DepthMetric \<Rightarrow> CommitId \<Rightarrow> CommitId \<Rightarrow> CommitId \<Rightarrow> bool" where
  "frag_edge store to_depth head i j \<longleftrightarrow> (i = head \<or> to_depth i < to_depth head)
     \<and> (\<exists>n. cs_lookup store i = Inr (Some n) \<and> j \<in> set (cs_parents store n))"

definition frag_reach :: "('n, 'e) CommitStore \<Rightarrow> DepthMetric \<Rightarrow> CommitId \<Rightarrow> CommitId set" where
  "frag_reach store to_depth head = {i. (frag_edge store to_depth head)\<^sup>*\<^sup>* head i}"

lemma frag_reach_step:
  "i \<in> frag_reach store to_depth head \<Longrightarrow> frag_edge store to_depth head i j \<Longrightarrow> j \<in> frag_reach store to_depth head"
  by (simp add: frag_reach_def rtranclp.rtrancl_into_rtrancl)

lemma frag_reach_head [simp]: "head \<in> frag_reach store to_depth head"
  by (simp add: frag_reach_def)

definition scan_inv :: "('n, 'e) CommitStore \<Rightarrow> DepthMetric \<Rightarrow> CommitId \<Rightarrow> CommitId list \<Rightarrow> 'n FragmentScan \<Rightarrow> bool" where
  "scan_inv store to_depth head queue sc \<longleftrightarrow>
     head \<in> sc_visited sc \<and> sc_visited sc \<subseteq> frag_reach store to_depth head \<inter> present store
     \<and> set queue \<subseteq> frag_reach store to_depth head
     \<and> (\<forall>i j. i \<in> sc_visited sc \<longrightarrow> frag_edge store to_depth head i j \<longrightarrow> j \<in> sc_visited sc \<union> set queue)
     \<and> sc_members sc = {i \<in> sc_visited sc. i = head \<or> to_depth i < to_depth head}
     \<and> sc_checkpoints sc = {i \<in> sc_visited sc. i \<noteq> head \<and> is_boundary (to_depth i) \<and> to_depth i < to_depth head}
     \<and> om_inv (sc_boundary sc)
     \<and> (\<forall>i n. map_of (sc_boundary sc) i = Some n \<longleftrightarrow>
          i \<in> sc_visited sc \<and> i \<noteq> head \<and> \<not> to_depth i < to_depth head \<and> cs_lookup store i = Inr (Some n))"

lemma scan_invD:
  assumes "scan_inv store to_depth head queue sc"
  shows "head \<in> sc_visited sc" and "sc_visited sc \<subseteq> frag_reach store to_depth head"
    and "sc_visited sc \<subseteq> present store" and "set queue \<subseteq> frag_reach store to_depth head"
    and "i \<in> sc_visited sc \<Longrightarrow> frag_edge store to_depth head i j \<Longrightarrow> j \<in> sc_visited sc \<union> set queue"
    and "sc_members sc = {i \<in> sc_visited sc. i = head \<or> to_depth i < to_depth head}"
    and "sc_checkpoints sc = {i \<in> sc_visited sc. i \<noteq> head \<and> is_boundary (to_depth i) \<and> to_depth i < to_depth head}"
    and "om_inv (sc_boundary sc)"
    and "map_of (sc_boundary sc) i = Some n \<longleftrightarrow>
      i \<in> sc_visited sc \<and> i \<noteq> head \<and> \<not> to_depth i < to_depth head \<and> cs_lookup store i = Inr (Some n)"
proof -
  note inv = assms [unfolded scan_inv_def]
  show "head \<in> sc_visited sc" "set queue \<subseteq> frag_reach store to_depth head" "om_inv (sc_boundary sc)"
    "sc_visited sc \<subseteq> frag_reach store to_depth head" "sc_visited sc \<subseteq> present store"
    "sc_members sc = {i \<in> sc_visited sc. i = head \<or> to_depth i < to_depth head}"
    "sc_checkpoints sc = {i \<in> sc_visited sc. i \<noteq> head \<and> is_boundary (to_depth i) \<and> to_depth i < to_depth head}"
    using inv by simp_all
  show "map_of (sc_boundary sc) i = Some n \<longleftrightarrow>
      i \<in> sc_visited sc \<and> i \<noteq> head \<and> \<not> to_depth i < to_depth head \<and> cs_lookup store i = Inr (Some n)"
    using inv by simp
  show "i \<in> sc_visited sc \<Longrightarrow> frag_edge store to_depth head i j \<Longrightarrow> j \<in> sc_visited sc \<union> set queue"
    using inv by (elim conjE) (simp only:)
qed

lemma scan_inv_skip:
  "scan_inv store to_depth head (i # queue) sc \<Longrightarrow> i \<in> sc_visited sc \<Longrightarrow> scan_inv store to_depth head queue sc"
  unfolding scan_inv_def by (elim conjE, intro conjI) auto

lemma scan_inv_boundary:
  assumes "scan_inv store to_depth head (i # queue) sc" and "i \<notin> sc_visited sc"
    and "cs_lookup store i = Inr (Some n)" and "to_depth head \<le> to_depth i"
  shows "scan_inv store to_depth head queue
    (sc\<lparr>sc_visited := insert i (sc_visited sc), sc_boundary := om_insert i n (sc_boundary sc)\<rparr>)"
proof -
  note inv = scan_invD [OF assms(1)]
  have ne: "i \<noteq> head" using inv(1) assms(2) by blast
  have "i \<in> frag_reach store to_depth head" using inv(4) by simp
  moreover have "i \<in> present store" using assms(3) by (simp add: present_def)
  moreover have "\<not> frag_edge store to_depth head i j" for j
    using ne assms(4) by (simp add: frag_edge_def leD)
  moreover have "map_of (om_insert i n (sc_boundary sc)) k = Some m \<longleftrightarrow>
      k \<in> insert i (sc_visited sc) \<and> k \<noteq> head \<and> \<not> to_depth k < to_depth head \<and> cs_lookup store k = Inr (Some m)" for k m
  proof (cases "k = i")
    case True
    then show ?thesis using inv(8) ne assms(3,4) by auto
  next
    case False
    then show ?thesis using inv(8) inv(9) [of k m] by simp
  qed
  moreover have "j \<in> insert i (sc_visited sc) \<union> set queue"
    if "k \<in> sc_visited sc" "frag_edge store to_depth head k j" for k j
    using inv(5) [OF that] by auto
  ultimately show ?thesis
    unfolding scan_inv_def using inv(1-4,6-8) ne assms(4) by auto
qed

lemma scan_inv_member:
  assumes "scan_inv store to_depth head (i # queue) sc" and "i \<notin> sc_visited sc"
    and "cs_lookup store i = Inr (Some n)" and "to_depth i < to_depth head"
  shows "scan_inv store to_depth head (rev (filter (\<lambda>p. p \<notin> insert i (sc_visited sc)) (cs_parents store n)) @ queue)
    (sc\<lparr>sc_visited := insert i (sc_visited sc), sc_members := insert i (sc_members sc),
        sc_checkpoints := (if is_boundary (to_depth i) \<and> to_depth i < to_depth head
          then insert i (sc_checkpoints sc) else sc_checkpoints sc)\<rparr>)"
proof -
  note inv = scan_invD [OF assms(1)]
  have ne: "i \<noteq> head" using inv(1) assms(2) by blast
  have r: "i \<in> frag_reach store to_depth head" using inv(4) by simp
  have e: "frag_edge store to_depth head i j \<longleftrightarrow> j \<in> set (cs_parents store n)" for j
    using assms(3,4) by (simp add: frag_edge_def)
  have "set (cs_parents store n) \<subseteq> frag_reach store to_depth head"
    using frag_reach_step [OF r] e by blast
  moreover have "i \<in> present store" using assms(3) by (simp add: present_def)
  moreover have "j \<in> insert i (sc_visited sc) \<union> set (rev (filter (\<lambda>p. p \<notin> insert i (sc_visited sc)) (cs_parents store n)) @ queue)"
    if "k \<in> insert i (sc_visited sc)" "frag_edge store to_depth head k j" for k j
    using that e [of j] inv(5) [of k j] by auto
  moreover have "map_of (sc_boundary sc) k = Some m \<longleftrightarrow>
      k \<in> insert i (sc_visited sc) \<and> k \<noteq> head \<and> \<not> to_depth k < to_depth head \<and> cs_lookup store k = Inr (Some m)" for k m
    using inv(9) [of k m] assms(4) by auto
  ultimately show ?thesis
    unfolding scan_inv_def using inv(1-4,6-8) r ne assms(4) by auto
qed

text \<open>The loop ends on a finite store, with the walk complete or with the first failing lookup.\<close>

definition scan_result :: "('n, 'e) CommitStore \<Rightarrow> DepthMetric \<Rightarrow> CommitId \<Rightarrow> 'e FragmentError + 'n FragmentScan \<Rightarrow> bool" where
  "scan_result store to_depth head r = (case r of
     Inr sc \<Rightarrow> scan_inv store to_depth head [] sc
   | Inl (MissingCommit i) \<Rightarrow> i \<in> frag_reach store to_depth head \<and> cs_lookup store i = Inr None
   | Inl (LookupError e) \<Rightarrow> \<exists>i \<in> frag_reach store to_depth head. cs_lookup store i = Inl e
   | Inl (DepthZeroHead i) \<Rightarrow> False)"

lemma fragment_loop_ends:
  assumes "finite (present store)" and "scan_inv store to_depth head queue sc"
  shows "\<exists>r. fragment_loop store to_depth (to_depth head) queue sc = Some r \<and> scan_result store to_depth head r"
  using assms(2)
proof (induction "card (present store - sc_visited sc)" arbitrary: queue sc rule: less_induct)
  case less
  note outer = less.hyps
  from less.prems show ?case
  proof (induction queue)
    case Nil
    then show ?case by (simp add: fragment_loop.simps scan_result_def)
  next
    case (Cons i queue)
    let ?loop = "fragment_loop store to_depth (to_depth head)"
    note step = fragment_loop.simps [of store to_depth "to_depth head" "i # queue" sc]
    show ?case
    proof (cases "i \<in> sc_visited sc")
      case True
      then show ?thesis using Cons.IH scan_inv_skip [OF Cons.prems True] step by simp
    next
      case new: False
      have r: "i \<in> frag_reach store to_depth head" using scan_invD(4) [OF Cons.prems] by simp
      have smaller: "card (present store - insert i (sc_visited sc)) < card (present store - sc_visited sc)"
        if "i \<in> present store"
        using that new assms(1) by (intro psubset_card_mono) auto
      consider e where "cs_lookup store i = Inl e" | "cs_lookup store i = Inr None"
        | n where "cs_lookup store i = Inr (Some n)"
        by (metis option.exhaust sum.exhaust)
      then show ?thesis
      proof cases
        case 1
        then show ?thesis using new r step by (auto simp: scan_result_def)
      next
        case 2
        then show ?thesis using new r step by (simp add: scan_result_def)
      next
        case 3
        then have p: "i \<in> present store" by (simp add: present_def)
        show ?thesis
        proof (cases "to_depth head \<le> to_depth i")
          case True
          have "\<exists>r. ?loop queue (sc\<lparr>sc_visited := insert i (sc_visited sc), sc_boundary := om_insert i n (sc_boundary sc)\<rparr>)
              = Some r \<and> scan_result store to_depth head r"
            by (rule outer [OF _ scan_inv_boundary [OF Cons.prems new 3 True]]) (use smaller [OF p] in simp)
          then show ?thesis using step new 3 True by (simp add: Let_def)
        next
          case False
          then have lt: "to_depth i < to_depth head" by simp
          note * = scan_inv_member [OF Cons.prems new 3 lt]
          have "\<exists>r. ?loop (rev (filter (\<lambda>p. p \<notin> insert i (sc_visited sc)) (cs_parents store n)) @ queue)
              (sc\<lparr>sc_visited := insert i (sc_visited sc), sc_members := insert i (sc_members sc),
                sc_checkpoints := (if is_boundary (to_depth i) \<and> to_depth i < to_depth head
                  then insert i (sc_checkpoints sc) else sc_checkpoints sc)\<rparr>)
              = Some r \<and> scan_result store to_depth head r"
            by (rule outer [OF _ *]) (use smaller [OF p] in simp)
          then show ?thesis
            using step new 3 False lt by (cases "is_boundary (to_depth i)") (simp_all add: Let_def)
        qed
      qed
    qed
  qed
qed

lemma scan_inv_init:
  assumes "cs_lookup store head = Inr (Some n)"
  shows "scan_inv store to_depth head (rev (cs_parents store n))
    \<lparr>sc_visited = {head}, sc_members = {head}, sc_boundary = [], sc_checkpoints = {}\<rparr>"
proof -
  have "frag_edge store to_depth head head j \<longleftrightarrow> j \<in> set (cs_parents store n)" for j
    using assms by (simp add: frag_edge_def)
  moreover from this have "set (cs_parents store n) \<subseteq> frag_reach store to_depth head"
    using frag_reach_step [OF frag_reach_head] by blast
  ultimately show ?thesis
    using assms by (auto simp: scan_inv_def present_def)
qed

lemma scan_inv_done:
  assumes "scan_inv store to_depth head [] sc"
  shows "sc_visited sc = frag_reach store to_depth head"
proof
  show "sc_visited sc \<subseteq> frag_reach store to_depth head" by (rule scan_invD(2) [OF assms])
  have "i \<in> sc_visited sc" if "(frag_edge store to_depth head)\<^sup>*\<^sup>* head i" for i
    using that
  proof (induction rule: rtranclp_induct)
    case base
    show ?case by (rule scan_invD(1) [OF assms])
  next
    case (step i j)
    then show ?case using scan_invD(5) [OF assms, of i j] by simp
  qed
  then show "frag_reach store to_depth head \<subseteq> sc_visited sc" by (auto simp: frag_reach_def)
qed

text \<open>The fragment of a head, before and after the members of known fragments are removed.\<close>

definition raw_members :: "('n, 'e) CommitStore \<Rightarrow> DepthMetric \<Rightarrow> CommitId \<Rightarrow> CommitId set" where
  "raw_members store to_depth head = {i \<in> frag_reach store to_depth head. i = head \<or> to_depth i < to_depth head}"

definition fragment_spec :: "('n, 'e) CommitStore \<Rightarrow> CommitId \<Rightarrow> 'n known_states \<Rightarrow> DepthMetric \<Rightarrow> 'n FragmentState \<Rightarrow> bool" where
  "fragment_spec store head known to_depth st \<longleftrightarrow> fst_head_id st = head \<and> om_inv (fst_boundary st)
     \<and> (\<forall>i n. map_of (fst_boundary st) i = Some n \<longleftrightarrow> i \<in> frag_reach store to_depth head - raw_members store to_depth head
          \<and> cs_lookup store i = Inr (Some n))
     \<and> fst_members st = raw_members store to_depth head - known_boundary_members known (om_keys (fst_boundary st))
     \<and> fst_checkpoints st = {i \<in> raw_members store to_depth head. i \<noteq> head \<and> is_boundary (to_depth i)}
         - known_boundary_members known (om_keys (fst_boundary st))"

lemma fragment_ends:
  assumes "finite (present store)"
  shows "\<exists>r. fragment store head known to_depth = Some r \<and> (case r of
      Inr st \<Rightarrow> fragment_spec store head known to_depth st \<and> frag_reach store to_depth head \<subseteq> present store
        \<and> is_boundary (to_depth head)
    | Inl (MissingCommit i) \<Rightarrow> i \<in> frag_reach store to_depth head \<and> cs_lookup store i = Inr None
    | Inl (LookupError e) \<Rightarrow> \<exists>i \<in> frag_reach store to_depth head. cs_lookup store i = Inl e
    | Inl (DepthZeroHead i) \<Rightarrow> i = head \<and> \<not> is_boundary (to_depth head))"
proof -
  consider (zero) "\<not> is_boundary (to_depth head)"
    | (err) e where "is_boundary (to_depth head)" "cs_lookup store head = Inl e"
    | (none) "is_boundary (to_depth head)" "cs_lookup store head = Inr None"
    | (node) n where "is_boundary (to_depth head)" "cs_lookup store head = Inr (Some n)"
    by (metis option.exhaust sum.exhaust)
  then show ?thesis
  proof cases
    case node
    from fragment_loop_ends [OF assms scan_inv_init [OF node(2)]] obtain r where r:
      "fragment_loop store to_depth (to_depth head) (rev (cs_parents store n))
        \<lparr>sc_visited = {head}, sc_members = {head}, sc_boundary = [], sc_checkpoints = {}\<rparr> = Some r"
      "scan_result store to_depth head r" by blast
    show ?thesis
    proof (cases r)
      case (Inl e)
      with r node show ?thesis by (cases e) (auto simp: fragment_def Let_def scan_result_def)
    next
      case (Inr sc)
      then have inv: "scan_inv store to_depth head [] sc" using r(2) by (simp add: scan_result_def)
      note v = scan_inv_done [OF inv]
      have "frag_reach store to_depth head \<subseteq> present store" using scan_invD(3) [OF inv] v by simp
      moreover have "sc_members sc = raw_members store to_depth head"
        using scan_invD(6) [OF inv] v by (simp add: raw_members_def)
      moreover have "sc_checkpoints sc = {i \<in> raw_members store to_depth head. i \<noteq> head \<and> is_boundary (to_depth i)}"
        using scan_invD(7) [OF inv] v by (auto simp: raw_members_def)
      moreover have "map_of (sc_boundary sc) i = Some n \<longleftrightarrow> i \<in> frag_reach store to_depth head - raw_members store to_depth head
          \<and> cs_lookup store i = Inr (Some n)" for i n
        using scan_invD(9) [OF inv, of i n] v by (auto simp: raw_members_def)
      ultimately show ?thesis
        using r(1) node Inr scan_invD(8) [OF inv] by (simp add: fragment_def Let_def fragment_spec_def)
    qed
  qed (auto simp: fragment_def Let_def)
qed


section \<open>The post-pass\<close>

definition members_at :: "'n known_states \<Rightarrow> CommitId \<Rightarrow> CommitId set" where
  "members_at known a = (case map_of known a of None \<Rightarrow> {} | Some st \<Rightarrow> fst_members st)"

definition bnd :: "'n known_states \<Rightarrow> CommitId \<Rightarrow> CommitId \<Rightarrow> bool" where
  "bnd known a b \<longleftrightarrow> b \<in> set (boundary_keys known a)"

definition ancestor_members :: "'n known_states \<Rightarrow> CommitId \<Rightarrow> CommitId set" where
  "ancestor_members known h = (\<Union>a \<in> {a. (bnd known)\<^sup>+\<^sup>+ h a}. members_at known a)"

lemma bnd_walk_edge: "walk_edge (map fst known) id (boundary_keys known) = bnd known"
proof (intro ext iffI)
  fix a b
  assume "bnd known a b"
  then have "map_of known a \<noteq> None" by (cases "map_of known a") (simp_all add: bnd_def boundary_keys_def)
  then have "a \<in> fst ` set known" by (simp add: map_of_eq_None_iff)
  with \<open>bnd known a b\<close> show "walk_edge (map fst known) id (boundary_keys known) a b"
    by (simp add: walk_edge_def bnd_def)
qed (simp add: walk_edge_def bnd_def)

lemma ancestor_loop_walk:
  "ancestor_loop known stack seen acc
   = acc \<union> (\<Union>a \<in> walk (map fst known) id (boundary_keys known) stack seen - seen. members_at known a)"
proof (induction known stack seen acc rule: ancestor_loop.induct)
  case (2 known b stack seen acc)
  let ?walk = "walk (map fst known) id (boundary_keys known)"
  show ?case
  proof (cases "b \<in> seen")
    case True
    then show ?thesis using 2(1) by simp
  next
    case new: False
    show ?thesis
    proof (cases "map_of known b")
      case None
      then have "members_at known b = {}" by (simp add: members_at_def)
      moreover have "b \<notin> fst ` set known" using None by (simp add: map_of_eq_None_iff)
      moreover have "b \<in> ?walk stack (insert b seen)"
        using walk_visited [of "insert b seen"] by blast
      moreover have "ancestor_loop known (b # stack) seen acc = ancestor_loop known stack (insert b seen) acc"
        using new None by simp
      moreover have "?walk (b # stack) seen = ?walk stack (insert b seen)"
        using new \<open>b \<notin> fst ` set known\<close> by simp
      ultimately show ?thesis using 2(2) [OF new None] new by auto
    next
      case (Some anc)
      let ?stack = "rev (om_keys (fst_boundary anc)) @ stack"
      have b: "b \<in> fst ` set known" "members_at known b = fst_members anc" "boundary_keys known b = om_keys (fst_boundary anc)"
        using Some by (auto simp: members_at_def boundary_keys_def dest: map_of_SomeD intro: rev_image_eqI)
      have "b \<in> ?walk ?stack (insert b seen)"
        using walk_visited [of "insert b seen"] by blast
      moreover have "?walk (b # stack) seen = ?walk ?stack (insert b seen)"
        using new b(1,3) by simp
      ultimately have w: "?walk (b # stack) seen - seen = insert b (?walk ?stack (insert b seen) - insert b seen)"
        using new by auto
      have "ancestor_loop known (b # stack) seen acc = ancestor_loop known ?stack (insert b seen) (acc \<union> fst_members anc)"
        using new Some by simp
      then show ?thesis unfolding w 2(3) [OF new Some] using b(2) by (simp add: Un_assoc)
    qed
  qed
qed simp

lemma transitive_ancestor_members_eq:
  assumes "map_of known h = Some st"
  shows "transitive_ancestor_members st known = ancestor_members known h"
proof -
  have "(bnd known)\<^sup>+\<^sup>+ h a \<longleftrightarrow> (\<exists>b \<in> set (om_keys (fst_boundary st)). (bnd known)\<^sup>*\<^sup>* b a)" for a
    using assms by (auto simp: tranclp_unfold_left bnd_def [of known h] boundary_keys_def [of known h])
  then show ?thesis
    by (simp add: transitive_ancestor_members_def ancestor_loop_walk walk_reach bnd_walk_edge ancestor_members_def)
qed

text \<open>One step keeps the keys, the boundaries and every other fragment.\<close>

lemma dedupe_head_facts:
  assumes "om_inv known"
  shows "om_inv (dedupe_head known h)" and "boundary_keys (dedupe_head known h) = boundary_keys known"
    and "members_at (dedupe_head known h) a = (if a = h then members_at known h - ancestor_members known h else members_at known a)"
    and "dom (map_of (dedupe_head known h)) = dom (map_of known)"
proof -
  consider "map_of known h = None" | st where "map_of known h = Some st" by (cases "map_of known h") auto
  then have "om_inv (dedupe_head known h) \<and> boundary_keys (dedupe_head known h) = boundary_keys known
    \<and> members_at (dedupe_head known h) a = (if a = h then members_at known h - ancestor_members known h else members_at known a)
    \<and> dom (map_of (dedupe_head known h)) = dom (map_of known)"
  proof cases
    case 1
    then show ?thesis using assms by (simp add: dedupe_head_def members_at_def)
  next
    case 2
    note t = transitive_ancestor_members_eq [OF 2]
    show ?thesis
    proof (cases "ancestor_members known h = {}")
      case True
      then show ?thesis using 2 t assms by (simp add: dedupe_head_def Let_def)
    next
      case False
      then have d: "dedupe_head known h = om_insert h (retain_members st (\<lambda>c. c \<notin> ancestor_members known h)) known"
        using 2 t by (simp add: dedupe_head_def Let_def)
      show ?thesis
        unfolding d using assms 2
        by (auto simp: boundary_keys_def members_at_def retain_members_def fun_eq_iff split: option.splits)
    qed
  qed
  then show "om_inv (dedupe_head known h)" "boundary_keys (dedupe_head known h) = boundary_keys known"
    "members_at (dedupe_head known h) a = (if a = h then members_at known h - ancestor_members known h else members_at known a)"
    "dom (map_of (dedupe_head known h)) = dom (map_of known)" by blast+
qed

lemma bnd_dedupe: "om_inv known \<Longrightarrow> bnd (dedupe_head known h) = bnd known"
  by (simp add: bnd_def [abs_def] dedupe_head_facts(2))

lemma ancestor_members_mono:
  assumes "bnd known' = bnd known" and "\<And>a. members_at known' a \<subseteq> members_at known a"
  shows "ancestor_members known' h \<subseteq> ancestor_members known h"
  unfolding ancestor_members_def assms(1) by (rule UN_mono [OF subset_refl assms(2)])

lemma post_pass_facts:
  assumes "om_inv known"
  shows "om_inv (post_pass known hs) \<and> boundary_keys (post_pass known hs) = boundary_keys known
    \<and> dom (map_of (post_pass known hs)) = dom (map_of known)
    \<and> (\<forall>a. members_at (post_pass known hs) a \<subseteq> members_at known a)
    \<and> (\<forall>h \<in> set hs. members_at (post_pass known hs) h \<inter> ancestor_members (post_pass known hs) h = {})"
proof (induction hs rule: rev_induct)
  case Nil
  show ?case using assms by (simp add: post_pass_def)
next
  case (snoc h hs)
  let ?k = "post_pass known hs"
  have p: "post_pass known (hs @ [h]) = dedupe_head ?k h" by (simp add: post_pass_def)
  have inv: "om_inv ?k" using snoc by blast
  note f = dedupe_head_facts [OF inv, of h]
  have sub: "members_at (dedupe_head ?k h) a \<subseteq> members_at ?k a" for a using f(3) [of a] by auto
  have anc: "ancestor_members (dedupe_head ?k h) g \<subseteq> ancestor_members ?k g" for g
    by (rule ancestor_members_mono [OF bnd_dedupe [OF inv] sub])
  have "members_at (dedupe_head ?k h) g \<inter> ancestor_members (dedupe_head ?k h) g = {}" if "g \<in> set (hs @ [h])" for g
  proof (cases "g = h")
    case True
    then show ?thesis using f(3) [of h] anc [of h] by auto
  next
    case False
    then have "members_at ?k g \<inter> ancestor_members ?k g = {}" using snoc that by simp
    then show ?thesis using sub [of g] anc [of g] by blast
  qed
  moreover have "members_at (dedupe_head ?k h) a \<subseteq> members_at known a" for a
    using sub [of a] snoc by blast
  ultimately show ?case unfolding p using snoc f(1,2,4) by simp
qed

text \<open>In an acyclic graph of boundaries nothing is lost: what one fragment gives up, an ancestor keeps.\<close>

lemma post_pass_union:
  assumes "om_inv known" and "\<And>h. \<not> (bnd known)\<^sup>+\<^sup>+ h h"
  shows "(\<Union>a. members_at (post_pass known hs) a) = (\<Union>a. members_at known a)"
proof (induction hs rule: rev_induct)
  case Nil
  show ?case by (simp add: post_pass_def)
next
  case (snoc h hs)
  let ?k = "post_pass known hs"
  have p: "post_pass known (hs @ [h]) = dedupe_head ?k h" by (simp add: post_pass_def)
  have inv: "om_inv ?k" and b: "bnd ?k = bnd known"
    using post_pass_facts [OF assms(1), of hs] by (simp_all add: bnd_def [abs_def])
  note f = dedupe_head_facts(3) [OF inv, of h]
  have "m \<in> (\<Union>a. members_at (dedupe_head ?k h) a)" if "m \<in> members_at ?k a" for m a
  proof (cases "a = h \<and> m \<in> ancestor_members ?k h")
    case True
    then obtain c where "(bnd ?k)\<^sup>+\<^sup>+ h c" "m \<in> members_at ?k c" by (auto simp: ancestor_members_def)
    moreover from this have "c \<noteq> h" using assms(2) b by auto
    ultimately show ?thesis using f [of c] by auto
  next
    case False
    then have "m \<in> members_at (dedupe_head ?k h) a" using f [of a] that by auto
    then show ?thesis by blast
  qed
  moreover have "members_at (dedupe_head ?k h) a \<subseteq> members_at ?k a" for a using f [of a] by auto
  ultimately have "(\<Union>a. members_at (dedupe_head ?k h) a) = (\<Union>a. members_at ?k a)" by blast
  then show ?case using snoc p by simp
qed


section \<open>The outer loop\<close>

definition parent_edge :: "('n, 'e) CommitStore \<Rightarrow> CommitId \<Rightarrow> CommitId \<Rightarrow> bool" where
  "parent_edge store i j \<longleftrightarrow> (\<exists>n. cs_lookup store i = Inr (Some n) \<and> j \<in> set (cs_parents store n))"

definition history :: "('n, 'e) CommitStore \<Rightarrow> CommitId list \<Rightarrow> CommitId set" where
  "history store hds = {i. \<exists>h \<in> set hds. (parent_edge store)\<^sup>*\<^sup>* h i}"

lemma history_step: "i \<in> history store hds \<Longrightarrow> parent_edge store i j \<Longrightarrow> j \<in> history store hds"
  by (auto simp: history_def intro: rtranclp.rtrancl_into_rtrancl)

lemma frag_reach_parents: "i \<in> frag_reach store to_depth h \<Longrightarrow> (parent_edge store)\<^sup>*\<^sup>* h i"
  unfolding frag_reach_def mem_Collect_eq
  by (erule rtranclp_mono [THEN predicate2D, rotated]) (auto simp: frag_edge_def parent_edge_def)

lemma frag_reach_history:
  assumes "h \<in> history store hds"
  shows "frag_reach store to_depth h \<subseteq> history store hds"
proof
  fix i assume "i \<in> frag_reach store to_depth h"
  then have "(parent_edge store)\<^sup>*\<^sup>* h i" by (rule frag_reach_parents)
  with assms show "i \<in> history store hds" by (auto simp: history_def intro: rtranclp_trans)
qed

text \<open>A state of the loop, started with no known fragments.\<close>

definition fragment_ok :: "('n, 'e) CommitStore \<Rightarrow> DepthMetric \<Rightarrow> 'n known_states \<Rightarrow> CommitId \<Rightarrow> 'n FragmentState \<Rightarrow> bool" where
  "fragment_ok store to_depth known h st \<longleftrightarrow> is_boundary (to_depth h) \<and> frag_reach store to_depth h \<subseteq> present store
     \<and> set (om_keys (fst_boundary st)) = frag_reach store to_depth h - raw_members store to_depth h
     \<and> fst_members st \<subseteq> raw_members store to_depth h
     \<and> raw_members store to_depth h \<subseteq> (\<Union>a. members_at known a)"

definition build_inv :: "('n, 'e) CommitStore \<Rightarrow> DepthMetric \<Rightarrow> CommitId list \<Rightarrow> CommitId list \<Rightarrow> CommitId set
    \<Rightarrow> 'n known_states \<Rightarrow> CommitId list \<Rightarrow> bool" where
  "build_inv store to_depth hds queue visited known fresh \<longleftrightarrow>
     om_inv known \<and> set fresh = dom (map_of known) \<and> dom (map_of known) \<subseteq> visited
     \<and> set queue \<union> visited \<subseteq> history store hds \<and> set hds \<subseteq> visited \<union> set queue
     \<and> (\<forall>v \<in> visited. v \<in> dom (map_of known) \<or> \<not> is_boundary (to_depth v) \<or> \<not> frag_reach store to_depth v \<subseteq> present store)
     \<and> (\<forall>v \<in> visited - dom (map_of known). \<not> is_boundary (to_depth v) \<longrightarrow> Collect (parent_edge store v) \<subseteq> visited \<union> set queue)
     \<and> (\<forall>h st. map_of known h = Some st \<longrightarrow>
          fragment_ok store to_depth known h st \<and> set (om_keys (fst_boundary st)) \<subseteq> visited \<union> set queue)"

lemma build_invD:
  assumes "build_inv store to_depth hds queue visited known fresh"
  shows "om_inv known" and "set fresh = dom (map_of known)" and "dom (map_of known) \<subseteq> visited"
    and "set queue \<subseteq> history store hds" and "visited \<subseteq> history store hds"
    and "set hds \<subseteq> visited \<union> set queue"
    and "v \<in> visited \<Longrightarrow> v \<in> dom (map_of known) \<or> \<not> is_boundary (to_depth v) \<or> \<not> frag_reach store to_depth v \<subseteq> present store"
    and "v \<in> visited \<Longrightarrow> v \<notin> dom (map_of known) \<Longrightarrow> \<not> is_boundary (to_depth v)
      \<Longrightarrow> Collect (parent_edge store v) \<subseteq> visited \<union> set queue"
    and "map_of known h = Some st \<Longrightarrow> fragment_ok store to_depth known h st"
    and "map_of known h = Some st \<Longrightarrow> set (om_keys (fst_boundary st)) \<subseteq> visited \<union> set queue"
  using assms unfolding build_inv_def by (elim conjE, simp; fail)+

lemma build_invI:
  assumes "om_inv known" and "set fresh = dom (map_of known)" and "dom (map_of known) \<subseteq> visited"
    and "set queue \<subseteq> history store hds" and "visited \<subseteq> history store hds" and "set hds \<subseteq> visited \<union> set queue"
    and "\<And>v. v \<in> visited \<Longrightarrow> v \<in> dom (map_of known) \<or> \<not> is_boundary (to_depth v) \<or> \<not> frag_reach store to_depth v \<subseteq> present store"
    and "\<And>v. v \<in> visited \<Longrightarrow> v \<notin> dom (map_of known) \<Longrightarrow> \<not> is_boundary (to_depth v)
      \<Longrightarrow> Collect (parent_edge store v) \<subseteq> visited \<union> set queue"
    and "\<And>h st. map_of known h = Some st \<Longrightarrow> fragment_ok store to_depth known h st"
    and "\<And>h st. map_of known h = Some st \<Longrightarrow> set (om_keys (fst_boundary st)) \<subseteq> visited \<union> set queue"
  shows "build_inv store to_depth hds queue visited known fresh"
  unfolding build_inv_def using assms by simp

lemma build_inv_skip:
  assumes "build_inv store to_depth hds (h # queue) visited known fresh" and "h \<in> visited"
  shows "build_inv store to_depth hds queue visited known fresh"
proof -
  have "visited \<union> set (h # queue) = visited \<union> set queue" using assms(2) by auto
  with assms(1) show ?thesis unfolding build_inv_def by auto
qed

text \<open>A head that yields no fragment: depth 0 with its parents pushed, or incomplete history.\<close>

lemma build_inv_pass:
  assumes inv: "build_inv store to_depth hds (h # queue) visited known fresh" and "h \<notin> visited"
    and "if is_boundary (to_depth h) then \<not> frag_reach store to_depth h \<subseteq> present store \<and> ps = []
         else set ps = Collect (parent_edge store h)"
  shows "build_inv store to_depth hds (ps @ queue) (insert h visited) known fresh"
proof -
  note D = build_invD [OF inv]
  have hh: "h \<in> history store hds" using D(4) by simp
  have u: "visited \<union> set (h # queue) \<subseteq> insert h visited \<union> set (ps @ queue)" by auto
  have nk: "h \<notin> dom (map_of known)" using D(3) assms(2) by blast
  show ?thesis
  proof (rule build_invI)
    show "set (ps @ queue) \<subseteq> history store hds"
      using assms(3) D(4) history_step [OF hh] by (auto split: if_splits)
    show "v \<in> dom (map_of known) \<or> \<not> is_boundary (to_depth v) \<or> \<not> frag_reach store to_depth v \<subseteq> present store"
      if "v \<in> insert h visited" for v
      using that D(7) [of v] assms(3) by (cases "v = h") (auto split: if_splits)
    show "Collect (parent_edge store v) \<subseteq> insert h visited \<union> set (ps @ queue)"
      if "v \<in> insert h visited" "v \<notin> dom (map_of known)" "\<not> is_boundary (to_depth v)" for v
      using that D(8) [of v] assms(3) u by (cases "v = h") auto
    show "set (om_keys (fst_boundary st)) \<subseteq> insert h visited \<union> set (ps @ queue)" if "map_of known g = Some st" for g st
      using D(10) [OF that] u by (rule subset_trans)
    show "set hds \<subseteq> insert h visited \<union> set (ps @ queue)" using D(6) u by (rule subset_trans)
    show "insert h visited \<subseteq> history store hds" using D(5) hh by simp
    show "dom (map_of known) \<subseteq> insert h visited" using D(3) by blast
  qed (use D(1,2,9) in auto)
qed

lemma fragment_spec_keys:
  assumes "fragment_spec store h known to_depth st" and "frag_reach store to_depth h \<subseteq> present store"
  shows "set (om_keys (fst_boundary st)) = frag_reach store to_depth h - raw_members store to_depth h"
proof -
  have "set (om_keys (fst_boundary st)) = {i. map_of (fst_boundary st) i \<noteq> None}"
    by (simp add: om_keys_def map_of_eq_None_iff)
  also have "\<dots> = frag_reach store to_depth h - raw_members store to_depth h"
    using assms by (auto simp: fragment_spec_def present_def)
  finally show ?thesis .
qed

text \<open>A head whose fragment is already there cannot be unvisited; a new fragment joins.\<close>

lemma members_at_insert:
  "om_inv known \<Longrightarrow> members_at (om_insert h st known) a = (if a = h then fst_members st else members_at known a)"
  by (simp add: members_at_def)

lemma build_inv_fragment:
  assumes inv: "build_inv store to_depth hds (h # queue) visited known fresh" and "h \<notin> visited"
    and spec: "fragment_spec store h known to_depth st" and "frag_reach store to_depth h \<subseteq> present store"
    and "is_boundary (to_depth h)"
  shows "build_inv store to_depth hds (rev (om_keys (fst_boundary st)) @ queue) (insert h visited)
    (om_insert h st known) (fresh @ [h])"
proof -
  note D = build_invD [OF inv]
  let ?keys = "set (om_keys (fst_boundary st))" and ?known = "om_insert h st known"
  have hh: "h \<in> history store hds" using D(4) by simp
  have nk: "map_of known h = None" using D(3) assms(2) by auto
  have keys: "?keys = frag_reach store to_depth h - raw_members store to_depth h"
    by (rule fragment_spec_keys [OF spec assms(4)])
  have mono: "members_at known a \<subseteq> members_at ?known a" for a
    using nk by (simp add: members_at_insert [OF D(1)]) (simp add: members_at_def)
  have strip: "known_boundary_members known (om_keys (fst_boundary st)) \<subseteq> (\<Union>a. members_at known a)"
    by (auto simp: known_boundary_members_def members_at_def)
  have mem: "fst_members st = raw_members store to_depth h - known_boundary_members known (om_keys (fst_boundary st))"
    using spec by (simp add: fragment_spec_def)
  have raw: "raw_members store to_depth h \<subseteq> (\<Union>a. members_at ?known a)"
  proof
    fix i assume i: "i \<in> raw_members store to_depth h"
    show "i \<in> (\<Union>a. members_at ?known a)"
    proof (cases "i \<in> fst_members st")
      case True
      then have "i \<in> members_at ?known h" by (simp add: members_at_insert [OF D(1)])
      then show ?thesis by blast
    next
      case False
      then have "i \<in> (\<Union>a. members_at known a)" using i mem strip by blast
      then show ?thesis using mono by blast
    qed
  qed
  have ok: "fragment_ok store to_depth ?known h st"
    unfolding fragment_ok_def using keys raw mem assms(4,5) by blast
  have u: "visited \<union> set (h # queue) \<subseteq> insert h visited \<union> set (rev (om_keys (fst_boundary st)) @ queue)" by auto
  have dom: "dom (map_of ?known) = insert h (dom (map_of known))" using D(1) by auto
  show ?thesis
  proof (rule build_invI)
    show "om_inv ?known" using D(1) by simp
    show "set (fresh @ [h]) = dom (map_of ?known)" using D(2) dom by simp
    show "dom (map_of ?known) \<subseteq> insert h visited" using D(3) dom by auto
    show "set (rev (om_keys (fst_boundary st)) @ queue) \<subseteq> history store hds"
      using frag_reach_history [OF hh, of to_depth] keys D(4) by auto
    show "insert h visited \<subseteq> history store hds" using D(5) hh by simp
    show "set hds \<subseteq> insert h visited \<union> set (rev (om_keys (fst_boundary st)) @ queue)" using D(6) u by (rule subset_trans)
    show "v \<in> dom (map_of ?known) \<or> \<not> is_boundary (to_depth v) \<or> \<not> frag_reach store to_depth v \<subseteq> present store"
      if "v \<in> insert h visited" for v
      unfolding dom using that D(7) [of v] by auto
    show "Collect (parent_edge store v) \<subseteq> insert h visited \<union> set (rev (om_keys (fst_boundary st)) @ queue)"
      if "v \<in> insert h visited" "v \<notin> dom (map_of ?known)" "\<not> is_boundary (to_depth v)" for v
      using that D(8) [of v] u unfolding dom by blast
    show "fragment_ok store to_depth ?known g sg" if "map_of ?known g = Some sg" for g sg
    proof (cases "g = h")
      case True
      then show ?thesis using that ok D(1) by simp
    next
      case False
      then have "fragment_ok store to_depth known g sg" using that D(1,9) by simp
      then show ?thesis using mono unfolding fragment_ok_def by blast
    qed
    show "set (om_keys (fst_boundary sg)) \<subseteq> insert h visited \<union> set (rev (om_keys (fst_boundary st)) @ queue)"
      if "map_of ?known g = Some sg" for g sg
    proof (cases "g = h")
      case True
      then show ?thesis using that D(1) by auto
    next
      case False
      then have "set (om_keys (fst_boundary sg)) \<subseteq> visited \<union> set (h # queue)" using that D(1) D(10) [of g sg] by simp
      then show ?thesis using u by (rule subset_trans)
    qed
  qed
qed

definition build_result :: "('n, 'e) CommitStore \<Rightarrow> DepthMetric \<Rightarrow> CommitId list
    \<Rightarrow> 'e FragmentError + ('n known_states \<times> CommitId list) \<Rightarrow> bool" where
  "build_result store to_depth hds r = (case r of
     Inr (known, fresh) \<Rightarrow> \<exists>visited. build_inv store to_depth hds [] visited known fresh
   | Inl e \<Rightarrow> \<exists>e' i. e = LookupError e' \<and> i \<in> history store hds \<and> cs_lookup store i = Inl e')"

definition build_ends :: "('n, 'e) CommitStore \<Rightarrow> DepthMetric \<Rightarrow> CommitId list \<Rightarrow> CommitId list \<Rightarrow> CommitId set
    \<Rightarrow> 'n known_states \<Rightarrow> CommitId list \<Rightarrow> bool" where
  "build_ends store to_depth hds queue visited known fresh \<longleftrightarrow>
     (\<exists>r. build_loop store to_depth queue visited known fresh = Some r \<and> build_result store to_depth hds r)"

text \<open>
  One unvisited head. \<open>more\<close> is the rest of the loop when the head is in the store, so that fewer
  commits of the store are left, and \<open>same\<close> the rest when only the queue is shorter.
\<close>

lemma build_ends_zero:
  assumes inv: "build_inv store to_depth hds (h # queue) visited known fresh" and new: "h \<notin> visited"
    and zero: "\<not> is_boundary (to_depth h)"
    and more: "\<And>q known' fresh'. h \<in> present store \<Longrightarrow> build_inv store to_depth hds q (insert h visited) known' fresh'
      \<Longrightarrow> build_ends store to_depth hds q (insert h visited) known' fresh'"
    and same: "build_inv store to_depth hds queue (insert h visited) known fresh
      \<Longrightarrow> build_ends store to_depth hds queue (insert h visited) known fresh"
  shows "build_ends store to_depth hds (h # queue) visited known fresh"
proof -
  note D = build_invD [OF inv]
  note step = build_loop.simps [of store to_depth "h # queue" visited known fresh]
  have none: "map_of known h = None" using D(3) new by auto
  consider e where "cs_lookup store h = Inl e" | "cs_lookup store h = Inr None"
    | n where "cs_lookup store h = Inr (Some n)"
    by (metis option.exhaust sum.exhaust)
  then show ?thesis
  proof cases
    case 1
    then show ?thesis using step new none zero D(4) by (auto simp: build_ends_def build_result_def)
  next
    case 2
    then have "build_inv store to_depth hds ([] @ queue) (insert h visited) known fresh"
      by (intro build_inv_pass [OF inv new]) (simp add: zero parent_edge_def)
    then show ?thesis using same step new none zero 2 by (simp add: build_ends_def)
  next
    case 3
    then have "build_inv store to_depth hds (rev (cs_parents store n) @ queue) (insert h visited) known fresh"
      by (intro build_inv_pass [OF inv new]) (auto simp: zero parent_edge_def)
    moreover have "h \<in> present store" using 3 by (simp add: present_def)
    ultimately show ?thesis using more step new none zero 3 by (simp add: build_ends_def)
  qed
qed

lemma build_ends_fragment:
  assumes inv: "build_inv store to_depth hds (h # queue) visited known fresh" and new: "h \<notin> visited"
    and deep: "is_boundary (to_depth h)" and fin: "finite (present store)"
    and more: "\<And>q known' fresh'. h \<in> present store \<Longrightarrow> build_inv store to_depth hds q (insert h visited) known' fresh'
      \<Longrightarrow> build_ends store to_depth hds q (insert h visited) known' fresh'"
    and same: "build_inv store to_depth hds queue (insert h visited) known fresh
      \<Longrightarrow> build_ends store to_depth hds queue (insert h visited) known fresh"
  shows "build_ends store to_depth hds (h # queue) visited known fresh"
proof -
  note D = build_invD [OF inv]
  note step = build_loop.simps [of store to_depth "h # queue" visited known fresh]
  have none: "map_of known h = None" using D(3) new by auto
  have hh: "h \<in> history store hds" using D(4) by simp
  from fragment_ends [OF fin, of h known to_depth] obtain r where
    r: "fragment store h known to_depth = Some r" and c: "case r of
        Inr st \<Rightarrow> fragment_spec store h known to_depth st \<and> frag_reach store to_depth h \<subseteq> present store
          \<and> is_boundary (to_depth h)
      | Inl (MissingCommit i) \<Rightarrow> i \<in> frag_reach store to_depth h \<and> cs_lookup store i = Inr None
      | Inl (LookupError e) \<Rightarrow> \<exists>i \<in> frag_reach store to_depth h. cs_lookup store i = Inl e
      | Inl (DepthZeroHead i) \<Rightarrow> i = h \<and> \<not> is_boundary (to_depth h)" by blast
  consider (ok) st where "r = Inr st" | (err) e where "r = Inl (LookupError e)"
    | (missing) i where "r = Inl (MissingCommit i)" | (zero) i where "r = Inl (DepthZeroHead i)"
    by (metis FragmentError.exhaust sum.exhaust)
  then show ?thesis
  proof cases
    case ok
    then have *: "fragment_spec store h known to_depth st" "frag_reach store to_depth h \<subseteq> present store"
      using c by simp_all
    then have "h \<in> present store" using frag_reach_head by blast
    from more [OF this build_inv_fragment [OF inv new * deep]]
    show ?thesis using step new none deep r ok by (simp add: build_ends_def)
  next
    case err
    then obtain i where "i \<in> frag_reach store to_depth h" "cs_lookup store i = Inl e" using c by auto
    then have "build_result store to_depth hds (Inl (LookupError e))"
      using frag_reach_history [OF hh, of to_depth] by (auto simp: build_result_def)
    then show ?thesis using step new none deep r err by (simp add: build_ends_def)
  next
    case missing
    then have "i \<in> frag_reach store to_depth h" "i \<notin> present store" using c by (auto simp: present_def)
    then have "build_inv store to_depth hds ([] @ queue) (insert h visited) known fresh"
      by (intro build_inv_pass [OF inv new]) (auto simp: deep)
    then show ?thesis using same step new none deep r missing by (simp add: build_ends_def)
  next
    case zero
    then show ?thesis using c deep by simp
  qed
qed

lemma build_loop_ends:
  assumes fin: "finite (present store)"
    and "card (present store - visited) \<le> k" and "build_inv store to_depth hds queue visited known fresh"
  shows "build_ends store to_depth hds queue visited known fresh"
  using assms(2,3)
proof (induction k arbitrary: queue visited known fresh rule: less_induct)
  case (less k)
  note outer = less.IH
  from less.prems show ?case
  proof (induction queue arbitrary: visited)
    case Nil
    then show ?case by (auto simp: build_loop.simps build_result_def build_ends_def)
  next
    case (Cons h queue)
    show ?case
    proof (cases "h \<in> visited")
      case True
      then show ?thesis
        using Cons.IH [OF Cons.prems(1) build_inv_skip [OF Cons.prems(2) True]]
          build_loop.simps [of store to_depth "h # queue" visited known fresh] by (simp add: build_ends_def)
    next
      case new: False
      have more: "build_ends store to_depth hds q (insert h visited) known' fresh'"
        if "h \<in> present store" "build_inv store to_depth hds q (insert h visited) known' fresh'" for q known' fresh'
      proof -
        have "card (present store - insert h visited) < card (present store - visited)"
          using that(1) new fin by (intro psubset_card_mono) auto
        then show ?thesis using outer [OF _ order_refl that(2)] Cons.prems(1) by simp
      qed
      have same: "build_ends store to_depth hds queue (insert h visited) known fresh"
        if "build_inv store to_depth hds queue (insert h visited) known fresh"
      proof (rule Cons.IH [OF _ that])
        have "card (present store - insert h visited) \<le> card (present store - visited)"
          using fin by (intro card_mono) auto
        then show "card (present store - insert h visited) \<le> k" using Cons.prems(1) by simp
      qed
      show ?thesis
        using build_ends_zero [OF Cons.prems(2) new _ more same]
          build_ends_fragment [OF Cons.prems(2) new _ fin more same] by blast
    qed
  qed
qed

text \<open>When the loop has ended on a complete history, the members are closed under parents.\<close>

lemma build_inv_final:
  assumes "build_inv store to_depth hds [] visited known fresh" and "history store hds \<subseteq> present store"
  defines "C \<equiv> (\<Union>a. members_at known a)"
  shows "i \<in> C \<Longrightarrow> parent_edge store i j \<Longrightarrow> j \<in> C"
    and "i \<in> history store hds \<Longrightarrow> i \<in> C \<or> \<not> is_boundary (to_depth i)"
proof -
  note D = build_invD [OF assms(1)]
  have known: "v \<in> dom (map_of known)" if "v \<in> visited" "is_boundary (to_depth v)" for v
    using D(7) [OF that(1)] that(2) frag_reach_history [of v store hds to_depth] D(5) that(1) assms(2) by blast
  have own: "h \<in> C" if h: "map_of known h = Some st" for h st
  proof -
    have "h \<in> raw_members store to_depth h" by (simp add: raw_members_def)
    with D(9) [OF h] show ?thesis unfolding fragment_ok_def C_def by blast
  qed
  have bkeys: "b \<in> C" if h: "map_of known h = Some st" and b: "b \<in> frag_reach store to_depth h - raw_members store to_depth h" for h st b
  proof -
    have ok: "fragment_ok store to_depth known h st" by (rule D(9) [OF h])
    then have "b \<in> visited" using D(10) [OF h] b by (auto simp: fragment_ok_def)
    moreover have "to_depth h \<le> to_depth b" "is_boundary (to_depth h)"
      using b ok by (auto simp: raw_members_def fragment_ok_def)
    then have "is_boundary (to_depth b)" by (auto simp: is_boundary_def)
    ultimately show ?thesis using known own by blast
  qed
  show closed: "j \<in> C" if "i \<in> C" "parent_edge store i j" for i j
  proof -
    obtain h st where h: "map_of known h = Some st" "i \<in> fst_members st"
      using \<open>i \<in> C\<close> by (auto simp: C_def members_at_def split: option.splits)
    have ok: "fragment_ok store to_depth known h st" by (rule D(9) [OF h(1)])
    then have i: "i \<in> raw_members store to_depth h" using h(2) by (auto simp: fragment_ok_def)
    then have "frag_edge store to_depth h i j" using that(2) by (auto simp: frag_edge_def parent_edge_def raw_members_def)
    moreover have "i \<in> frag_reach store to_depth h" using i by (simp add: raw_members_def)
    ultimately have "j \<in> frag_reach store to_depth h" using frag_reach_step by blast
    moreover have "raw_members store to_depth h \<subseteq> C" using ok by (simp add: fragment_ok_def C_def)
    ultimately show "j \<in> C" using bkeys [OF h(1), of j] by blast
  qed
  have step: "j \<in> C \<or> j \<in> visited \<and> \<not> is_boundary (to_depth j)"
    if "i \<in> C \<or> i \<in> visited \<and> \<not> is_boundary (to_depth i)" "parent_edge store i j" for i j
    using that closed [of i j] D(8) [of i] own known [of j] by (cases "i \<in> C") auto
  have "i \<in> C \<or> i \<in> visited \<and> \<not> is_boundary (to_depth i)" if "h \<in> set hds" "(parent_edge store)\<^sup>*\<^sup>* h i" for h i
    using that(2)
  proof (induction rule: rtranclp_induct)
    case base
    then show ?case using that(1) D(6) known own by (cases "is_boundary (to_depth h)") auto
  qed (use step in blast)
  then show "i \<in> history store hds \<Longrightarrow> i \<in> C \<or> \<not> is_boundary (to_depth i)"
    by (auto simp: history_def)
qed

lemma members_at_dom: "(\<Union>a \<in> dom (map_of known). members_at known a) = (\<Union>a. members_at known a)"
proof -
  have "members_at known a = {}" if "a \<notin> dom (map_of known)" for a
    using that by (simp add: members_at_def domIff)
  then show ?thesis by blast
qed

lemma bnd_parents:
  assumes "build_inv store to_depth hds queue visited known fresh" and "bnd known h b"
  shows "(parent_edge store)\<^sup>+\<^sup>+ h b"
proof -
  obtain st where st: "map_of known h = Some st" "b \<in> set (om_keys (fst_boundary st))"
    using assms(2) by (cases "map_of known h") (simp_all add: bnd_def boundary_keys_def)
  have b: "b \<in> frag_reach store to_depth h" "b \<notin> raw_members store to_depth h"
    using build_invD(9) [OF assms(1) st(1)] st(2) by (auto simp: fragment_ok_def)
  then have "b \<noteq> h" by (auto simp: raw_members_def)
  with frag_reach_parents [OF b(1)] show ?thesis by (auto dest: rtranclpD)
qed

lemma bnd_acyclic:
  assumes "build_inv store to_depth hds queue visited known fresh" and "\<And>i. \<not> (parent_edge store)\<^sup>+\<^sup>+ i i"
  shows "\<not> (bnd known)\<^sup>+\<^sup>+ h h"
proof
  have "(parent_edge store)\<^sup>+\<^sup>+ h b" if "(bnd known)\<^sup>+\<^sup>+ h b" for h b
    using that by (induction rule: tranclp_induct) (auto dest: bnd_parents [OF assms(1)])
  moreover assume "(bnd known)\<^sup>+\<^sup>+ h h"
  ultimately show False using assms(2) by blast
qed

lemma those_Some:
  "set ks \<subseteq> dom m \<Longrightarrow> those (map m ks) = Some (map (the \<circ> m) ks)"
  by (induction ks) auto

lemma history_subset:
  assumes "set hds \<subseteq> S" and "\<And>i j. i \<in> S \<Longrightarrow> parent_edge store i j \<Longrightarrow> j \<in> S"
  shows "history store hds \<subseteq> S"
proof -
  have "i \<in> S" if "(parent_edge store)\<^sup>*\<^sup>* h i" "h \<in> S" for h i
    using that by (induction rule: rtranclp_induct) (auto intro: assms(2))
  then show ?thesis using assms(1) by (auto simp: history_def)
qed

lemma acyclic_by_rank:
  assumes "\<And>i j. R i j \<Longrightarrow> rank j < (rank i :: nat)"
  shows "\<not> R\<^sup>+\<^sup>+ i i"
proof
  have "rank j < rank i" if "R\<^sup>+\<^sup>+ i j" for i j
    using that by (induction rule: tranclp_induct) (auto dest: assms)
  moreover assume "R\<^sup>+\<^sup>+ i i"
  ultimately show False by blast
qed


section \<open>Properties\<close>

text \<open>Another commit of the depth of the head becomes a boundary commit.\<close>

lemma fragment_same_depth_boundary:
  assumes "finite (present store)" and "fragment store head known to_depth = Some (Inr st)"
    and "i \<in> frag_reach store to_depth head" and "i \<noteq> head" and "to_depth i = to_depth head"
  shows "i \<in> set (om_keys (fst_boundary st))"
proof -
  have spec: "fragment_spec store head known to_depth st" "frag_reach store to_depth head \<subseteq> present store"
    using fragment_ends [OF assms(1), of head known to_depth] assms(2) by auto
  show ?thesis unfolding fragment_spec_keys [OF spec] using assms(3-5) by (auto simp: raw_members_def)
qed

text \<open>The commits of the stratum of a head, as documented: the walk goes on below every commit that is not
  deeper than the head.\<close>

definition stratum :: "('n, 'e) CommitStore \<Rightarrow> DepthMetric \<Rightarrow> CommitId \<Rightarrow> CommitId set" where
  "stratum store to_depth head =
     {i. (\<lambda>i j. to_depth i \<le> to_depth head \<and> parent_edge store i j)\<^sup>*\<^sup>* head i}"

lemma stratum_frag_reach:
  assumes "\<forall>i \<in> stratum store to_depth head. i \<noteq> head \<longrightarrow> to_depth i \<noteq> to_depth head"
  shows "stratum store to_depth head = frag_reach store to_depth head"
proof (intro equalityI subsetI)
  fix i
  assume "i \<in> stratum store to_depth head"
  then have "(\<lambda>i j. to_depth i \<le> to_depth head \<and> parent_edge store i j)\<^sup>*\<^sup>* head i" by (simp add: stratum_def)
  then show "i \<in> frag_reach store to_depth head"
  proof induction
    case (step i j)
    from step(1) have "i \<in> stratum store to_depth head" by (simp add: stratum_def)
    with assms step(2) have "frag_edge store to_depth head i j"
      by (auto simp: frag_edge_def parent_edge_def order_le_less)
    with step(3) show ?case by (rule frag_reach_step)
  qed simp
next
  fix i
  assume "i \<in> frag_reach store to_depth head"
  then have "(frag_edge store to_depth head)\<^sup>*\<^sup>* head i" by (simp add: frag_reach_def)
  then show "i \<in> stratum store to_depth head"
  proof induction
    case (step i j)
    then have "to_depth i \<le> to_depth head \<and> parent_edge store i j" by (auto simp: frag_edge_def parent_edge_def)
    with step(3) show ?case by (auto simp: stratum_def intro: rtranclp.rtrancl_into_rtrancl)
  qed (simp add: stratum_def)
qed

text \<open>
  C37: The fragment of a head over a store with finitely many commits, in a history where no other
  commit of its stratum has the depth of the head. The walk ends. It succeeds only when the head has
  positive depth and the store has every commit of the stratum; the members are then the commits of the stratum that
  are not deeper than the head, less the members of known fragments on the boundary, the boundary are the
  deeper ones, and the checkpoints are the members of positive depth below that of the head. Each error
  names its cause.
\<close>

theorem fragment_exact:
  assumes "finite (present store)" and "\<forall>i \<in> stratum store to_depth head. i \<noteq> head \<longrightarrow> to_depth i \<noteq> to_depth head"
  shows "case fragment store head known to_depth of
      None \<Rightarrow> False
    | Some (Inr st) \<Rightarrow> is_boundary (to_depth head) \<and> stratum store to_depth head \<subseteq> present store \<and> fst_head_id st = head
        \<and> set (om_keys (fst_boundary st)) = {i \<in> stratum store to_depth head. to_depth head < to_depth i}
        \<and> fst_members st = {i \<in> stratum store to_depth head. to_depth i \<le> to_depth head}
            - known_boundary_members known (om_keys (fst_boundary st))
        \<and> fst_checkpoints st = {i \<in> fst_members st. is_boundary (to_depth i) \<and> to_depth i < to_depth head}
    | Some (Inl (DepthZeroHead i)) \<Rightarrow> i = head \<and> \<not> is_boundary (to_depth head)
    | Some (Inl (MissingCommit i)) \<Rightarrow> i \<in> stratum store to_depth head \<and> cs_lookup store i = Inr None
    | Some (Inl (LookupError e)) \<Rightarrow> \<exists>i \<in> stratum store to_depth head. cs_lookup store i = Inl e"
proof -
  note s = stratum_frag_reach [OF assms(2)]
  from fragment_ends [OF assms(1), of head known to_depth] obtain r where
    r: "fragment store head known to_depth = Some r" and c: "case r of
        Inr st \<Rightarrow> fragment_spec store head known to_depth st \<and> frag_reach store to_depth head \<subseteq> present store
          \<and> is_boundary (to_depth head)
      | Inl (MissingCommit i) \<Rightarrow> i \<in> frag_reach store to_depth head \<and> cs_lookup store i = Inr None
      | Inl (LookupError e) \<Rightarrow> \<exists>i \<in> frag_reach store to_depth head. cs_lookup store i = Inl e
      | Inl (DepthZeroHead i) \<Rightarrow> i = head \<and> \<not> is_boundary (to_depth head)" by blast
  show ?thesis
  proof (cases r)
    case (Inl e)
    with c r show ?thesis by (cases e) (auto simp: s)
  next
    case (Inr st)
    then have spec: "fragment_spec store head known to_depth st" "frag_reach store to_depth head \<subseteq> present store"
      "is_boundary (to_depth head)" using c by simp_all
    have other: "to_depth i \<noteq> to_depth head" if "i \<in> frag_reach store to_depth head" "i \<noteq> head" for i
      using assms(2) that by (simp add: s)
    have b: "set (om_keys (fst_boundary st)) = {i \<in> frag_reach store to_depth head. to_depth head < to_depth i}"
      unfolding fragment_spec_keys [OF spec(1,2)] using other [symmetric] by (auto simp: raw_members_def not_less order_le_less)
    have m: "raw_members store to_depth head = {i \<in> frag_reach store to_depth head. to_depth i \<le> to_depth head}"
      using other by (auto simp: raw_members_def order_le_less)
    have "fst_checkpoints st = {i \<in> fst_members st. is_boundary (to_depth i) \<and> to_depth i < to_depth head}"
      using spec(1) other by (auto simp: fragment_spec_def raw_members_def)
    with spec b r Inr show ?thesis by (simp add: s m [symmetric] fragment_spec_def)
  qed
qed

text \<open>Three commits in a line: the shallow one, one of depth 0 and the deep one.\<close>

definition sample_store :: "(CommitId list, unit) CommitStore" where
  "sample_store = \<lparr>cs_lookup = (\<lambda>i. Inr (map_of
       [(CommitId [1], [CommitId [0]]), (CommitId [0], [CommitId [2]]), (CommitId [2], [])] i)),
     cs_parents = (\<lambda>ps. ps)\<rparr>"

definition sample_depth :: DepthMetric where
  "sample_depth i = ucast (hd (commit_id_bytes i))"

lemma sample_present: "present sample_store = {CommitId [0], CommitId [1], CommitId [2]}"
  by (auto simp: present_def sample_store_def)

lemma sample_parent_edge:
  "parent_edge sample_store i j \<longleftrightarrow> i = CommitId [1] \<and> j = CommitId [0] \<or> i = CommitId [0] \<and> j = CommitId [2]"
  by (auto simp: parent_edge_def sample_store_def)

lemma sample_history: "history sample_store [CommitId [1]] \<subseteq> present sample_store"
  by (rule history_subset) (auto simp: sample_present sample_parent_edge)

lemma sample_run: "\<exists>st. fragment sample_store (CommitId [1]) [] sample_depth = Some (Inr st)"
proof -
  have fin: "finite (present sample_store)" by (simp add: sample_present)
  have sub: "frag_reach sample_store sample_depth (CommitId [1]) \<subseteq> present sample_store"
    using frag_reach_history [of "CommitId [1]" sample_store "[CommitId [1]]" sample_depth] sample_history
    by (auto simp: history_def)
  have pos: "is_boundary (sample_depth (CommitId [1]))" by (simp add: is_boundary_def sample_depth_def)
  from fragment_ends [OF fin, of "CommitId [1]" "[]" sample_depth] obtain r where
    r: "fragment sample_store (CommitId [1]) [] sample_depth = Some r" and c: "case r of
        Inr st \<Rightarrow> fragment_spec sample_store (CommitId [1]) [] sample_depth st
          \<and> frag_reach sample_store sample_depth (CommitId [1]) \<subseteq> present sample_store \<and> is_boundary (sample_depth (CommitId [1]))
      | Inl (MissingCommit i) \<Rightarrow> i \<in> frag_reach sample_store sample_depth (CommitId [1]) \<and> cs_lookup sample_store i = Inr None
      | Inl (LookupError e) \<Rightarrow> \<exists>i \<in> frag_reach sample_store sample_depth (CommitId [1]). cs_lookup sample_store i = Inl e
      | Inl (DepthZeroHead i) \<Rightarrow> i = CommitId [1] \<and> \<not> is_boundary (sample_depth (CommitId [1]))"
    by blast
  show ?thesis
  proof (cases r)
    case (Inl e)
    have "cs_lookup sample_store i \<noteq> Inr None \<and> cs_lookup sample_store i \<noteq> Inl u"
      if "i \<in> frag_reach sample_store sample_depth (CommitId [1])" for i u
      using sub that by (auto simp: present_def)
    with c Inl pos have False by (cases e) auto
    then show ?thesis ..
  qed (simp add: r)
qed

theorem fragment_exact_witness:
  "finite (present sample_store)
   \<and> (\<exists>st. fragment sample_store (CommitId [1]) [] sample_depth = Some (Inr st)
     \<and> set (om_keys (fst_boundary st)) = {i \<in> stratum sample_store sample_depth (CommitId [1]). 1 < sample_depth i})"
proof -
  have fin: "finite (present sample_store)" by (simp add: sample_present)
  have "(parent_edge sample_store)\<^sup>*\<^sup>* (CommitId [1]) i" if "i \<in> stratum sample_store sample_depth (CommitId [1])" for i
    using that unfolding stratum_def by (auto elim: rtranclp_mono [THEN predicate2D, rotated])
  then have "stratum sample_store sample_depth (CommitId [1]) \<subseteq> present sample_store"
    using sample_history by (auto simp: history_def)
  then have one: "\<forall>i \<in> stratum sample_store sample_depth (CommitId [1]). i \<noteq> CommitId [1] \<longrightarrow> sample_depth i \<noteq> sample_depth (CommitId [1])"
    by (auto simp: sample_present sample_depth_def)
  obtain st where st: "fragment sample_store (CommitId [1]) [] sample_depth = Some (Inr st)"
    using sample_run by blast
  show ?thesis
    using fragment_exact [OF fin one, of "[]"] st fin by (auto simp: sample_depth_def)
qed

text \<open>
  C13: Building all fragments of an acyclic, complete, finite history from nothing ends without
  error. Every commit of the history is a member of some fragment or has depth 0, the members
  taken together contain the parents of each of them, and the members of a fragment are
  disjoint from those of every fragment below it along the boundaries.
\<close>

theorem build_fragment_store_covers:
  assumes "finite (present store)" and "history store hds \<subseteq> present store" and "\<And>i. \<not> (parent_edge store)\<^sup>+\<^sup>+ i i"
  shows "\<exists>known fresh. build_fragment_store store hds [] to_depth = Some (Inr (known, fresh))
    \<and> (\<forall>i \<in> history store hds. i \<in> (\<Union>st \<in> set fresh. fst_members st) \<or> \<not> is_boundary (to_depth i))
    \<and> (\<forall>i j. i \<in> (\<Union>st \<in> set fresh. fst_members st) \<longrightarrow> parent_edge store i j \<longrightarrow> j \<in> (\<Union>st \<in> set fresh. fst_members st))
    \<and> (\<forall>a b. (bnd known)\<^sup>+\<^sup>+ a b \<longrightarrow> members_at known a \<inter> members_at known b = {})"
proof -
  have "build_inv store to_depth hds (rev hds) {} [] []"
    by (rule build_invI) (auto simp: history_def)
  from build_loop_ends [OF assms(1) order_refl this] obtain r where
    r: "build_loop store to_depth (rev hds) {} [] [] = Some r" "build_result store to_depth hds r"
    by (auto simp: build_ends_def)
  then obtain known fhs visited where k: "r = Inr (known, fhs)" "build_inv store to_depth hds [] visited known fhs"
    using assms(2) by (auto simp: build_result_def present_def split: sum.splits)
  note D = build_invD [OF k(2)]
  let ?known = "post_pass known fhs" and ?C = "\<Union>a. members_at known a"
  note P = post_pass_facts [OF D(1), of fhs]
  have b: "bnd ?known = bnd known" using P by (simp add: bnd_def [abs_def])
  define fresh where "fresh = map (the \<circ> map_of ?known) fhs"
  have "those (map (map_of ?known) fhs) = Some fresh"
    unfolding fresh_def using P D(2) by (intro those_Some) simp
  then have run: "build_fragment_store store hds [] to_depth = Some (Inr (?known, fresh))"
    using r(1) k(1) by (simp add: build_fragment_store_def Let_def)
  have dom: "dom (map_of ?known) = set fhs" using P D(2) by blast
  have m: "fst_members (the (map_of ?known a)) = members_at ?known a" if "a \<in> set fhs" for a
    using that unfolding dom [symmetric] by (auto simp: members_at_def)
  have "(\<Union>st \<in> set fresh. fst_members st) = (\<Union>a \<in> dom (map_of ?known). members_at ?known a)"
    unfolding dom fresh_def using m by simp
  also have "\<dots> = (\<Union>a. members_at ?known a)"
    by (rule members_at_dom)
  also have "\<dots> = ?C"
    by (rule post_pass_union [OF D(1) bnd_acyclic [OF k(2) assms(3)]])
  finally have C: "(\<Union>st \<in> set fresh. fst_members st) = ?C" .
  have "members_at ?known a \<inter> members_at ?known c = {}" if "(bnd ?known)\<^sup>+\<^sup>+ a c" for a c
  proof -
    have "bnd known a \<noteq> (\<lambda>_. False)" using that b by (metis tranclpD)
    then have "a \<in> set fhs"
      using D(2) by (auto simp: bnd_def boundary_keys_def fun_eq_iff split: option.splits)
    then have "members_at ?known a \<inter> ancestor_members ?known a = {}" using P by blast
    then show ?thesis using that by (auto simp: ancestor_members_def)
  qed
  moreover have "i \<in> (\<Union>st \<in> set fresh. fst_members st) \<or> \<not> is_boundary (to_depth i)" if "i \<in> history store hds" for i
    using build_inv_final(2) [OF k(2) assms(2) that] unfolding C .
  moreover have "j \<in> (\<Union>st \<in> set fresh. fst_members st)" if "i \<in> (\<Union>st \<in> set fresh. fst_members st)" "parent_edge store i j" for i j
    using build_inv_final(1) [OF k(2) assms(2)] that unfolding C .
  ultimately show ?thesis
    using run by (intro exI [of _ ?known] exI [of _ fresh] conjI ballI allI impI)
qed

theorem build_fragment_store_covers_witness:
  "\<exists>known fresh. build_fragment_store sample_store [CommitId [1]] [] sample_depth = Some (Inr (known, fresh))
    \<and> CommitId [2] \<in> (\<Union>st \<in> set fresh. fst_members st)"
proof -
  have "\<not> (parent_edge sample_store)\<^sup>+\<^sup>+ i i" for i
    by (rule acyclic_by_rank [of _ "\<lambda>i. if i = CommitId [1] then 2 else if i = CommitId [0] then 1 else 0"])
      (auto simp: sample_parent_edge)
  have "finite (present sample_store)" by (simp add: sample_present)
  note store = \<open>finite (present sample_store)\<close> sample_history \<open>\<And>i. \<not> (parent_edge sample_store)\<^sup>+\<^sup>+ i i\<close>
  obtain known fresh where
    f: "build_fragment_store sample_store [CommitId [1]] [] sample_depth = Some (Inr (known, fresh))"
    "\<forall>i \<in> history sample_store [CommitId [1]].
      i \<in> (\<Union>st \<in> set fresh. fst_members st) \<or> \<not> is_boundary (sample_depth i)"
    using build_fragment_store_covers [OF store, of sample_depth] by (elim exE conjE)
  have "CommitId [2] \<in> history sample_store [CommitId [1]]"
    by (rule history_step [of "CommitId [0]"], rule history_step [of "CommitId [1]"])
      (auto simp: history_def sample_parent_edge)
  moreover have "is_boundary (sample_depth (CommitId [2]))" by (simp add: is_boundary_def sample_depth_def)
  ultimately have "CommitId [2] \<in> (\<Union>st \<in> set fresh. fst_members st)" using bspec [OF f(2)] by blast
  with f(1) show ?thesis by (intro exI conjI)
qed

end
