(* ===== verification/Wire.thy ===== *)
theory Wire
  imports Fragment_Builder
begin

text \<open>
  Readers over a buffer with a moving offset, as \<^verbatim>\<open>connection/message.rs\<close> writes them
  (\<open>fn read_u16(buf: &[u8], offset: &mut usize) -> Result<u16, DecodeError>\<close>): a reader takes
  the buffer and the offset and returns the value with the offset after it. Two predicates carry
  the proofs about decoders built from readers: \<open>reads\<close> (a reader reads back certain bytes)
  and \<open>sound\<close> (whatever a reader returns satisfies a property of the value and the bytes consumed).
\<close>

type_synonym 'a reader = "bytes \<Rightarrow> usize \<Rightarrow> DecodeError + ('a \<times> usize)"

named_theorems reads_intros \<open>readers that read back what was written\<close>


section \<open>The readers of the source\<close>

definition read_u8 :: "byte reader" where
  "read_u8 buf off =
     try_bind (lift_bts (ok_or (get_at buf off) (BufferTooShort ReadU8 off 1 (length buf - off)))) (\<lambda>v.
     Inr (v, off + 1))"

definition read_u16 :: "u16 reader" where
  "read_u16 buf off =
     try_bind (lift_bts (ok_or (get_range buf off (off + 2)) (BufferTooShort ReadU16 off 2 (length buf - off)))) (\<lambda>s.
     Inr (from_be_bytes s, off + 2))"

definition read_u32 :: "u32 reader" where
  "read_u32 buf off =
     try_bind (lift_bts (ok_or (get_range buf off (off + 4)) (BufferTooShort ReadU32 off 4 (length buf - off)))) (\<lambda>s.
     Inr (from_be_bytes s, off + 4))"

definition read_u64 :: "u64 reader" where
  "read_u64 buf off =
     try_bind (lift_bts (ok_or (get_range buf off (off + 8)) (BufferTooShort ReadU64 off 8 (length buf - off)))) (\<lambda>s.
     Inr (from_be_bytes s, off + 8))"

definition read_array :: "nat \<Rightarrow> bytes reader" where
  "read_array n buf off =
     try_bind (lift_bts (ok_or (get_range buf off (off + n)) (BufferTooShort (ReadArray n) off n (length buf - off)))) (\<lambda>s.
     Inr (s, off + n))"

text \<open>\<open>buf.get(offset..).unwrap_or_default()\<close> is the empty slice when the offset is past the end.\<close>

definition read_bijou64 :: "Bijoux \<Rightarrow> u64 reader" where
  "read_bijou64 bj buf off =
     try_bind (map_err (Bijou64 off) (bj_decode bj (drop off buf))) (\<lambda>(v, consumed).
     Inr (v, off + consumed))"

text \<open>\<open>usize::try_from(val)\<close> cannot fail where \<open>usize\<close> has 64 bits.\<close>

definition read_bijou64_as_usize :: "Bijoux \<Rightarrow> usize reader" where
  "read_bijou64_as_usize bj buf off =
     try_bind (read_bijou64 bj buf off) (\<lambda>(v, off). Inr (unat v, off))"

text \<open>\<open>for _ in 0..n { v.push(rd(buf, offset)?); }\<close>\<close>

fun read_many :: "nat \<Rightarrow> 'a reader \<Rightarrow> 'a list reader" where
  "read_many 0 rd buf off = Inr ([], off)"
| "read_many (Suc n) rd buf off =
     try_bind (rd buf off) (\<lambda>(x, off).
     try_bind (read_many n rd buf off) (\<lambda>(xs, off). Inr (x # xs, off)))"


section \<open>Reading back\<close>

text \<open>The length of a slice is below \<open>isize::MAX\<close>, so no sum of an offset and a size inside it wraps.\<close>

definition reads :: "'a reader \<Rightarrow> bytes \<Rightarrow> 'a \<Rightarrow> bool" where
  "reads rd bs x \<longleftrightarrow> (\<forall>pre rest. length (pre @ bs @ rest) < 2 ^ 64 \<longrightarrow>
     rd (pre @ bs @ rest) (length pre) = Inr (x, length pre + length bs))"

definition sound :: "'a reader \<Rightarrow> ('a \<Rightarrow> nat \<Rightarrow> bool) \<Rightarrow> bool" where
  "sound rd Q \<longleftrightarrow> (\<forall>buf off x off'. off \<le> length buf \<and> length buf < 2 ^ 64 \<and> rd buf off = Inr (x, off') \<longrightarrow>
     (\<exists>n. off' = off + n \<and> off' \<le> length buf \<and> Q x n))"

lemma reads_return [reads_intros]: "reads (\<lambda>buf off. Inr (x, off)) [] x"
  by (simp add: reads_def)

lemma reads_bind [reads_intros]:
  assumes "reads rd a x" and "reads (k x) b y"
  shows "reads (\<lambda>buf off. try_bind (rd buf off) (\<lambda>(x, off). k x buf off)) (a @ b) y"
  unfolding reads_def
proof (intro allI impI)
  fix pre rest :: bytes
  assume "length (pre @ (a @ b) @ rest) < 2 ^ 64"
  then have "rd (pre @ a @ b @ rest) (length pre) = Inr (x, length pre + length a)"
    and "k x ((pre @ a) @ b @ rest) (length (pre @ a)) = Inr (y, length (pre @ a) + length b)"
    using assms unfolding reads_def by (metis append.assoc)+
  then show "try_bind (rd (pre @ (a @ b) @ rest) (length pre)) (\<lambda>(x, off). k x (pre @ (a @ b) @ rest) off)
      = Inr (y, length pre + length (a @ b))"
    by (simp add: add.assoc)
qed

lemma reads_cong: "reads rd a x \<Longrightarrow> a = b \<Longrightarrow> x = y \<Longrightarrow> reads rd b y"
  by simp

lemma reads_map: "reads rd a x \<Longrightarrow> reads (\<lambda>buf off. try_bind (rd buf off) (\<lambda>(x, off). Inr (f x, off))) a (f x)"
  using reads_bind [of rd a x "\<lambda>x buf off. Inr (f x, off)" "[]" "f x"] reads_return [of "f x"] by simp

lemma reads_at_0: "reads rd bs x \<Longrightarrow> length (bs @ rest) < 2 ^ 64 \<Longrightarrow> rd (bs @ rest) 0 = Inr (x, length bs)"
  unfolding reads_def by (metis add_0 append_Nil list.size(3))

lemma reads_u8 [reads_intros]: "reads read_u8 [b] b"
  by (simp add: reads_def read_u8_def get_at_def lift_bts_def)

lemma reads_u16 [reads_intros]: "reads read_u16 (encode_u16 w) w"
  by (simp add: reads_def read_u16_def get_range_def lift_bts_def)

lemma reads_u32 [reads_intros]: "reads read_u32 (encode_u32 w) w"
  by (simp add: reads_def read_u32_def get_range_def lift_bts_def)

lemma reads_u64 [reads_intros]: "reads read_u64 (encode_u64 w) w"
  by (simp add: reads_def read_u64_def get_range_def lift_bts_def)

lemma reads_array [reads_intros]: "length a = n \<Longrightarrow> reads (read_array n) a a"
  by (simp add: reads_def read_array_def get_range_def lift_bts_def)

lemma reads_bijou64: "bijoux_laws bj \<Longrightarrow> reads (read_bijou64 bj) (bj_encode bj v) v"
  by (simp add: reads_def read_bijou64_def bijoux_laws_def)

lemma reads_bijou64_as_usize [reads_intros]:
  "bijoux_laws bj \<Longrightarrow> reads (read_bijou64_as_usize bj) (bj_encode bj v) (unat v)"
  using reads_map [OF reads_bijou64, of bj unat v] by (simp add: read_bijou64_as_usize_def [abs_def])

lemma reads_many [reads_intros]:
  assumes "\<And>x. x \<in> set xs \<Longrightarrow> reads rd (wr x) x" and "n = length xs"
  shows "reads (read_many n rd) (concat (map wr xs)) xs"
  using assms
proof (induction xs arbitrary: n)
  case (Cons x xs)
  have x: "reads rd (wr x) x" and xs: "reads (read_many (length xs) rd) (concat (map wr xs)) xs"
    using Cons by auto
  from reads_bind [OF x, where k = "\<lambda>x buf off. try_bind (read_many (length xs) rd buf off) (\<lambda>(xs, off). Inr (x # xs, off))",
      OF reads_map [OF xs]]
  show ?case using Cons.prems(2) by (simp add: reads_def)
qed (simp add: reads_def)


section \<open>Whatever is read\<close>

lemma sound_return: "Q x 0 \<Longrightarrow> sound (\<lambda>buf off. Inr (x, off)) Q"
  by (simp add: sound_def)

lemma sound_fail: "sound (\<lambda>buf off. Inl (e buf off)) Q"
  by (simp add: sound_def)

lemma sound_bind:
  assumes "sound rd P" and "\<And>x n. P x n \<Longrightarrow> sound (k x) (\<lambda>y m. Q y (n + m))"
  shows "sound (\<lambda>buf off. try_bind (rd buf off) (\<lambda>(x, off). k x buf off)) Q"
  unfolding sound_def
proof (intro allI impI, elim conjE)
  fix buf off y off'
  assume le: "off \<le> length buf" "length buf < 2 ^ 64"
    and "try_bind (rd buf off) (\<lambda>(x, off). k x buf off) = Inr (y, off')"
  then obtain x off1 where 1: "rd buf off = Inr (x, off1)" and 2: "k x buf off1 = Inr (y, off')"
    by (auto simp: result_iff)
  from 1 le assms(1) obtain n where n: "off1 = off + n" "off1 \<le> length buf" "P x n"
    unfolding sound_def by blast
  from 2 le n assms(2) [OF n(3)] obtain m where "off' = off1 + m" "off' \<le> length buf" "Q y (n + m)"
    unfolding sound_def by blast
  then show "\<exists>n. off' = off + n \<and> off' \<le> length buf \<and> Q y n"
    using n(1) by (intro exI [of _ "n + m"]) simp
qed

lemma sound_mono: "sound rd P \<Longrightarrow> (\<And>x n. P x n \<Longrightarrow> Q x n) \<Longrightarrow> sound rd Q"
  unfolding sound_def by blast

lemma sound_u8: "sound read_u8 (\<lambda>b n. n = 1)"
  by (auto simp: sound_def read_u8_def get_at_def lift_bts_def result_iff split: if_splits)

lemma sound_u16: "sound read_u16 (\<lambda>w n. n = 2)"
  by (auto simp: sound_def read_u16_def get_range_def lift_bts_def result_iff split: if_splits)

lemma sound_u32: "sound read_u32 (\<lambda>w n. n = 4)"
  by (auto simp: sound_def read_u32_def get_range_def lift_bts_def result_iff split: if_splits)

lemma sound_u64: "sound read_u64 (\<lambda>w n. n = 8)"
  by (auto simp: sound_def read_u64_def get_range_def lift_bts_def result_iff split: if_splits)

lemma sound_array: "sound (read_array k) (\<lambda>a n. n = k \<and> length a = k)"
  by (auto simp: sound_def read_array_def get_range_def lift_bts_def result_iff split: if_splits)

lemma sound_bijou64_as_usize:
  assumes "bijoux_laws bj"
  shows "sound (read_bijou64_as_usize bj) (\<lambda>v n. v < 2 ^ 64 \<and> n = length (bj_encode bj (word_of_nat v)))"
proof -
  have "n = length (bj_encode bj v) \<and> n \<le> length buf" if "bj_decode bj buf = Inr (v, n)" for buf v n
    using assms that unfolding bijoux_laws_def by (metis length_take min.absorb2)
  moreover have "unat (v :: u64) < 2 ^ 64" for v using unsigned_less [of v] by simp
  ultimately show ?thesis
    by (fastforce simp: sound_def read_bijou64_as_usize_def read_bijou64_def result_iff)
qed

lemma sound_many:
  assumes "sound rd P"
  shows "sound (read_many k rd) (\<lambda>xs n. \<exists>ns. length xs = k \<and> list_all2 P xs ns \<and> n = sum_list ns)"
proof (induction k)
  case (Suc k)
  have "sound (\<lambda>buf off. try_bind (rd buf off) (\<lambda>(x, off).
      try_bind (read_many k rd buf off) (\<lambda>(xs, off). Inr (x # xs, off))))
      (\<lambda>xs n. \<exists>ns. length xs = Suc k \<and> list_all2 P xs ns \<and> n = sum_list ns)"
    by (rule sound_bind [OF assms], rule sound_bind [OF Suc], rule sound_return)
      (metis add_0_right length_Cons list_all2_Cons sum_list.Cons)
  then show ?case by simp
qed (simp add: sound_def)

text \<open>The interface of a type on the wire: what its writer writes is read back, also inside a longer
  buffer, and whatever its reader returns is writable in at most the bytes that were read.\<close>

locale wire_type =
  fixes rd :: "'a reader" and wr :: "'a \<Rightarrow> bytes" and ok :: "'a \<Rightarrow> bool"
  assumes read_write: "ok x \<Longrightarrow> reads rd (wr x) x"
    and read_ok: "sound rd (\<lambda>x n. ok x \<and> length (wr x) \<le> n)"
begin

lemma many_read_write: "\<forall>x \<in> set xs. ok x \<Longrightarrow> n = length xs \<Longrightarrow> reads (read_many n rd) (concat (map wr xs)) xs"
  using reads_many [of xs rd wr n] read_write by blast

lemma many_read_ok:
  "sound (read_many k rd) (\<lambda>xs n. length xs = k \<and> (\<forall>x \<in> set xs. ok x) \<and> length (concat (map wr xs)) \<le> n)"
proof (rule sound_mono [OF sound_many [OF read_ok]], elim exE conjE)
  fix xs n ns
  assume "length xs = k" "n = sum_list ns" and all: "list_all2 (\<lambda>x n. ok x \<and> length (wr x) \<le> n) xs ns"
  from all have "(\<forall>x \<in> set xs. ok x) \<and> length (concat (map wr xs)) \<le> sum_list ns"
    by (induction rule: list_all2_induct) auto
  then show "length xs = k \<and> (\<forall>x \<in> set xs. ok x) \<and> length (concat (map wr xs)) \<le> n"
    using \<open>length xs = k\<close> \<open>n = sum_list ns\<close> by simp
qed

text \<open>Reading is a normal form: what was read, written again and read again is the same value.\<close>

lemma reread:
  assumes "rd buf off = Inr (x, off')" and "off \<le> length buf" and "length buf < 2 ^ 64"
  shows "reads rd (wr x) x \<and> length (wr x) \<le> off' - off"
proof -
  obtain n where "off' = off + n" "ok x" "length (wr x) \<le> n"
    using read_ok assms unfolding sound_def by blast
  then show ?thesis using read_write by simp
qed

end

interpretation wire_u64: wire_type read_u64 encode_u64 "\<lambda>_. True"
  by unfold_locales (simp_all add: reads_u64 sound_mono [OF sound_u64])

interpretation wire_id: wire_type "read_array 32" "\<lambda>a. a" "\<lambda>a. length a = 32"
  by unfold_locales (auto intro: reads_array sound_mono [OF sound_array])

end
