(* ===== verification/Sync_Message.thy ===== *)
theory Sync_Message
  imports Wire
begin

text \<open>
  The messages of the sync protocol and their wire format, \<^verbatim>\<open>subduction_core/src/connection/message.rs\<close>,
  with \<open>RemoteHeads\<close> of \<^verbatim>\<open>remote_heads.rs\<close>. Collections are lists; the fingerprint sets of a
  summary are strictly sorted lists, as in the summary itself. The additions of an offset and a size
  wrap, as they do without overflow checks (the release profile).
\<close>

section \<open>Messages\<close>

record RemoteHeads =
  rh_counter :: u64
  rh_heads :: "CommitId list"

definition remote_heads_default :: RemoteHeads where
  "remote_heads_default = \<lparr>rh_counter = 0, rh_heads = []\<rparr>"

definition remote_heads_is_empty :: "RemoteHeads \<Rightarrow> bool" where
  "remote_heads_is_empty h \<longleftrightarrow> rh_heads h = []"

record RequestId =
  rq_requestor :: PeerId
  rq_nonce :: u64

record BatchSyncRequest =
  bq_id :: SedimentreeId
  bq_req_id :: RequestId
  bq_fingerprint_summary :: FingerprintSummary
  bq_subscribe :: bool

record RequestedData =
  rd_commit_fingerprints :: "Fingerprint list"
  rd_fragment_fingerprints :: "Fingerprint list"

definition requested_data_is_empty :: "RequestedData \<Rightarrow> bool" where
  "requested_data_is_empty r \<longleftrightarrow> rd_commit_fingerprints r = [] \<and> rd_fragment_fingerprints r = []"

record SyncDiff =
  sd_missing_commits :: "(Signed \<times> Blob) list"
  sd_missing_fragments :: "(Signed \<times> Blob) list"
  sd_requesting :: RequestedData

datatype SyncResult = SyncOk SyncDiff | SyncNotFound | SyncUnauthorized

record BatchSyncResponse =
  bs_req_id :: RequestId
  bs_id :: SedimentreeId
  bs_result :: SyncResult
  bs_responder_heads :: RemoteHeads

datatype SyncMessage =
    MsgLooseCommit SedimentreeId Signed Blob RemoteHeads
  | MsgFragment SedimentreeId Signed Blob RemoteHeads
  | MsgBatchSyncRequest BatchSyncRequest
  | MsgBatchSyncResponse BatchSyncResponse
  | MsgRemoveSubscriptions "SedimentreeId list"
  | MsgDataRequestRejected SedimentreeId
  | MsgHeadsUpdate SedimentreeId RemoteHeads

fun request_id :: "SyncMessage \<Rightarrow> RequestId option" where
  "request_id (MsgBatchSyncRequest req) = Some (bq_req_id req)"
| "request_id (MsgBatchSyncResponse resp) = Some (bs_req_id resp)"
| "request_id _ = None"

fun message_sedimentree_id :: "SyncMessage \<Rightarrow> SedimentreeId option" where
  "message_sedimentree_id (MsgLooseCommit sid _ _ _) = Some sid"
| "message_sedimentree_id (MsgFragment sid _ _ _) = Some sid"
| "message_sedimentree_id (MsgBatchSyncRequest req) = Some (bq_id req)"
| "message_sedimentree_id (MsgBatchSyncResponse resp) = Some (bs_id resp)"
| "message_sedimentree_id (MsgDataRequestRejected sid) = Some sid"
| "message_sedimentree_id (MsgHeadsUpdate sid _) = Some sid"
| "message_sedimentree_id (MsgRemoveSubscriptions _) = None"

fun variant_name :: "SyncMessage \<Rightarrow> string" where
  "variant_name (MsgLooseCommit _ _ _ _) = ''LooseCommit''"
| "variant_name (MsgFragment _ _ _ _) = ''Fragment''"
| "variant_name (MsgBatchSyncRequest _) = ''BatchSyncRequest''"
| "variant_name (MsgBatchSyncResponse _) = ''BatchSyncResponse''"
| "variant_name (MsgRemoveSubscriptions _) = ''RemoveSubscriptions''"
| "variant_name (MsgDataRequestRejected _) = ''DataRequestRejected''"
| "variant_name (MsgHeadsUpdate _ _) = ''HeadsUpdate''"

fun try_as_batch_sync_response :: "SyncMessage \<Rightarrow> BatchSyncResponse option" where
  "try_as_batch_sync_response (MsgBatchSyncResponse resp) = Some resp"
| "try_as_batch_sync_response _ = None"

fun try_as_subscribe_request :: "SyncMessage \<Rightarrow> SedimentreeId option" where
  "try_as_subscribe_request (MsgBatchSyncRequest req) = (if bq_subscribe req then Some (bq_id req) else None)"
| "try_as_subscribe_request _ = None"


section \<open>Sizes and tags\<close>

definition MESSAGE_SCHEMA :: bytes where "MESSAGE_SCHEMA = [0x53, 0x55, 0x4D, 0x00]"

definition ENVELOPE_HEADER_SIZE :: usize where "ENVELOPE_HEADER_SIZE = 4 + 4 + 1"

fun message_tag :: "SyncMessage \<Rightarrow> byte" where
  "message_tag (MsgLooseCommit _ _ _ _) = 0x00"
| "message_tag (MsgFragment _ _ _ _) = 0x01"
| "message_tag (MsgBatchSyncRequest _) = 0x04"
| "message_tag (MsgBatchSyncResponse _) = 0x05"
| "message_tag (MsgRemoveSubscriptions _) = 0x06"
| "message_tag (MsgDataRequestRejected _) = 0x07"
| "message_tag (MsgHeadsUpdate _ _) = 0x08"

text \<open>The minimal payload size and the name by tag, \<open>None\<close> for an unknown tag.\<close>

definition min_sizes :: "byte \<Rightarrow> (usize \<times> string) option" where
  "min_sizes tag =
     (if tag = 0x00 then Some (32 + 8 + 4 + 166 + 1, ''LooseCommit'')
      else if tag = 0x01 then Some (32 + 8 + 4 + 200 + 1, ''Fragment'')
      else if tag = 0x04 then Some (32 + 32 + 8 + 1 + 16 + 2 + 2, ''BatchSyncRequest'')
      else if tag = 0x05 then Some (32 + 8 + 32 + 1 + 8 + 4, ''BatchSyncResponse'')
      else if tag = 0x06 then Some (2, ''RemoveSubscriptions'')
      else if tag = 0x07 then Some (32, ''DataRequestRejected'')
      else if tag = 0x08 then Some (32 + 8 + 4, ''HeadsUpdate'')
      else None)"

definition remote_heads_size :: "RemoteHeads \<Rightarrow> usize" where
  "remote_heads_size h = 8 + 4 + length (rh_heads h) * 32"

definition item_size :: "Bijoux \<Rightarrow> Signed \<times> Blob \<Rightarrow> usize" where
  "item_size bj item = (case item of (s, blob) \<Rightarrow>
     length (sg_bytes s) + bj_encoded_len bj (word_of_nat (length blob)) + length blob)"

definition sync_diff_size :: "Bijoux \<Rightarrow> SyncDiff \<Rightarrow> usize" where
  "sync_diff_size bj d =
     (2 + 2 + 2 + 2)
     + sum_list (map (item_size bj) (sd_missing_commits d))
     + sum_list (map (item_size bj) (sd_missing_fragments d))
     + (length (rd_commit_fingerprints (sd_requesting d)) + length (rd_fragment_fingerprints (sd_requesting d))) * 8"

definition sync_result_size :: "Bijoux \<Rightarrow> SyncResult \<Rightarrow> usize" where
  "sync_result_size bj r = (case r of SyncOk d \<Rightarrow> sync_diff_size bj d | SyncNotFound \<Rightarrow> 0 | SyncUnauthorized \<Rightarrow> 0)"

fun payload_size :: "Bijoux \<Rightarrow> SyncMessage \<Rightarrow> usize" where
  "payload_size bj (MsgLooseCommit _ commit blob sender_heads) =
     32 + length (sg_bytes commit) + bj_encoded_len bj (word_of_nat (length blob)) + length blob
     + remote_heads_size sender_heads"
| "payload_size bj (MsgFragment _ signed_fragment blob sender_heads) =
     32 + length (sg_bytes signed_fragment) + bj_encoded_len bj (word_of_nat (length blob)) + length blob
     + remote_heads_size sender_heads"
| "payload_size bj (MsgBatchSyncRequest req) =
     32 + 32 + 8 + 1 + 16 + 2 + 2
     + length (commit_fingerprints (bq_fingerprint_summary req)) * 8
     + length (fragment_fingerprints (bq_fingerprint_summary req)) * 8"
| "payload_size bj (MsgBatchSyncResponse resp) =
     32 + 8 + 32 + 1 + sync_result_size bj (bs_result resp) + remote_heads_size (bs_responder_heads resp)"
| "payload_size bj (MsgRemoveSubscriptions ids) = 2 + length ids * 32"
| "payload_size bj (MsgDataRequestRejected _) = 32"
| "payload_size bj (MsgHeadsUpdate _ hs) = 32 + remote_heads_size hs"

definition message_encoded_size :: "Bijoux \<Rightarrow> SyncMessage \<Rightarrow> usize" where
  "message_encoded_size bj msg = ENVELOPE_HEADER_SIZE + payload_size bj msg"


section \<open>Writing\<close>

text \<open>\<open>len() as u16\<close> and \<open>len() as u32\<close> truncate.\<close>

definition encode_remote_heads :: "RemoteHeads \<Rightarrow> bytes" where
  "encode_remote_heads h =
     encode_u64 (rh_counter h) @ encode_u32 (word_of_nat (length (rh_heads h)))
     @ concat (map commit_id_bytes (rh_heads h))"

definition encode_batch_sync_request :: "BatchSyncRequest \<Rightarrow> bytes" where
  "encode_batch_sync_request req =
     (let seed = fp_seed (bq_fingerprint_summary req);
          commit_fps = commit_fingerprints (bq_fingerprint_summary req);
          fragment_fps = fragment_fingerprints (bq_fingerprint_summary req)
      in sedimentree_id_bytes (bq_id req)
         @ peer_id_bytes (rq_requestor (bq_req_id req))
         @ encode_u64 (rq_nonce (bq_req_id req))
         @ [if bq_subscribe req then 1 else 0]
         @ encode_u64 (key0 seed) @ encode_u64 (key1 seed)
         @ encode_u16 (word_of_nat (length commit_fps)) @ encode_u16 (word_of_nat (length fragment_fps))
         @ concat (map encode_u64 commit_fps) @ concat (map encode_u64 fragment_fps))"

definition encode_item :: "Bijoux \<Rightarrow> Signed \<times> Blob \<Rightarrow> bytes" where
  "encode_item bj item = (case item of (s, blob) \<Rightarrow> sg_bytes s @ bj_encode bj (word_of_nat (length blob)) @ blob)"

definition encode_sync_diff :: "Bijoux \<Rightarrow> SyncDiff \<Rightarrow> bytes" where
  "encode_sync_diff bj d =
     encode_u16 (word_of_nat (length (sd_missing_commits d)))
     @ encode_u16 (word_of_nat (length (sd_missing_fragments d)))
     @ encode_u16 (word_of_nat (length (rd_commit_fingerprints (sd_requesting d))))
     @ encode_u16 (word_of_nat (length (rd_fragment_fingerprints (sd_requesting d))))
     @ concat (map (encode_item bj) (sd_missing_commits d))
     @ concat (map (encode_item bj) (sd_missing_fragments d))
     @ concat (map encode_u64 (rd_commit_fingerprints (sd_requesting d)))
     @ concat (map encode_u64 (rd_fragment_fingerprints (sd_requesting d)))"

definition encode_sync_result :: "Bijoux \<Rightarrow> SyncResult \<Rightarrow> bytes" where
  "encode_sync_result bj r =
     (case r of SyncOk d \<Rightarrow> [0x00] @ encode_sync_diff bj d | SyncNotFound \<Rightarrow> [0x01] | SyncUnauthorized \<Rightarrow> [0x02])"

definition encode_batch_sync_response :: "Bijoux \<Rightarrow> BatchSyncResponse \<Rightarrow> bytes" where
  "encode_batch_sync_response bj resp =
     peer_id_bytes (rq_requestor (bs_req_id resp))
     @ encode_u64 (rq_nonce (bs_req_id resp))
     @ sedimentree_id_bytes (bs_id resp)
     @ encode_sync_result bj (bs_result resp)
     @ encode_remote_heads (bs_responder_heads resp)"

definition encode_remove_subscriptions :: "SedimentreeId list \<Rightarrow> bytes" where
  "encode_remove_subscriptions ids =
     encode_u16 (word_of_nat (length ids)) @ concat (map sedimentree_id_bytes ids)"

definition encode_data_request_rejected :: "SedimentreeId \<Rightarrow> bytes" where
  "encode_data_request_rejected sid = sedimentree_id_bytes sid"

text \<open>The bytes after the tag.\<close>

fun encode_payload :: "Bijoux \<Rightarrow> SyncMessage \<Rightarrow> bytes" where
  "encode_payload bj (MsgLooseCommit sid commit blob sender_heads) =
     sedimentree_id_bytes sid @ encode_remote_heads sender_heads
     @ sg_bytes commit @ bj_encode bj (word_of_nat (length blob)) @ blob"
| "encode_payload bj (MsgFragment sid signed_fragment blob sender_heads) =
     sedimentree_id_bytes sid @ encode_remote_heads sender_heads
     @ sg_bytes signed_fragment @ bj_encode bj (word_of_nat (length blob)) @ blob"
| "encode_payload bj (MsgBatchSyncRequest req) = encode_batch_sync_request req"
| "encode_payload bj (MsgBatchSyncResponse resp) = encode_batch_sync_response bj resp"
| "encode_payload bj (MsgRemoveSubscriptions ids) = encode_remove_subscriptions ids"
| "encode_payload bj (MsgDataRequestRejected sid) = encode_data_request_rejected sid"
| "encode_payload bj (MsgHeadsUpdate sid hs) = sedimentree_id_bytes sid @ encode_remote_heads hs"

definition encode_message :: "Bijoux \<Rightarrow> SyncMessage \<Rightarrow> bytes" where
  "encode_message bj msg =
     (let total_size = ENVELOPE_HEADER_SIZE + payload_size bj msg
      in MESSAGE_SCHEMA @ encode_u32 (word_of_nat total_size) @ [message_tag msg] @ encode_payload bj msg)"


section \<open>Reading\<close>

text \<open>\<open>Signed::try_decode_prefix(payload.get(offset..)?)\<close>\<close>

definition read_signed :: "Ed25519 \<Rightarrow> 'a Payload \<Rightarrow> Signed reader" where
  "read_signed ed P payload off =
     try_bind (lift_bts (ok_or (get_range payload off (length payload)) (BufferTooShort (ReadSlice 0) off 1 0))) (\<lambda>rest.
     try_bind (try_decode_prefix ed P rest) (\<lambda>(s, consumed). Inr (s, off + consumed)))"

text \<open>\<open>payload.get(offset..offset + blob_size)\<close>, the sum at 64 bits.\<close>

definition read_blob :: "Bijoux \<Rightarrow> Blob reader" where
  "read_blob bj payload off =
     try_bind (read_bijou64_as_usize bj payload off) (\<lambda>(blob_size, off).
     try_bind (lift_bts (ok_or (get_range payload off ((off + blob_size) mod 2 ^ 64))
         (BufferTooShort (ReadSlice blob_size) off blob_size (length payload - off)))) (\<lambda>blob.
     Inr (blob, (off + blob_size) mod 2 ^ 64)))"

definition decode_remote_heads :: "RemoteHeads reader" where
  "decode_remote_heads payload off =
     try_bind (read_u64 payload off) (\<lambda>(counter, off).
     try_bind (read_u32 payload off) (\<lambda>(count, off).
     try_bind (read_many (unat count) (read_array 32) payload off) (\<lambda>(heads, off).
     Inr (\<lparr>rh_counter = counter, rh_heads = map CommitId heads\<rparr>, off))))"

definition decode_loose_commit :: "Ed25519 \<Rightarrow> Bijoux \<Rightarrow> SyncMessage reader" where
  "decode_loose_commit ed bj payload off =
     try_bind (read_array 32 payload off) (\<lambda>(sid, off).
     try_bind (decode_remote_heads payload off) (\<lambda>(sender_heads, off).
     try_bind (read_signed ed (loose_commit_payload bj) payload off) (\<lambda>(commit, off).
     try_bind (read_blob bj payload off) (\<lambda>(blob, off).
     Inr (MsgLooseCommit (SedimentreeId sid) commit blob sender_heads, off)))))"

definition decode_fragment :: "Ed25519 \<Rightarrow> Bijoux \<Rightarrow> SyncMessage reader" where
  "decode_fragment ed bj payload off =
     try_bind (read_array 32 payload off) (\<lambda>(sid, off).
     try_bind (decode_remote_heads payload off) (\<lambda>(sender_heads, off).
     try_bind (read_signed ed (fragment_payload bj) payload off) (\<lambda>(fragment, off).
     try_bind (read_blob bj payload off) (\<lambda>(blob, off).
     Inr (MsgFragment (SedimentreeId sid) fragment blob sender_heads, off)))))"

definition read_subscribe :: "bool reader" where
  "read_subscribe payload off =
     try_bind (read_u8 payload off) (\<lambda>(b, off).
     if b = 0x00 then Inr (False, off)
     else if b = 0x01 then Inr (True, off)
     else Inl (InvalidEnumTag b ''Subscribe''))"

text \<open>The fingerprints are collected in a \<open>BTreeSet\<close>: order and duplicates on the wire do not matter.\<close>

definition decode_batch_sync_request :: "SyncMessage reader" where
  "decode_batch_sync_request payload off =
     try_bind (read_array 32 payload off) (\<lambda>(sid, off).
     try_bind (read_array 32 payload off) (\<lambda>(requestor, off).
     try_bind (read_u64 payload off) (\<lambda>(nonce, off).
     try_bind (read_subscribe payload off) (\<lambda>(subscribe, off).
     try_bind (read_u64 payload off) (\<lambda>(k0, off).
     try_bind (read_u64 payload off) (\<lambda>(k1, off).
     try_bind (read_u16 payload off) (\<lambda>(commit_count, off).
     try_bind (read_u16 payload off) (\<lambda>(fragment_count, off).
     try_bind (read_many (unat commit_count) read_u64 payload off) (\<lambda>(commit_fps, off).
     try_bind (read_many (unat fragment_count) read_u64 payload off) (\<lambda>(fragment_fps, off).
     Inr (MsgBatchSyncRequest
       \<lparr>bq_id = SedimentreeId sid,
        bq_req_id = \<lparr>rq_requestor = PeerId requestor, rq_nonce = nonce\<rparr>,
        bq_fingerprint_summary = \<lparr>fp_seed = \<lparr>key0 = k0, key1 = k1\<rparr>,
          commit_fingerprints = os_of_list commit_fps, fragment_fingerprints = os_of_list fragment_fps\<rparr>,
        bq_subscribe = subscribe\<rparr>, off)))))))))))"

definition read_item :: "Ed25519 \<Rightarrow> Bijoux \<Rightarrow> 'a Payload \<Rightarrow> (Signed \<times> Blob) reader" where
  "read_item ed bj P payload off =
     try_bind (read_signed ed P payload off) (\<lambda>(s, off).
     try_bind (read_blob bj payload off) (\<lambda>(blob, off).
     Inr ((s, blob), off)))"

definition decode_sync_diff :: "Ed25519 \<Rightarrow> Bijoux \<Rightarrow> SyncDiff reader" where
  "decode_sync_diff ed bj payload off =
     try_bind (read_u16 payload off) (\<lambda>(commit_count, off).
     try_bind (read_u16 payload off) (\<lambda>(fragment_count, off).
     try_bind (read_u16 payload off) (\<lambda>(requested_commit_count, off).
     try_bind (read_u16 payload off) (\<lambda>(requested_fragment_count, off).
     try_bind (read_many (unat commit_count) (read_item ed bj (loose_commit_payload bj)) payload off) (\<lambda>(missing_commits, off).
     try_bind (read_many (unat fragment_count) (read_item ed bj (fragment_payload bj)) payload off) (\<lambda>(missing_fragments, off).
     try_bind (read_many (unat requested_commit_count) read_u64 payload off) (\<lambda>(commit_fps, off).
     try_bind (read_many (unat requested_fragment_count) read_u64 payload off) (\<lambda>(fragment_fps, off).
     Inr (\<lparr>sd_missing_commits = missing_commits, sd_missing_fragments = missing_fragments,
           sd_requesting = \<lparr>rd_commit_fingerprints = commit_fps, rd_fragment_fingerprints = fragment_fps\<rparr>\<rparr>, off)))))))))"

definition decode_sync_result :: "Ed25519 \<Rightarrow> Bijoux \<Rightarrow> SyncResult reader" where
  "decode_sync_result ed bj payload off =
     try_bind (read_u8 payload off) (\<lambda>(tag, off).
     if tag = 0x00 then try_bind (decode_sync_diff ed bj payload off) (\<lambda>(d, off). Inr (SyncOk d, off))
     else if tag = 0x01 then Inr (SyncNotFound, off)
     else if tag = 0x02 then Inr (SyncUnauthorized, off)
     else Inl (InvalidEnumTag tag ''SyncResult''))"

definition decode_batch_sync_response :: "Ed25519 \<Rightarrow> Bijoux \<Rightarrow> SyncMessage reader" where
  "decode_batch_sync_response ed bj payload off =
     try_bind (read_array 32 payload off) (\<lambda>(requestor, off).
     try_bind (read_u64 payload off) (\<lambda>(nonce, off).
     try_bind (read_array 32 payload off) (\<lambda>(sid, off).
     try_bind (decode_sync_result ed bj payload off) (\<lambda>(result, off).
     try_bind (decode_remote_heads payload off) (\<lambda>(responder_heads, off).
     Inr (MsgBatchSyncResponse
       \<lparr>bs_req_id = \<lparr>rq_requestor = PeerId requestor, rq_nonce = nonce\<rparr>, bs_id = SedimentreeId sid,
        bs_result = result, bs_responder_heads = responder_heads\<rparr>, off))))))"

definition decode_remove_subscriptions :: "SyncMessage reader" where
  "decode_remove_subscriptions payload off =
     try_bind (read_u16 payload off) (\<lambda>(count, off).
     try_bind (read_many (unat count) (read_array 32) payload off) (\<lambda>(ids, off).
     Inr (MsgRemoveSubscriptions (map SedimentreeId ids), off)))"

definition decode_heads_update :: "SyncMessage reader" where
  "decode_heads_update payload off =
     try_bind (read_array 32 payload off) (\<lambda>(sid, off).
     try_bind (decode_remote_heads payload off) (\<lambda>(heads, off).
     Inr (MsgHeadsUpdate (SedimentreeId sid) heads, off)))"

definition decode_data_request_rejected :: "SyncMessage reader" where
  "decode_data_request_rejected payload off =
     try_bind (read_array 32 payload off) (\<lambda>(sid, off).
     Inr (MsgDataRequestRejected (SedimentreeId sid), off))"

text \<open>The second \<open>match\<close> on the tag; every decoder starts at offset 0 and the last offset is dropped.\<close>

definition decode_payload :: "Ed25519 \<Rightarrow> Bijoux \<Rightarrow> byte \<Rightarrow> bytes \<Rightarrow> DecodeError + SyncMessage" where
  "decode_payload ed bj tag payload =
     try_bind
       (if tag = 0x00 then decode_loose_commit ed bj payload 0
        else if tag = 0x01 then decode_fragment ed bj payload 0
        else if tag = 0x04 then decode_batch_sync_request payload 0
        else if tag = 0x05 then decode_batch_sync_response ed bj payload 0
        else if tag = 0x06 then decode_remove_subscriptions payload 0
        else if tag = 0x07 then decode_data_request_rejected payload 0
        else if tag = 0x08 then decode_heads_update payload 0
        else Inl (InvalidEnumTag tag ''Message'')) (\<lambda>(msg, _).
     Inr msg)"

definition decode_message :: "Ed25519 \<Rightarrow> Bijoux \<Rightarrow> bytes \<Rightarrow> DecodeError + SyncMessage" where
  "decode_message ed bj bs =
     (if length bs < ENVELOPE_HEADER_SIZE
      then Inl (MessageTooShort ''Message envelope'' ENVELOPE_HEADER_SIZE (length bs))
      else
        try_bind (ok_or (get_range bs 0 4) (MessageTooShort ''Message schema'' 4 (length bs))) (\<lambda>schema.
        if schema \<noteq> MESSAGE_SCHEMA then Inl (InvalidSchema MESSAGE_SCHEMA schema)
        else
          try_bind (ok_or (get_range bs 4 8) (MessageTooShort ''Message total_size'' 8 (length bs))) (\<lambda>size_bytes.
          let total_size = unat (from_be_bytes size_bytes :: u32) in
          if length bs \<noteq> total_size then Inl (SizeMismatch total_size (length bs))
          else
            try_bind (ok_or (get_at bs 8) (MessageTooShort ''Message tag'' 9 (length bs))) (\<lambda>tag.
            try_bind (ok_or (get_range bs ENVELOPE_HEADER_SIZE (length bs))
                (MessageTooShort ''Message payload'' ENVELOPE_HEADER_SIZE (length bs))) (\<lambda>payload.
            case min_sizes tag of
              None \<Rightarrow> Inl (InvalidEnumTag tag ''Message'')
            | Some (min_payload_size, type_name) \<Rightarrow>
                if length payload < min_payload_size
                then Inl (MessageTooShort type_name (ENVELOPE_HEADER_SIZE + min_payload_size) (length bs))
                else decode_payload ed bj tag payload)))))"

end
