(* ===== verification/Sync_Message_Props.thy ===== *)
theory Sync_Message_Props
  imports Sync_Message
begin

text \<open>
  The wire format of the sync messages: every message within the limits of the format decodes to
  itself, nothing but a whole message decodes, whatever decodes is within the limits, and what
  happens beyond them.
\<close>

section \<open>The limits of the format\<close>

text \<open>A signed value with the layout of the format, as decoding and sealing give it.\<close>

definition signed_ok :: "Ed25519 \<Rightarrow> 'a Payload \<Rightarrow> ('a \<Rightarrow> bool) \<Rightarrow> Signed \<Rightarrow> bool" where
  "signed_ok ed P valid s \<longleftrightarrow>
     (\<exists>x. valid x \<and> sg_bytes s = seal_payload_bytes P (sg_issuer s) x @ sg_signature s)
     \<and> length (sg_issuer s) = 32 \<and> length (sg_signature s) = 64 \<and> key_from_bytes_ok ed (sg_issuer s)"

definition item_ok :: "Ed25519 \<Rightarrow> 'a Payload \<Rightarrow> ('a \<Rightarrow> bool) \<Rightarrow> Signed \<times> Blob \<Rightarrow> bool" where
  "item_ok ed P valid item \<longleftrightarrow> signed_ok ed P valid (fst item) \<and> length (snd item) < 2 ^ 64"

definition commit_item_ok :: "Ed25519 \<Rightarrow> Bijoux \<Rightarrow> Signed \<times> Blob \<Rightarrow> bool" where
  "commit_item_ok ed bj = item_ok ed (loose_commit_payload bj) wf_LooseCommit"

definition fragment_item_ok :: "Ed25519 \<Rightarrow> Bijoux \<Rightarrow> Signed \<times> Blob \<Rightarrow> bool" where
  "fragment_item_ok ed bj = item_ok ed (fragment_payload bj) wf_Fragment"

definition remote_heads_ok :: "RemoteHeads \<Rightarrow> bool" where
  "remote_heads_ok h \<longleftrightarrow> length (rh_heads h) < 2 ^ 32 \<and> (\<forall>i \<in> set (rh_heads h). length (commit_id_bytes i) = 32)"

definition sync_diff_ok :: "Ed25519 \<Rightarrow> Bijoux \<Rightarrow> SyncDiff \<Rightarrow> bool" where
  "sync_diff_ok ed bj d \<longleftrightarrow>
     length (sd_missing_commits d) < 2 ^ 16 \<and> length (sd_missing_fragments d) < 2 ^ 16 \<and>
     length (rd_commit_fingerprints (sd_requesting d)) < 2 ^ 16 \<and>
     length (rd_fragment_fingerprints (sd_requesting d)) < 2 ^ 16 \<and>
     (\<forall>i \<in> set (sd_missing_commits d). commit_item_ok ed bj i) \<and>
     (\<forall>i \<in> set (sd_missing_fragments d). fragment_item_ok ed bj i)"

definition sync_result_ok :: "Ed25519 \<Rightarrow> Bijoux \<Rightarrow> SyncResult \<Rightarrow> bool" where
  "sync_result_ok ed bj r \<longleftrightarrow> (case r of SyncOk d \<Rightarrow> sync_diff_ok ed bj d | _ \<Rightarrow> True)"

definition request_ok :: "BatchSyncRequest \<Rightarrow> bool" where
  "request_ok req \<longleftrightarrow>
     length (sedimentree_id_bytes (bq_id req)) = 32 \<and> length (peer_id_bytes (rq_requestor (bq_req_id req))) = 32 \<and>
     (let fs = bq_fingerprint_summary req in
      length (commit_fingerprints fs) < 2 ^ 16 \<and> length (fragment_fingerprints fs) < 2 ^ 16 \<and>
      sorted_wrt (<) (commit_fingerprints fs) \<and> sorted_wrt (<) (fragment_fingerprints fs))"

definition response_ok :: "Ed25519 \<Rightarrow> Bijoux \<Rightarrow> BatchSyncResponse \<Rightarrow> bool" where
  "response_ok ed bj resp \<longleftrightarrow>
     length (sedimentree_id_bytes (bs_id resp)) = 32 \<and> length (peer_id_bytes (rq_requestor (bs_req_id resp))) = 32 \<and>
     sync_result_ok ed bj (bs_result resp) \<and> remote_heads_ok (bs_responder_heads resp)"

fun message_ok :: "Ed25519 \<Rightarrow> Bijoux \<Rightarrow> SyncMessage \<Rightarrow> bool" where
  "message_ok ed bj (MsgLooseCommit sid s blob h) \<longleftrightarrow>
     length (sedimentree_id_bytes sid) = 32 \<and> commit_item_ok ed bj (s, blob) \<and> remote_heads_ok h"
| "message_ok ed bj (MsgFragment sid s blob h) \<longleftrightarrow>
     length (sedimentree_id_bytes sid) = 32 \<and> fragment_item_ok ed bj (s, blob) \<and> remote_heads_ok h"
| "message_ok ed bj (MsgBatchSyncRequest req) \<longleftrightarrow> request_ok req"
| "message_ok ed bj (MsgBatchSyncResponse resp) \<longleftrightarrow> response_ok ed bj resp"
| "message_ok ed bj (MsgRemoveSubscriptions ids) \<longleftrightarrow>
     length ids < 2 ^ 16 \<and> (\<forall>i \<in> set ids. length (sedimentree_id_bytes i) = 32)"
| "message_ok ed bj (MsgDataRequestRejected sid) \<longleftrightarrow> length (sedimentree_id_bytes sid) = 32"
| "message_ok ed bj (MsgHeadsUpdate sid h) \<longleftrightarrow> length (sedimentree_id_bytes sid) = 32 \<and> remote_heads_ok h"


section \<open>Counts\<close>

lemma unat_count16: "n < 2 ^ 16 \<Longrightarrow> unat (word_of_nat n :: u16) = n"
  by (simp add: unat_of_nat)

lemma unat_count32: "n < 2 ^ 32 \<Longrightarrow> unat (word_of_nat n :: u32) = n"
  by (simp add: unat_of_nat)

lemma unat_count64: "n < 2 ^ 64 \<Longrightarrow> unat (word_of_nat n :: u64) = n"
  by (simp add: unat_of_nat)

lemma unat_u16_less: "unat (w :: u16) < 2 ^ 16"
  using unsigned_less [of w] by simp

lemma unat_u32_less: "unat (w :: u32) < 2 ^ 32"
  using unsigned_less [of w] by simp

lemma length_os_of_list: "length (os_of_list xs) \<le> length xs"
  by (simp add: os_of_list_def)


section \<open>Reading back the parts\<close>

text \<open>The identifiers of a list, read as arrays.\<close>

lemma reads_ids:
  assumes "\<forall>i \<in> set is. length (g i) = 32" and "n = length is"
  shows "reads (read_many n (read_array 32)) (concat (map g is)) (map g is)"
  using wire_id.many_read_write [of "map g is" n] assms by (simp add: comp_def)

lemma sound_ids:
  "sound (read_many k (read_array 32)) (\<lambda>as n. length as = k \<and> (\<forall>a \<in> set as. length a = 32) \<and> length (concat as) \<le> n)"
  using wire_id.many_read_ok by simp

lemma reads_fps: "n = length fps \<Longrightarrow> reads (read_many n read_u64) (concat (map encode_u64 fps)) fps"
  using wire_u64.many_read_write by simp

lemma sound_fps: "sound (read_many k read_u64) (\<lambda>fps n. length fps = k \<and> length (concat (map encode_u64 fps)) \<le> n)"
  using wire_u64.many_read_ok by simp

lemma sound_heads: "sound decode_remote_heads (\<lambda>h n. remote_heads_ok h \<and> length (encode_remote_heads h) \<le> n)"
  unfolding decode_remote_heads_def [abs_def]
proof (rule sound_bind [OF sound_u64], rule sound_bind [OF sound_u32], rule sound_bind [OF sound_ids], rule sound_return)
  fix counter count and n1 n2 n3 :: nat and as :: "bytes list"
  assume "n1 = 8" "n2 = 4" "length as = unat (count :: u32) \<and> (\<forall>a \<in> set as. length a = 32) \<and> length (concat as) \<le> n3"
  then show "remote_heads_ok \<lparr>rh_counter = counter, rh_heads = map CommitId as\<rparr>
      \<and> length (encode_remote_heads \<lparr>rh_counter = counter, rh_heads = map CommitId as\<rparr>) \<le> n1 + (n2 + (n3 + 0))"
    using unat_u32_less [of count] by (auto simp: remote_heads_ok_def encode_remote_heads_def comp_def)
qed

lemma reads_heads: "remote_heads_ok h \<Longrightarrow> reads decode_remote_heads (encode_remote_heads h) h"
  unfolding decode_remote_heads_def [abs_def] encode_remote_heads_def remote_heads_ok_def
  apply (rule reads_bind, rule reads_u64)
  apply (rule reads_bind, rule reads_u32)
  apply (rule reads_cong, rule reads_map, rule reads_ids)
  apply (auto simp: unat_count32 comp_def)
  done

interpretation wire_heads: wire_type decode_remote_heads encode_remote_heads remote_heads_ok
  by unfold_locales (erule reads_heads, rule sound_heads)

lemma length_heads: "remote_heads_ok h \<Longrightarrow> length (encode_remote_heads h) = remote_heads_size h"
  by (simp add: remote_heads_ok_def encode_remote_heads_def remote_heads_size_def length_concat_const)

text \<open>A signed value inside a message.\<close>

lemma reads_signed:
  assumes "payload_codec P valid" and "signed_ok ed P valid s"
  shows "reads (read_signed ed P) (sg_bytes s) s"
proof -
  obtain y where y: "valid y" "sg_bytes s = seal_payload_bytes P (sg_issuer s) y @ sg_signature s"
    and len: "length (sg_issuer s) = 32" "length (sg_signature s) = 64" "key_from_bytes_ok ed (sg_issuer s)"
    using assms(2) by (auto simp: signed_ok_def)
  have "try_decode_prefix ed P (sg_bytes s @ rest) = Inr (s, signed_size P y)" for rest
    using payload_codec.try_decode_prefix_layout [OF assms(1) y(1) len(1,3,2), of rest] y(2) by simp
  moreover have "signed_size P y = length (sg_bytes s)"
    using payload_codec.fields_size_length [OF assms(1) y(1)] payload_codec.schema_length [OF assms(1)] y(2) len
    by (simp add: signed_size_def seal_payload_bytes_disc)
  ultimately show ?thesis
    by (simp add: reads_def read_signed_def get_range_def lift_bts_def)
qed

lemma sound_signed:
  assumes "payload_codec P valid"
  shows "sound (read_signed ed P) (\<lambda>s n. signed_ok ed P valid s \<and> n = length (sg_bytes s))"
proof -
  have "signed_ok ed P valid s \<and> n = length (sg_bytes s) \<and> n \<le> length bs"
    if "try_decode_prefix ed P bs = Inr (s, n)" for bs s n
  proof -
    from payload_codec.try_decode_prefix_inv [OF assms that] obtain y where "valid y"
      "sg_bytes s = seal_payload_bytes P (sg_issuer s) y @ sg_signature s" "length (sg_issuer s) = 32"
      "length (sg_signature s) = 64" "key_from_bytes_ok ed (sg_issuer s)" "n \<le> length bs" "take n bs = sg_bytes s"
      by blast
    then show ?thesis unfolding signed_ok_def by (metis length_take min.absorb2)
  qed
  then show ?thesis
    by (fastforce simp: sound_def read_signed_def get_range_def lift_bts_def result_iff split: if_splits)
qed

lemma reads_blob:
  assumes "bijoux_laws bj" and "length blob < 2 ^ 64"
  shows "reads (read_blob bj) (bj_encode bj (word_of_nat (length blob)) @ blob) blob"
  unfolding read_blob_def [abs_def]
proof (rule reads_bind [OF reads_bijou64_as_usize [OF assms(1)]])
  show "reads (\<lambda>buf off. try_bind (lift_bts (ok_or (get_range buf off ((off + unat (word_of_nat (length blob) :: u64)) mod 2 ^ 64))
        (BufferTooShort (ReadSlice (unat (word_of_nat (length blob) :: u64))) off (unat (word_of_nat (length blob) :: u64)) (length buf - off))))
      (\<lambda>blob'. Inr (blob', (off + unat (word_of_nat (length blob) :: u64)) mod 2 ^ 64))) blob blob"
    unfolding unat_count64 [OF assms(2)]
    by (simp add: reads_def get_range_def lift_bts_def)
qed

lemma sound_blob:
  assumes "bijoux_laws bj"
  shows "sound (read_blob bj) (\<lambda>blob n. length blob < 2 ^ 64 \<and> n = length (bj_encode bj (word_of_nat (length blob)) @ blob))"
  unfolding read_blob_def [abs_def]
proof (rule sound_bind [OF sound_bijou64_as_usize [OF assms]], elim conjE)
  fix k n
  assume k: "k < 2 ^ 64" and n: "n = length (bj_encode bj (word_of_nat k))"
  show "sound (\<lambda>buf off. try_bind (lift_bts (ok_or (get_range buf off ((off + k) mod 2 ^ 64))
        (BufferTooShort (ReadSlice k) off k (length buf - off)))) (\<lambda>blob. Inr (blob, (off + k) mod 2 ^ 64)))
      (\<lambda>blob m. length blob < 2 ^ 64 \<and> n + m = length (bj_encode bj (word_of_nat (length blob)) @ blob))"
    unfolding sound_def
  proof (intro allI impI, elim conjE)
    fix buf blob :: bytes and off off' :: nat
    assume le: "off \<le> length buf" "length buf < 2 ^ 64"
      and eq: "try_bind (lift_bts (ok_or (get_range buf off ((off + k) mod 2 ^ 64))
        (BufferTooShort (ReadSlice k) off k (length buf - off)))) (\<lambda>blob. Inr (blob, (off + k) mod 2 ^ 64)) = Inr (blob, off')"
    let ?e = "(off + k) mod 2 ^ 64"
    from eq have e: "off' = ?e" "off \<le> ?e" "?e \<le> length buf" "blob = take (?e - off) (drop off buf)"
      by (auto simp: lift_bts_def result_iff get_range_def split: if_splits)
    have "off + k < 2 ^ 64"
    proof (rule ccontr)
      assume "\<not> off + k < 2 ^ 64"
      then have "?e = off + k - 2 ^ 64" using le k by (simp add: le_mod_geq)
      with e(2) k \<open>\<not> off + k < 2 ^ 64\<close> show False by simp
    qed
    then have "?e = off + k" by simp
    then show "\<exists>m. off' = off + m \<and> off' \<le> length buf \<and> length blob < 2 ^ 64
        \<and> n + m = length (bj_encode bj (word_of_nat (length blob)) @ blob)"
      using e k n by simp
  qed
qed

text \<open>Pairs of a signed value and a blob.\<close>

lemma wire_item:
  assumes "bijoux_laws bj" and "payload_codec P valid"
  shows "wire_type (read_item ed bj P) (encode_item bj) (item_ok ed P valid)"
proof
  fix item
  assume ok: "item_ok ed P valid item"
  obtain s blob where item: "item = (s, blob)" by (cases item)
  from ok have "signed_ok ed P valid s" "length blob < 2 ^ 64" by (simp_all add: item item_ok_def)
  then show "reads (read_item ed bj P) (encode_item bj item) item"
    unfolding read_item_def [abs_def] encode_item_def item prod.case
    by (intro reads_bind [OF reads_signed [OF assms(2)]] reads_map [OF reads_blob [OF assms(1)]])
next
  show "sound (read_item ed bj P) (\<lambda>item n. item_ok ed P valid item \<and> length (encode_item bj item) \<le> n)"
    unfolding read_item_def [abs_def]
    by (rule sound_bind [OF sound_signed [OF assms(2)]], rule sound_bind [OF sound_blob [OF assms(1)]], rule sound_return)
      (auto simp: item_ok_def encode_item_def)
qed

lemmas wire_commit_item = wire_item [OF _ loose_commit_payload_codec, folded commit_item_ok_def]
lemmas wire_fragment_item = wire_item [OF _ fragment_payload_codec, folded fragment_item_ok_def]

lemma length_item:
  "bijoux_laws bj \<Longrightarrow> length (encode_item bj item) = item_size bj item"
  by (cases item) (simp add: encode_item_def item_size_def bijoux_laws_def)

lemma length_items:
  "bijoux_laws bj \<Longrightarrow> length (concat (map (encode_item bj) items)) = sum_list (map (item_size bj) items)"
  by (induction items) (simp_all add: length_item)

lemma length_fps [simp]: "length (concat (map encode_u64 fps)) = length fps * 8"
  by (induction fps) simp_all

lemma reads_diff:
  assumes "bijoux_laws bj" and "sync_diff_ok ed bj d"
  shows "reads (decode_sync_diff ed bj) (encode_sync_diff bj d) d"
  unfolding decode_sync_diff_def [abs_def] encode_sync_diff_def
  apply (rule reads_bind, rule reads_u16, rule reads_bind, rule reads_u16, rule reads_bind, rule reads_u16,
      rule reads_bind, rule reads_u16)
  apply (rule reads_bind, rule wire_type.many_read_write [OF wire_commit_item [OF assms(1) assms(1)]])
  using assms(2) apply (simp add: sync_diff_ok_def)
  using assms(2) apply (simp only: sync_diff_ok_def unat_count16)
  apply (rule reads_bind, rule wire_type.many_read_write [OF wire_fragment_item [OF assms(1) assms(1)]])
  using assms(2) apply (simp add: sync_diff_ok_def)
  using assms(2) apply (simp only: sync_diff_ok_def unat_count16)
  apply (rule reads_bind, rule reads_fps)
  using assms(2) apply (simp only: sync_diff_ok_def unat_count16)
  apply (rule reads_cong, rule reads_map, rule reads_fps)
  using assms(2) apply (simp only: sync_diff_ok_def unat_count16)
  apply simp_all
  done

lemma sound_diff:
  assumes "bijoux_laws bj"
  shows "sound (decode_sync_diff ed bj) (\<lambda>d n. sync_diff_ok ed bj d \<and> length (encode_sync_diff bj d) \<le> n)"
  unfolding decode_sync_diff_def [abs_def]
  by (rule sound_bind [OF sound_u16], rule sound_bind [OF sound_u16], rule sound_bind [OF sound_u16],
      rule sound_bind [OF sound_u16],
      rule sound_bind [OF wire_type.many_read_ok [OF wire_commit_item [OF assms assms]]],
      rule sound_bind [OF wire_type.many_read_ok [OF wire_fragment_item [OF assms assms]]],
      rule sound_bind [OF sound_fps], rule sound_bind [OF sound_fps], rule sound_return)
    (use unat_u16_less in \<open>auto simp: sync_diff_ok_def encode_sync_diff_def\<close>)

lemma wire_diff: "bijoux_laws bj \<Longrightarrow> wire_type (decode_sync_diff ed bj) (encode_sync_diff bj) (sync_diff_ok ed bj)"
  by unfold_locales (auto intro: reads_diff sound_diff)

lemma wire_result:
  assumes "bijoux_laws bj"
  shows "wire_type (decode_sync_result ed bj) (encode_sync_result bj) (sync_result_ok ed bj)"
proof
  fix r
  assume ok: "sync_result_ok ed bj r"
  show "reads (decode_sync_result ed bj) (encode_sync_result bj r) r"
  proof (cases r)
    case (SyncOk d)
    then have "sync_diff_ok ed bj d" using ok by (simp add: sync_result_ok_def)
    from reads_bind [OF reads_u8 [of 0], where b = "encode_sync_diff bj d" and y = "SyncOk d"
        and k = "\<lambda>tag payload off. if tag = 0x00 then try_bind (decode_sync_diff ed bj payload off) (\<lambda>(d, off). Inr (SyncOk d, off))
          else if tag = 0x01 then Inr (SyncNotFound, off) else if tag = 0x02 then Inr (SyncUnauthorized, off)
          else Inl (InvalidEnumTag tag ''SyncResult'')"]
      reads_map [OF reads_diff [OF assms this], of SyncOk]
    show ?thesis by (simp add: SyncOk decode_sync_result_def [abs_def] encode_sync_result_def)
  qed (simp_all add: reads_def decode_sync_result_def encode_sync_result_def read_u8_def get_at_def lift_bts_def)
next
  show "sound (decode_sync_result ed bj) (\<lambda>r n. sync_result_ok ed bj r \<and> length (encode_sync_result bj r) \<le> n)"
    unfolding decode_sync_result_def [abs_def]
  proof (rule sound_bind [OF sound_u8])
    fix tag :: byte and n :: nat
    assume n: "n = 1"
    have d: "sound (\<lambda>payload off. try_bind (decode_sync_diff ed bj payload off) (\<lambda>(d, off). Inr (SyncOk d, off)))
        (\<lambda>r m. sync_result_ok ed bj r \<and> length (encode_sync_result bj r) \<le> 1 + m)"
      by (rule sound_bind [OF sound_diff [OF assms]], rule sound_return) (auto simp: sync_result_ok_def encode_sync_result_def)
    show "sound (\<lambda>payload off. if tag = 0x00 then try_bind (decode_sync_diff ed bj payload off) (\<lambda>(d, off). Inr (SyncOk d, off))
          else if tag = 0x01 then Inr (SyncNotFound, off) else if tag = 0x02 then Inr (SyncUnauthorized, off)
          else Inl (InvalidEnumTag tag ''SyncResult''))
        (\<lambda>r m. sync_result_ok ed bj r \<and> length (encode_sync_result bj r) \<le> n + m)"
      using d n by (auto simp: sound_def sync_result_ok_def encode_sync_result_def)
  qed
qed

lemma length_result:
  "bijoux_laws bj \<Longrightarrow> length (encode_sync_result bj r) = 1 + sync_result_size bj r"
  by (cases r) (simp_all add: encode_sync_result_def sync_result_size_def encode_sync_diff_def sync_diff_size_def length_items)

lemma reads_subscribe: "reads read_subscribe [if b then 1 else 0] b"
  by (cases b) (simp_all add: reads_def read_subscribe_def read_u8_def get_at_def lift_bts_def)

lemma sound_subscribe: "sound read_subscribe (\<lambda>b n. n = 1)"
  using sound_u8 by (fastforce simp: sound_def read_subscribe_def result_iff split: if_splits)


section \<open>Reading back the messages\<close>

lemma reads_request:
  assumes "request_ok req"
  shows "reads decode_batch_sync_request (encode_batch_sync_request req) (MsgBatchSyncRequest req)"
  unfolding decode_batch_sync_request_def [abs_def] encode_batch_sync_request_def Let_def
  apply (rule reads_bind, rule reads_array)
  using assms apply (simp add: request_ok_def)
  apply (rule reads_bind, rule reads_array)
  using assms apply (simp add: request_ok_def)
  apply (rule reads_bind, rule reads_u64, rule reads_bind, rule reads_subscribe, rule reads_bind, rule reads_u64,
      rule reads_bind, rule reads_u64, rule reads_bind, rule reads_u16, rule reads_bind, rule reads_u16)
  apply (rule reads_bind, rule reads_fps)
  using assms apply (simp only: request_ok_def Let_def unat_count16)
  apply (rule reads_cong, rule reads_map, rule reads_fps)
  using assms apply (simp only: request_ok_def Let_def unat_count16)
  using assms apply (simp_all add: request_ok_def Let_def os_of_list_id)
  done

lemma reads_response:
  assumes "bijoux_laws bj" and "response_ok ed bj resp"
  shows "reads (decode_batch_sync_response ed bj) (encode_batch_sync_response bj resp) (MsgBatchSyncResponse resp)"
  unfolding decode_batch_sync_response_def [abs_def] encode_batch_sync_response_def
  apply (rule reads_bind, rule reads_array)
  using assms(2) apply (simp add: response_ok_def)
  apply (rule reads_bind, rule reads_u64, rule reads_bind, rule reads_array)
  using assms(2) apply (simp add: response_ok_def)
  apply (rule reads_bind, rule wire_type.read_write [OF wire_result [OF assms(1)]])
  using assms(2) apply (simp add: response_ok_def)
  apply (rule reads_cong, rule reads_map, rule reads_heads)
  using assms(2) apply (simp_all add: response_ok_def)
  apply (cases resp, cases "bs_req_id resp", simp)
  done

lemma reads_remove:
  assumes "length ids < 2 ^ 16" and "\<forall>i \<in> set ids. length (sedimentree_id_bytes i) = 32"
  shows "reads decode_remove_subscriptions (encode_remove_subscriptions ids) (MsgRemoveSubscriptions ids)"
  unfolding decode_remove_subscriptions_def [abs_def] encode_remove_subscriptions_def
  apply (rule reads_bind, rule reads_u16)
  apply (rule reads_cong, rule reads_map, rule reads_ids)
  using assms apply (simp_all add: unat_count16 comp_def)
  apply (rule map_idI, simp)
  done

lemma reads_item_message:
  assumes "bijoux_laws bj" and "payload_codec P valid" and "item_ok ed P valid (s, blob)" and "remote_heads_ok h"
    and "length (sedimentree_id_bytes sid) = 32"
  shows "reads (\<lambda>payload off.
       try_bind (read_array 32 payload off) (\<lambda>(sid, off).
       try_bind (decode_remote_heads payload off) (\<lambda>(sender_heads, off).
       try_bind (read_signed ed P payload off) (\<lambda>(s, off).
       try_bind (read_blob bj payload off) (\<lambda>(blob, off).
       Inr (C (SedimentreeId sid) s blob sender_heads, off))))))
     (sedimentree_id_bytes sid @ encode_remote_heads h @ sg_bytes s @ bj_encode bj (word_of_nat (length blob)) @ blob)
     (C sid s blob h)"
  apply (rule reads_bind, rule reads_array, rule assms(5))
  apply (rule reads_bind, rule reads_heads, rule assms(4))
  apply (rule reads_bind, rule reads_signed [OF assms(2)])
  using assms(3) apply (simp add: item_ok_def)
  apply (rule reads_cong, rule reads_map, rule reads_blob [OF assms(1)])
  using assms(3) apply (simp_all add: item_ok_def)
  done

text \<open>The decoder that the tag of a message selects.\<close>

fun payload_reader :: "Ed25519 \<Rightarrow> Bijoux \<Rightarrow> SyncMessage \<Rightarrow> SyncMessage reader" where
  "payload_reader ed bj (MsgLooseCommit _ _ _ _) = decode_loose_commit ed bj"
| "payload_reader ed bj (MsgFragment _ _ _ _) = decode_fragment ed bj"
| "payload_reader ed bj (MsgBatchSyncRequest _) = decode_batch_sync_request"
| "payload_reader ed bj (MsgBatchSyncResponse _) = decode_batch_sync_response ed bj"
| "payload_reader ed bj (MsgRemoveSubscriptions _) = decode_remove_subscriptions"
| "payload_reader ed bj (MsgDataRequestRejected _) = decode_data_request_rejected"
| "payload_reader ed bj (MsgHeadsUpdate _ _) = decode_heads_update"

lemma decode_payload_tag:
  "decode_payload ed bj (message_tag m) payload = try_bind (payload_reader ed bj m payload 0) (\<lambda>(msg, _). Inr msg)"
  by (cases m) (simp_all add: decode_payload_def)

lemma reads_payload:
  assumes "bijoux_laws bj" and "message_ok ed bj m"
  shows "reads (payload_reader ed bj m) (encode_payload bj m) m"
proof (cases m)
  case (MsgLooseCommit sid s blob h)
  then show ?thesis
    using reads_item_message [OF assms(1) loose_commit_payload_codec [OF assms(1)], of ed s blob h sid MsgLooseCommit] assms(2)
    by (simp add: decode_loose_commit_def [abs_def] commit_item_ok_def)
next
  case (MsgFragment sid s blob h)
  then show ?thesis
    using reads_item_message [OF assms(1) fragment_payload_codec [OF assms(1)], of ed s blob h sid MsgFragment] assms(2)
    by (simp add: decode_fragment_def [abs_def] fragment_item_ok_def)
next
  case (MsgBatchSyncRequest req)
  then show ?thesis using assms(2) reads_request by simp
next
  case (MsgBatchSyncResponse resp)
  then show ?thesis using assms reads_response by simp
next
  case (MsgRemoveSubscriptions ids)
  then show ?thesis using assms(2) reads_remove by simp
next
  case (MsgDataRequestRejected sid)
  then have "reads (read_array 32) (sedimentree_id_bytes sid) (sedimentree_id_bytes sid)"
    using assms(2) by (simp add: reads_array)
  from reads_map [OF this, of "\<lambda>a. MsgDataRequestRejected (SedimentreeId a)"] MsgDataRequestRejected
  show ?thesis by (simp add: decode_data_request_rejected_def [abs_def] encode_data_request_rejected_def)
next
  case (MsgHeadsUpdate sid h)
  then have ok: "length (sedimentree_id_bytes sid) = 32" "remote_heads_ok h" using assms(2) by simp_all
  have "reads decode_heads_update (sedimentree_id_bytes sid @ encode_remote_heads h) (MsgHeadsUpdate sid h)"
    unfolding decode_heads_update_def [abs_def]
    apply (rule reads_bind, rule reads_array, rule ok(1))
    apply (rule reads_cong, rule reads_map, rule reads_heads, rule ok(2))
    apply simp_all
    done
  then show ?thesis by (simp add: MsgHeadsUpdate)
qed


section \<open>Whatever decodes\<close>

definition payload_ok :: "Ed25519 \<Rightarrow> Bijoux \<Rightarrow> byte \<Rightarrow> SyncMessage \<Rightarrow> nat \<Rightarrow> bool" where
  "payload_ok ed bj tag m n \<longleftrightarrow> message_ok ed bj m \<and> message_tag m = tag \<and> length (encode_payload bj m) \<le> n"

lemma sound_loose_commit: "bijoux_laws bj \<Longrightarrow> sound (decode_loose_commit ed bj) (payload_ok ed bj 0)"
  unfolding decode_loose_commit_def [abs_def]
  by (rule sound_bind [OF sound_array], rule sound_bind [OF sound_heads],
      rule sound_bind [OF sound_signed [OF loose_commit_payload_codec]], assumption,
      rule sound_bind [OF sound_blob], assumption, rule sound_return)
    (auto simp: payload_ok_def commit_item_ok_def item_ok_def)

lemma sound_fragment: "bijoux_laws bj \<Longrightarrow> sound (decode_fragment ed bj) (payload_ok ed bj 1)"
  unfolding decode_fragment_def [abs_def]
  by (rule sound_bind [OF sound_array], rule sound_bind [OF sound_heads],
      rule sound_bind [OF sound_signed [OF fragment_payload_codec]], assumption,
      rule sound_bind [OF sound_blob], assumption, rule sound_return)
    (auto simp: payload_ok_def fragment_item_ok_def item_ok_def)

lemma os_count16:
  assumes "length xs = unat (w :: u16)"
  shows "length (os_of_list xs) < 65536" and "length (os_of_list xs) \<le> unat w"
  using assms length_os_of_list [of xs] unat_u16_less [of w] by simp_all

lemma sound_request: "sound decode_batch_sync_request (payload_ok ed bj 4)"
  unfolding decode_batch_sync_request_def [abs_def]
proof (rule sound_bind [OF sound_array], rule sound_bind [OF sound_array], rule sound_bind [OF sound_u64],
    rule sound_bind [OF sound_subscribe], rule sound_bind [OF sound_u64], rule sound_bind [OF sound_u64],
    rule sound_bind [OF sound_u16], rule sound_bind [OF sound_u16], rule sound_bind [OF sound_fps],
    rule sound_bind [OF sound_fps], rule sound_return, goal_cases)
  case (1 sid na requestor nb nonce nc subscribe nd k0 ne k1 nf cc ng fc nh cfps ni ffps nj)
  then have "length cfps = unat cc" "length ffps = unat fc" "unat cc * 8 \<le> ni" "unat fc * 8 \<le> nj" by simp_all
  moreover note os_count16 [OF this(1)] os_count16 [OF this(2)]
  ultimately show ?case
    using 1 by (simp add: payload_ok_def request_ok_def encode_batch_sync_request_def Let_def)
qed

lemma sound_response:
  assumes "bijoux_laws bj"
  shows "sound (decode_batch_sync_response ed bj) (payload_ok ed bj 5)"
  unfolding decode_batch_sync_response_def [abs_def]
  by (rule sound_bind [OF sound_array], rule sound_bind [OF sound_u64], rule sound_bind [OF sound_array],
      rule sound_bind [OF wire_type.read_ok [OF wire_result [OF assms]]], rule sound_bind [OF sound_heads], rule sound_return)
    (auto simp: payload_ok_def response_ok_def encode_batch_sync_response_def)

lemma sound_remove: "sound decode_remove_subscriptions (payload_ok ed bj 6)"
  unfolding decode_remove_subscriptions_def [abs_def]
  by (rule sound_bind [OF sound_u16], rule sound_bind [OF sound_ids], rule sound_return)
    (use unat_u16_less in \<open>auto simp: payload_ok_def encode_remove_subscriptions_def comp_def\<close>)

lemma sound_rejected: "sound decode_data_request_rejected (payload_ok ed bj 7)"
  unfolding decode_data_request_rejected_def [abs_def]
  by (rule sound_bind [OF sound_array], rule sound_return)
    (auto simp: payload_ok_def encode_data_request_rejected_def)

lemma sound_heads_update: "sound decode_heads_update (payload_ok ed bj 8)"
  unfolding decode_heads_update_def [abs_def]
  by (rule sound_bind [OF sound_array], rule sound_bind [OF sound_heads], rule sound_return)
    (auto simp: payload_ok_def)

lemma sound_at_0: "sound rd Q \<Longrightarrow> length buf < 2 ^ 64 \<Longrightarrow> rd buf 0 = Inr (x, n) \<Longrightarrow> n \<le> length buf \<and> Q x n"
  unfolding sound_def by (metis add_0 le0)

lemma decode_payload_ok:
  assumes "bijoux_laws bj" and "decode_payload ed bj tag payload = Inr m" and "length payload < 2 ^ 64"
  shows "payload_ok ed bj tag m (length payload)"
proof -
  obtain n where n: "(if tag = 0x00 then decode_loose_commit ed bj payload 0
        else if tag = 0x01 then decode_fragment ed bj payload 0
        else if tag = 0x04 then decode_batch_sync_request payload 0
        else if tag = 0x05 then decode_batch_sync_response ed bj payload 0
        else if tag = 0x06 then decode_remove_subscriptions payload 0
        else if tag = 0x07 then decode_data_request_rejected payload 0
        else if tag = 0x08 then decode_heads_update payload 0
        else Inl (InvalidEnumTag tag ''Message'')) = Inr (m, n)"
    using assms(2) by (auto simp: decode_payload_def result_iff)
  note s = sound_at_0 [OF _ assms(3)]
  have "n \<le> length payload \<and> payload_ok ed bj tag m n"
    using n s [OF sound_loose_commit [OF assms(1)]] s [OF sound_fragment [OF assms(1)]] s [OF sound_request]
      s [OF sound_response [OF assms(1)]] s [OF sound_remove] s [OF sound_rejected] s [OF sound_heads_update]
    by (auto split: if_splits)
  then show ?thesis by (auto simp: payload_ok_def)
qed


section \<open>Envelopes\<close>

lemma length_payload:
  assumes "bijoux_laws bj" and "message_ok ed bj m"
  shows "length (encode_payload bj m) = payload_size bj m"
proof -
  have bl: "length (bj_encode bj v) = bj_encoded_len bj v" for v using assms(1) by (simp add: bijoux_laws_def)
  show ?thesis
    using assms(2) length_result [OF assms(1)]
    by (cases m) (simp_all add: length_heads bl encode_batch_sync_request_def request_ok_def Let_def
        encode_batch_sync_response_def response_ok_def encode_remove_subscriptions_def length_concat_const
        encode_data_request_rejected_def)
qed

lemma signed_ok_min:
  assumes "payload_codec P valid" and "signed_ok ed P valid s"
  shows "MIN_SIGNED P \<le> length (sg_bytes s)"
proof -
  obtain y where y: "valid y" "sg_bytes s = seal_payload_bytes P (sg_issuer s) y @ sg_signature s"
    "length (sg_issuer s) = 32" "length (sg_signature s) = 64"
    using assms(2) by (auto simp: signed_ok_def)
  then have "length (sg_bytes s) = signed_size P y"
    using payload_codec.fields_size_length [OF assms(1) y(1)] payload_codec.schema_length [OF assms(1)]
    by (simp add: signed_size_def seal_payload_bytes_disc)
  then show ?thesis using payload_codec.min_signed_le [OF assms(1) y(1)] by simp
qed

lemma min_sizes_ok:
  assumes "bijoux_laws bj" and "message_ok ed bj m"
  shows "\<exists>k name. min_sizes (message_tag m) = Some (k, name) \<and> k \<le> payload_size bj m"
proof -
  have bl: "1 \<le> bj_encoded_len bj v" for v using assms(1) by (simp add: bijoux_laws_def)
  show ?thesis
  proof (cases m)
    case (MsgLooseCommit sid s blob h)
    then have "198 \<le> length (sg_bytes s)"
      using assms(2) signed_ok_min [OF loose_commit_payload_codec [OF assms(1)], of ed s]
      by (simp add: commit_item_ok_def item_ok_def loose_commit_payload_def LC_MIN_SIZE_def LC_MIN_FIELDS_SIZE_def LC_FIXED_FIELDS_SIZE_def)
    then show ?thesis using bl [of "word_of_nat (length blob)"] by (simp add: MsgLooseCommit min_sizes_def remote_heads_size_def)
  next
    case (MsgFragment sid s blob h)
    then have "200 \<le> length (sg_bytes s)"
      using assms(2) signed_ok_min [OF fragment_payload_codec [OF assms(1)], of ed s]
      by (simp add: fragment_item_ok_def item_ok_def fragment_payload_def FR_MIN_SIZE_def FR_MIN_FIELDS_SIZE_def FR_FIXED_FIELDS_SIZE_def)
    then show ?thesis using bl [of "word_of_nat (length blob)"] by (simp add: MsgFragment min_sizes_def remote_heads_size_def)
  qed (simp_all add: min_sizes_def remote_heads_size_def)
qed

text \<open>An envelope whose size field is right is decoded by the decoder of its tag.\<close>

lemma decode_envelope:
  assumes "length payload + 9 < 2 ^ 32" and "min_sizes tag = Some (k, name)" and "k \<le> length payload"
  shows "decode_message ed bj (MESSAGE_SCHEMA @ encode_u32 (word_of_nat (9 + length payload)) @ [tag] @ payload)
    = decode_payload ed bj tag payload"
proof -
  have "unat (word_of_nat (9 + length payload) :: u32) = 9 + length payload"
    using assms(1) by (intro unat_count32) simp
  then show ?thesis
    using assms(2,3) by (simp add: decode_message_def ENVELOPE_HEADER_SIZE_def MESSAGE_SCHEMA_def get_range_def get_at_def
        nth_append Let_def)
qed

lemma decode_message_eq:
  assumes "9 \<le> length bs"
  shows "decode_message ed bj bs =
     (if take 4 bs \<noteq> MESSAGE_SCHEMA then Inl (InvalidSchema MESSAGE_SCHEMA (take 4 bs))
      else if length bs \<noteq> unat (from_be_bytes (take 4 (drop 4 bs)) :: u32)
      then Inl (SizeMismatch (unat (from_be_bytes (take 4 (drop 4 bs)) :: u32)) (length bs))
      else case min_sizes (bs ! 8) of None \<Rightarrow> Inl (InvalidEnumTag (bs ! 8) ''Message'')
        | Some (k, name) \<Rightarrow> if length (drop 9 bs) < k then Inl (MessageTooShort name (9 + k) (length bs))
            else decode_payload ed bj (bs ! 8) (drop 9 bs))"
proof -
  have h: "ENVELOPE_HEADER_SIZE = 9" by (simp add: ENVELOPE_HEADER_SIZE_def)
  have r: "get_range bs 0 4 = Some (take 4 bs)" "get_range bs 4 8 = Some (take 4 (drop 4 bs))"
    "get_at bs 8 = Some (bs ! 8)" "get_range bs 9 (length bs) = Some (drop 9 bs)" "\<not> length bs < 9"
    using assms by (simp_all add: get_range_def get_at_def)
  show ?thesis
    unfolding decode_message_def Let_def h by (simp only: r ok_or_simps try_bind_simps if_False)
qed

lemma decode_message_inv:
  assumes "decode_message ed bj bs = Inr m"
  shows "9 \<le> length bs \<and> length bs < 2 ^ 32 \<and> take 4 bs = MESSAGE_SCHEMA
    \<and> unat (from_be_bytes (take 4 (drop 4 bs)) :: u32) = length bs
    \<and> decode_payload ed bj (bs ! 8) (drop 9 bs) = Inr m"
proof -
  have len: "9 \<le> length bs"
  proof (rule ccontr)
    assume "\<not> 9 \<le> length bs"
    then have "length bs < ENVELOPE_HEADER_SIZE" by (simp add: ENVELOPE_HEADER_SIZE_def)
    then show False using assms unfolding decode_message_def by (simp only: if_True sum.distinct)
  qed
  note eq = decode_message_eq [OF len, of ed bj] 
  have 1: "take 4 bs = MESSAGE_SCHEMA"
    by (rule ccontr) (use assms in \<open>simp only: eq if_True sum.distinct simp_thms\<close>)
  have 2: "length bs = unat (from_be_bytes (take 4 (drop 4 bs)) :: u32)"
    by (rule ccontr) (use assms 1 in \<open>simp only: eq if_True if_False sum.distinct simp_thms\<close>)
  have "decode_payload ed bj (bs ! 8) (drop 9 bs) = Inr m"
  proof (cases "min_sizes (bs ! 8)")
    case None
    then show ?thesis using assms 1 2 [symmetric] by (simp only: eq simp_thms if_False option.case sum.distinct)
  next
    case (Some p)
    obtain k name where "p = (k, name)" by (cases p)
    with Some show ?thesis using assms 1 2 [symmetric]
      by (simp only: eq simp_thms if_False option.case prod.case) (simp only: sum.distinct split: if_splits)
  qed
  then show ?thesis
    using len 1 2 unat_u32_less [of "from_be_bytes (take 4 (drop 4 bs))"] by metis
qed

lemma encode_message_layout:
  assumes "bijoux_laws bj" and "message_ok ed bj m"
  shows "encode_message bj m = MESSAGE_SCHEMA @ encode_u32 (word_of_nat (9 + length (encode_payload bj m)))
      @ [message_tag m] @ encode_payload bj m"
    and "length (encode_message bj m) = message_encoded_size bj m"
  using length_payload [OF assms]
  by (simp_all add: encode_message_def ENVELOPE_HEADER_SIZE_def Let_def MESSAGE_SCHEMA_def message_encoded_size_def)

lemma decode_encode_message:
  assumes "bijoux_laws bj" and "message_ok ed bj m" and "message_encoded_size bj m < 2 ^ 32"
  shows "decode_message ed bj (encode_message bj m) = Inr m"
proof -
  let ?p = "encode_payload bj m"
  have len: "length ?p + 9 < 2 ^ 32"
    using assms(3) length_payload [OF assms(1,2)] by (simp add: message_encoded_size_def ENVELOPE_HEADER_SIZE_def)
  obtain k name where "min_sizes (message_tag m) = Some (k, name)" "k \<le> length ?p"
    using min_sizes_ok [OF assms(1,2)] length_payload [OF assms(1,2)] by auto
  from decode_envelope [OF len this]
  have "decode_message ed bj (encode_message bj m) = decode_payload ed bj (message_tag m) ?p"
    by (simp add: encode_message_layout(1) [OF assms(1,2)])
  also have "\<dots> = Inr m"
    using reads_at_0 [OF reads_payload [OF assms(1,2)], of "[]"] len by (simp add: decode_payload_tag)
  finally show ?thesis .
qed

lemma signed_ok_seal:
  assumes "valid y" and "signer_ok ed signer"
  shows "signed_ok ed P valid (vs_signed (seal signer P y))"
  using assms by (auto simp: signed_ok_def seal_def Let_def signer_ok_def)

text \<open>The size field of a buffer that starts with a message.\<close>

lemma size_field:
  assumes "bijoux_laws bj" and "message_ok ed bj m" and "message_encoded_size bj m < 2 ^ 32"
  shows "unat (from_be_bytes (take 4 (drop 4 (encode_message bj m @ rest))) :: u32) = length (encode_message bj m)"
    and "9 \<le> length (encode_message bj m)" and "take 4 (encode_message bj m @ rest) = MESSAGE_SCHEMA"
proof -
  have "9 + length (encode_payload bj m) < 2 ^ 32"
    using assms(3) length_payload [OF assms(1,2)] by (simp add: message_encoded_size_def ENVELOPE_HEADER_SIZE_def)
  from unat_count32 [OF this]
  show "unat (from_be_bytes (take 4 (drop 4 (encode_message bj m @ rest))) :: u32) = length (encode_message bj m)"
    by (simp add: encode_message_layout(1) [OF assms(1,2)] MESSAGE_SCHEMA_def)
  show "9 \<le> length (encode_message bj m)" "take 4 (encode_message bj m @ rest) = MESSAGE_SCHEMA"
    by (simp_all add: encode_message_layout(1) [OF assms(1,2)] MESSAGE_SCHEMA_def)
qed

lemma decode_prefix_fails:
  assumes "bijoux_laws bj" and "message_ok ed bj m" and "message_encoded_size bj m < 2 ^ 32"
    and "k < length (encode_message bj m)"
  shows "\<not> is_ok (decode_message ed bj (take k (encode_message bj m)))"
proof
  let ?e = "encode_message bj m"
  assume "is_ok (decode_message ed bj (take k ?e))"
  then obtain m' where "decode_message ed bj (take k ?e) = Inr m'"
    by (cases "decode_message ed bj (take k ?e)") auto
  from decode_message_inv [OF this] assms(4)
  have k: "9 \<le> k" and "unat (from_be_bytes (take 4 (drop 4 (take k ?e))) :: u32) = k" by auto
  moreover from k have "take 4 (drop 4 (take k ?e)) = take 4 (drop 4 ?e)" by (simp add: drop_take min_def)
  ultimately have "length ?e = k" using size_field(1) [OF assms(1-3), of "[]"] by simp
  with assms(4) show False by simp
qed

lemma decode_extension:
  assumes "bijoux_laws bj" and "message_ok ed bj m" and "message_encoded_size bj m < 2 ^ 32" and "ext \<noteq> []"
  shows "decode_message ed bj (encode_message bj m @ ext)
    = Inl (SizeMismatch (length (encode_message bj m)) (length (encode_message bj m @ ext)))"
proof -
  let ?e = "encode_message bj m"
  have "length (?e @ ext) \<noteq> length ?e" using assms(4) by simp
  then show ?thesis
    using size_field(1,3) [OF assms(1-3), of ext] size_field(2) [OF assms(1-3)] decode_message_eq [of "?e @ ext" ed bj] by simp
qed

definition sample_message :: SyncMessage where
  "sample_message = MsgLooseCommit (SedimentreeId (replicate 32 7))
     (vs_signed (seal (sample_signer 3) (loose_commit_payload sample_bijoux) sample_commit)) [1, 2, 3]
     \<lparr>rh_counter = 4, rh_heads = [sample_id 5]\<rparr>"

lemma sample_message_ok: "message_ok sample_ed25519 sample_bijoux sample_message"
  using signed_ok_seal [where valid = wf_LooseCommit, OF sample_commit_wf sample_signer_ok [of 3]]
  by (simp add: sample_message_def commit_item_ok_def item_ok_def remote_heads_ok_def)

lemma sample_message_size: "message_encoded_size sample_bijoux sample_message < 2 ^ 32"
  using payload_codec.signed_size_seal [OF loose_commit_payload_codec [OF sample_bijoux_laws] sample_commit_wf sample_signer_ok [of 3]]
  by (simp add: message_encoded_size_def sample_message_def ENVELOPE_HEADER_SIZE_def remote_heads_size_def signed_size_def
      loose_commit_payload_def disc_size_def loose_commit_fields_size_def LC_FIXED_FIELDS_SIZE_def sample_bijoux_def
      sample_commit_def)

definition sample_request :: "Fingerprint list \<Rightarrow> SyncMessage" where
  "sample_request fps = MsgBatchSyncRequest \<lparr>bq_id = SedimentreeId (replicate 32 7),
     bq_req_id = \<lparr>rq_requestor = PeerId (replicate 32 8), rq_nonce = 1\<rparr>,
     bq_fingerprint_summary = \<lparr>fp_seed = sample_seed, commit_fingerprints = fps, fragment_fingerprints = []\<rparr>,
     bq_subscribe = True\<rparr>"


section \<open>Properties\<close>

text \<open>C4: A sync message within the limits of the format (16 bit counts of items and fingerprints, 32 bit total
  size) decodes to itself, its announced size is its length, no proper prefix of it decodes, and a message
  with bytes after it is refused as a size mismatch.\<close>

theorem sync_message_roundtrip:
  assumes "bijoux_laws bj" and "message_ok ed bj m" and "message_encoded_size bj m < 2 ^ 32"
  shows "decode_message ed bj (encode_message bj m) = Inr m
    \<and> length (encode_message bj m) = message_encoded_size bj m
    \<and> (\<forall>k < length (encode_message bj m). \<not> is_ok (decode_message ed bj (take k (encode_message bj m))))
    \<and> (\<forall>ext. ext \<noteq> [] \<longrightarrow> decode_message ed bj (encode_message bj m @ ext)
         = Inl (SizeMismatch (length (encode_message bj m)) (length (encode_message bj m @ ext))))"
  using decode_encode_message [OF assms] encode_message_layout(2) [OF assms(1,2)] decode_prefix_fails [OF assms]
    decode_extension [OF assms] by blast

theorem sync_message_roundtrip_witness:
  "decode_message sample_ed25519 sample_bijoux (encode_message sample_bijoux sample_message) = Inr sample_message"
  using sync_message_roundtrip [OF sample_bijoux_laws sample_message_ok sample_message_size] by blast

text \<open>C38: Every message the decoder accepts is within the limits of the format: identifiers have 32 bytes, signed
  values have the layout of sealed ones, fingerprint sets are sorted without duplicates. Encoding it again
  gives at most as many bytes and decodes to the same message.\<close>

theorem sync_decode_normalises:
  assumes "bijoux_laws bj" and "decode_message ed bj bs = Inr m"
  shows "message_ok ed bj m \<and> length (encode_message bj m) \<le> length bs
    \<and> decode_message ed bj (encode_message bj m) = Inr m"
proof -
  have inv: "9 \<le> length bs" "length bs < 2 ^ 32" "decode_payload ed bj (bs ! 8) (drop 9 bs) = Inr m"
    using decode_message_inv [OF assms(2)] by auto
  then have "payload_ok ed bj (bs ! 8) m (length (drop 9 bs))"
    using decode_payload_ok [OF assms(1) inv(3)] by simp
  then have ok: "message_ok ed bj m" and "length (encode_payload bj m) \<le> length bs - 9"
    by (simp_all add: payload_ok_def)
  then have le: "message_encoded_size bj m \<le> length bs"
    using inv(1) length_payload [OF assms(1) ok] by (simp add: message_encoded_size_def ENVELOPE_HEADER_SIZE_def)
  then show ?thesis
    using ok inv(2) decode_encode_message [OF assms(1) ok] encode_message_layout(2) [OF assms(1) ok] by simp
qed

theorem sync_decode_normalises_witness:
  "decode_message sample_ed25519 sample_bijoux (encode_message sample_bijoux sample_message) = Inr sample_message
   \<and> message_ok sample_ed25519 sample_bijoux sample_message"
  using sync_decode_normalises [OF sample_bijoux_laws
      decode_encode_message [OF sample_bijoux_laws sample_message_ok sample_message_size]]
  by blast

text \<open>C39: The count of commit fingerprints in a request is a 16 bit number that wraps. A request with \<open>n\<close> commit
  fingerprints and no fragments decodes without an error to the request with the first \<open>n mod 65536\<close> of
  them; the others are dropped as trailing bytes.\<close>

theorem sync_request_count_wraps:
  assumes "bijoux_laws bj" and "request_ok (req\<lparr>bq_fingerprint_summary := s\<lparr>commit_fingerprints := []\<rparr>\<rparr>)"
    and "fragment_fingerprints s = []" and "sorted_wrt (<) (commit_fingerprints s)" and "length (commit_fingerprints s) < 2 ^ 28"
  shows "decode_message ed bj (encode_message bj (MsgBatchSyncRequest (req\<lparr>bq_fingerprint_summary := s\<rparr>)))
    = Inr (MsgBatchSyncRequest (req\<lparr>bq_fingerprint_summary :=
        s\<lparr>commit_fingerprints := take (length (commit_fingerprints s) mod 2 ^ 16) (commit_fingerprints s)\<rparr>\<rparr>))"
proof -
  let ?n = "length (commit_fingerprints s)" and ?fps = "commit_fingerprints s"
  let ?m = "MsgBatchSyncRequest (req\<lparr>bq_fingerprint_summary := s\<rparr>)"
  let ?s' = "s\<lparr>commit_fingerprints := take (?n mod 2 ^ 16) ?fps\<rparr>"
  let ?m' = "MsgBatchSyncRequest (req\<lparr>bq_fingerprint_summary := ?s'\<rparr>)"
  let ?rest = "concat (map encode_u64 (drop (?n mod 2 ^ 16) ?fps))"
  have ok: "message_ok ed bj ?m'"
    using assms(2,4) sorted_wrt_take [of "(<)" ?fps "?n mod 2 ^ 16"]
    by (auto simp: request_ok_def Let_def min_def)
  have "unat (word_of_nat (?n mod 2 ^ 16) :: u16) = unat (word_of_nat ?n :: u16)"
    by (simp add: unat_of_nat)
  then have count: "(word_of_nat (?n mod 2 ^ 16) :: u16) = word_of_nat ?n"
    by (rule unsigned_word_eqI)
  have len: "length (take (?n mod 2 ^ 16) ?fps) = ?n mod 2 ^ 16" by (simp add: min_def)
  have split: "encode_payload bj ?m = encode_payload bj ?m' @ ?rest"
    unfolding encode_payload.simps encode_batch_sync_request_def Let_def
    using assms(3) count len
    by (simp flip: map_append concat_append)
  have size: "length (encode_payload bj ?m) = payload_size bj ?m"
    using assms(2,3) by (simp add: request_ok_def encode_batch_sync_request_def Let_def)
  have "length (encode_payload bj ?m) + 9 < 2 ^ 32" and "93 \<le> length (encode_payload bj ?m)"
    unfolding size using assms(3,5) by simp_all
  from decode_envelope [OF this(1), of 4 93 "''BatchSyncRequest''"] this(2)
  have "decode_message ed bj (encode_message bj ?m) = decode_payload ed bj 4 (encode_payload bj ?m)"
    by (simp add: encode_message_def Let_def ENVELOPE_HEADER_SIZE_def size [symmetric] min_sizes_def del: payload_size.simps encode_payload.simps)
  also have "\<dots> = Inr ?m'"
    using reads_at_0 [OF reads_payload [OF assms(1) ok], of ?rest] \<open>length (encode_payload bj ?m) + 9 < 2 ^ 32\<close>
      decode_payload_tag [of ed bj ?m'] unfolding split by (simp del: encode_payload.simps)
  finally show ?thesis .
qed

theorem sync_request_count_wraps_witness:
  "decode_message sample_ed25519 sample_bijoux (encode_message sample_bijoux (sample_request (map word_of_nat [0..<65536])))
   = Inr (sample_request [])"
proof -
  let ?fps = "map word_of_nat [0..<65536] :: u64 list"
  define req where "req = \<lparr>bq_id = SedimentreeId (replicate 32 7),
     bq_req_id = \<lparr>rq_requestor = PeerId (replicate 32 8), rq_nonce = 1\<rparr>,
     bq_fingerprint_summary = \<lparr>fp_seed = sample_seed, commit_fingerprints = [], fragment_fingerprints = []\<rparr>,
     bq_subscribe = True\<rparr>"
  let ?s = "\<lparr>fp_seed = sample_seed, commit_fingerprints = ?fps, fragment_fingerprints = []\<rparr>"
  have len: "length ?fps = 65536" by (simp only: length_map length_upt)
  have "sorted_wrt (<) ?fps"
    unfolding sorted_wrt_map
    by (rule sorted_wrt_mono_rel [OF _ sorted_wrt_upt]) (auto simp: word_less_nat_alt unat_of_nat)
  moreover have "request_ok (req\<lparr>bq_fingerprint_summary := ?s\<lparr>commit_fingerprints := []\<rparr>\<rparr>)"
    by (simp add: req_def request_ok_def Let_def)
  ultimately have "decode_message sample_ed25519 sample_bijoux
      (encode_message sample_bijoux (MsgBatchSyncRequest (req\<lparr>bq_fingerprint_summary := ?s\<rparr>)))
      = Inr (MsgBatchSyncRequest (req\<lparr>bq_fingerprint_summary := ?s\<lparr>commit_fingerprints := take (length ?fps mod 2 ^ 16) ?fps\<rparr>\<rparr>))"
    using sync_request_count_wraps [OF sample_bijoux_laws, where req = req and s = ?s] len by simp
  then show ?thesis unfolding len by (simp add: req_def sample_request_def)
qed

end
