(* ===== verification/Sharded_Map.thy ===== *)
theory Sharded_Map
  imports Sync_Message_Props
begin

text \<open>
  The concurrent maps of \<^verbatim>\<open>subduction_core/src/collections\<close>: \<open>ShardedMap\<close>, and
  \<open>BoundedShardedMap\<close>, the cache with least recently used eviction around it. A shard is the
  contents of its mutex, and an operation is its critical section. The keyed hash of a key
  (SipHash of whatever its \<open>Hash\<close> instance feeds to the hasher) is a parameter. A closure
  that updates an entry and returns a result is a function to a pair.
\<close>

type_synonym 'k key_hash = "u64 \<Rightarrow> u64 \<Rightarrow> 'k \<Rightarrow> u64"

section \<open>The sharded map\<close>

record ('k, 'v) ShardedMap =
  shards :: "('k, 'v) omap list"
  sm_key0 :: u64
  sm_key1 :: u64

definition sharded_with_key :: "usize \<Rightarrow> u64 \<Rightarrow> u64 \<Rightarrow> ('k, 'v) ShardedMap" where
  "sharded_with_key N k0 k1 = \<lparr>shards = replicate N [], sm_key0 = k0, sm_key1 = k1\<rparr>"

text \<open>\<open>(u128::from(hash) * (N as u128)) >> 64\<close>\<close>

definition lemire :: "u64 \<Rightarrow> usize \<Rightarrow> usize" where
  "lemire hash N = (unat hash * N) div 2 ^ 64"

definition shard_index :: "'k key_hash \<Rightarrow> ('k, 'v) ShardedMap \<Rightarrow> 'k \<Rightarrow> usize" where
  "shard_index h m key = lemire (h (sm_key0 m) (sm_key1 m) key) (length (shards m))"

definition shard_at :: "('k, 'v) ShardedMap \<Rightarrow> usize \<Rightarrow> ('k, 'v) omap option" where
  "shard_at m i = get_at (shards m) i"

definition get_shard_containing :: "'k key_hash \<Rightarrow> ('k, 'v) ShardedMap \<Rightarrow> 'k \<Rightarrow> ('k, 'v) omap" where
  "get_shard_containing h m key = shards m ! shard_index h m key"

text \<open>What the guard of the shard of \<open>key\<close> leaves behind.\<close>

definition put_shard :: "'k key_hash \<Rightarrow> ('k, 'v) ShardedMap \<Rightarrow> 'k \<Rightarrow> ('k, 'v) omap \<Rightarrow> ('k, 'v) ShardedMap" where
  "put_shard h m key shard = m\<lparr>shards := (shards m)[shard_index h m key := shard]\<rparr>"

definition sharded_get_cloned :: "'k key_hash \<Rightarrow> ('k, 'v) ShardedMap \<Rightarrow> 'k \<Rightarrow> 'v option" where
  "sharded_get_cloned h m key = map_of (get_shard_containing h m key) key"

definition sharded_contains_key :: "'k key_hash \<Rightarrow> ('k, 'v) ShardedMap \<Rightarrow> 'k \<Rightarrow> bool" where
  "sharded_contains_key h m key \<longleftrightarrow> map_of (get_shard_containing h m key) key \<noteq> None"

definition sharded_insert :: "'k::linorder key_hash \<Rightarrow> ('k, 'v) ShardedMap \<Rightarrow> 'k \<Rightarrow> 'v \<Rightarrow> ('k, 'v) ShardedMap \<times> 'v option" where
  "sharded_insert h m key v =
     (let shard = get_shard_containing h m key
      in (put_shard h m key (om_insert key v shard), map_of shard key))"

definition sharded_remove :: "'k::linorder key_hash \<Rightarrow> ('k, 'v) ShardedMap \<Rightarrow> 'k \<Rightarrow> ('k, 'v) ShardedMap \<times> 'v option" where
  "sharded_remove h m key =
     (let shard = get_shard_containing h m key
      in (put_shard h m key (om_remove key shard), map_of shard key))"

definition sharded_with_entry_or_default ::
    "'k::linorder key_hash \<Rightarrow> 'v \<Rightarrow> ('k, 'v) ShardedMap \<Rightarrow> 'k \<Rightarrow> ('v \<Rightarrow> 'v \<times> 'r) \<Rightarrow> ('k, 'v) ShardedMap \<times> 'r" where
  "sharded_with_entry_or_default h dflt m key f =
     (let shard = get_shard_containing h m key;
          (v, r) = f (case map_of shard key of None \<Rightarrow> dflt | Some v \<Rightarrow> v)
      in (put_shard h m key (om_insert key v shard), r))"

definition sharded_with_entry ::
    "'k::linorder key_hash \<Rightarrow> ('k, 'v) ShardedMap \<Rightarrow> 'k \<Rightarrow> ('v \<Rightarrow> 'v \<times> 'r) \<Rightarrow> ('k, 'v) ShardedMap \<times> 'r option" where
  "sharded_with_entry h m key f =
     (let shard = get_shard_containing h m key in
      case map_of shard key of
        None \<Rightarrow> (m, None)
      | Some v \<Rightarrow> (let (v', r) = f v in (put_shard h m key (om_insert key v' shard), Some r)))"

definition sharded_merge_with ::
    "'k::linorder key_hash \<Rightarrow> ('k, 'v) ShardedMap \<Rightarrow> 'k \<Rightarrow> 'v \<Rightarrow> ('v \<Rightarrow> 'v \<Rightarrow> 'v) \<Rightarrow> ('k, 'v) ShardedMap" where
  "sharded_merge_with h m key v mrg =
     (let shard = get_shard_containing h m key in
      put_shard h m key (om_insert key (case map_of shard key of Some existing \<Rightarrow> mrg existing v | None \<Rightarrow> v) shard))"

definition sharded_keys :: "('k, 'v) ShardedMap \<Rightarrow> 'k list" where
  "sharded_keys m = concat (map om_keys (shards m))"

definition sharded_values :: "('k, 'v) ShardedMap \<Rightarrow> 'v list" where
  "sharded_values m = concat (map om_values (shards m))"

definition sharded_len :: "('k, 'v) ShardedMap \<Rightarrow> usize" where
  "sharded_len m = sum_list (map length (shards m))"

definition sharded_is_empty :: "('k, 'v) ShardedMap \<Rightarrow> bool" where
  "sharded_is_empty m \<longleftrightarrow> list_all (\<lambda>shard. shard = []) (shards m)"

definition sharded_clear :: "('k, 'v) ShardedMap \<Rightarrow> ('k, 'v) ShardedMap" where
  "sharded_clear m = m\<lparr>shards := map (\<lambda>_. []) (shards m)\<rparr>"


section \<open>The bounded map\<close>

type_synonym Tick = u64

record ('k, 'v) BoundedShardedMap =
  bm_inner :: "('k, 'v \<times> Tick) ShardedMap"
  bm_tick :: u64
  per_shard_capacity :: "usize option"

definition bounded_with_key :: "usize \<Rightarrow> u64 \<Rightarrow> u64 \<Rightarrow> ('k, 'v) BoundedShardedMap" where
  "bounded_with_key N k0 k1 =
     \<lparr>bm_inner = sharded_with_key N k0 k1, bm_tick = 0, per_shard_capacity = None\<rparr>"

definition div_ceil :: "nat \<Rightarrow> nat \<Rightarrow> nat" where
  "div_ceil a b = (a + b - 1) div b"

definition with_capacity :: "('k, 'v) BoundedShardedMap \<Rightarrow> usize \<Rightarrow> ('k, 'v) BoundedShardedMap" where
  "with_capacity m max_entries =
     m\<lparr>per_shard_capacity := Some (max (div_ceil max_entries (length (shards (bm_inner m)))) 1)\<rparr>"

definition next_tick :: "('k, 'v) BoundedShardedMap \<Rightarrow> ('k, 'v) BoundedShardedMap \<times> Tick" where
  "next_tick m =
     (if per_shard_capacity m = None then (m, 0) else (m\<lparr>bm_tick := bm_tick m + 1\<rparr>, bm_tick m))"

text \<open>\<open>min_by_key\<close> returns the first entry with the smallest tick.\<close>

fun min_by_tick :: "('k, 'v \<times> Tick) omap \<Rightarrow> ('k \<times> Tick) option" where
  "min_by_tick [] = None"
| "min_by_tick ((k, v, t) # es) =
     (case min_by_tick es of
        None \<Rightarrow> Some (k, t)
      | Some (k', t') \<Rightarrow> if t \<le> t' then Some (k, t) else Some (k', t'))"

definition evict_if_full_locked :: "usize option \<Rightarrow> ('k::linorder, 'v \<times> Tick) omap \<Rightarrow> 'k \<Rightarrow> ('k, 'v \<times> Tick) omap" where
  "evict_if_full_locked capacity shard incoming =
     (case capacity of
        None \<Rightarrow> shard
      | Some cap \<Rightarrow>
          if length shard < cap \<or> map_of shard incoming \<noteq> None then shard
          else case min_by_tick shard of None \<Rightarrow> shard | Some (victim, _) \<Rightarrow> om_remove victim shard)"

text \<open>An entry is stamped on access only when the map is bounded.\<close>

definition touched :: "('k, 'v) BoundedShardedMap \<Rightarrow> Tick \<Rightarrow> Tick \<Rightarrow> Tick" where
  "touched m tick old = (if per_shard_capacity m = None then old else tick)"

definition bounded_get_cloned :: "'k::linorder key_hash \<Rightarrow> ('k, 'v) BoundedShardedMap \<Rightarrow> 'k
    \<Rightarrow> ('k, 'v) BoundedShardedMap \<times> 'v option" where
  "bounded_get_cloned h m key =
     (let (m, tick) = next_tick m; shard = get_shard_containing h (bm_inner m) key in
      case map_of shard key of
        None \<Rightarrow> (m, None)
      | Some (v, t) \<Rightarrow>
          (m\<lparr>bm_inner := put_shard h (bm_inner m) key (om_insert key (v, touched m tick t) shard)\<rparr>, Some v))"

definition with_entry :: "'k::linorder key_hash \<Rightarrow> ('k, 'v) BoundedShardedMap \<Rightarrow> 'k \<Rightarrow> ('v \<Rightarrow> 'v \<times> 'r)
    \<Rightarrow> ('k, 'v) BoundedShardedMap \<times> 'r option" where
  "with_entry h m key f =
     (let (m, tick) = next_tick m; shard = get_shard_containing h (bm_inner m) key in
      case map_of shard key of
        None \<Rightarrow> (m, None)
      | Some (v, t) \<Rightarrow>
          (let (v', r) = f v in
           (m\<lparr>bm_inner := put_shard h (bm_inner m) key (om_insert key (v', touched m tick t) shard)\<rparr>, Some r)))"

definition with_entry_or_default :: "'k::linorder key_hash \<Rightarrow> 'v \<Rightarrow> ('k, 'v) BoundedShardedMap \<Rightarrow> 'k \<Rightarrow> ('v \<Rightarrow> 'v \<times> 'r)
    \<Rightarrow> ('k, 'v) BoundedShardedMap \<times> 'r" where
  "with_entry_or_default h dflt m key f =
     (let (m, tick) = next_tick m;
          shard = evict_if_full_locked (per_shard_capacity m) (get_shard_containing h (bm_inner m) key) key;
          (v, t) = (case map_of shard key of None \<Rightarrow> (dflt, tick) | Some e \<Rightarrow> e);
          (v', r) = f v
      in (m\<lparr>bm_inner := put_shard h (bm_inner m) key (om_insert key (v', touched m tick t) shard)\<rparr>, r))"

definition get_or_insert_with :: "'k::linorder key_hash \<Rightarrow> ('k, 'v) BoundedShardedMap \<Rightarrow> 'k \<Rightarrow> 'v
    \<Rightarrow> ('k, 'v) BoundedShardedMap \<times> 'v" where
  "get_or_insert_with h m key made =
     (let (m, tick) = next_tick m; shard = get_shard_containing h (bm_inner m) key in
      case map_of shard key of
        Some (v, t) \<Rightarrow>
          (m\<lparr>bm_inner := put_shard h (bm_inner m) key (om_insert key (v, touched m tick t) shard)\<rparr>, v)
      | None \<Rightarrow>
          (let shard = evict_if_full_locked (per_shard_capacity m) shard key in
           (m\<lparr>bm_inner := put_shard h (bm_inner m) key (om_insert key (made, tick) shard)\<rparr>, made)))"

text \<open>
  The hydrating operations have two critical sections, with the load between them while no lock is
  held. The first is the resident hit, which is that of \<open>with_entry\<close>; the second installs what was
  loaded, or adopts what another task installed in the meantime.
\<close>

definition install :: "'k::linorder key_hash \<Rightarrow> ('k, 'v) BoundedShardedMap \<Rightarrow> 'k \<Rightarrow> 'v \<Rightarrow> ('v \<Rightarrow> 'v \<times> 'r)
    \<Rightarrow> ('k, 'v) BoundedShardedMap \<times> 'r" where
  "install h m key loaded f =
     (let (m, tick) = next_tick m; shard = get_shard_containing h (bm_inner m) key in
      case map_of shard key of
        Some (v, t) \<Rightarrow>
          (let (v', r) = f v in
           (m\<lparr>bm_inner := put_shard h (bm_inner m) key (om_insert key (v', touched m tick t) shard)\<rparr>, r))
      | None \<Rightarrow>
          (let shard = evict_if_full_locked (per_shard_capacity m) shard key; (v', r) = f loaded in
           (m\<lparr>bm_inner := put_shard h (bm_inner m) key (om_insert key (v', tick) shard)\<rparr>, r)))"

text \<open>\<open>inspect\<close> borrows the value and leaves it as it is.\<close>

definition with_hydrated_ref :: "'k::linorder key_hash \<Rightarrow> ('k, 'v) BoundedShardedMap \<Rightarrow> 'k \<Rightarrow> 'e + 'v option \<Rightarrow> ('v \<Rightarrow> 'r)
    \<Rightarrow> ('k, 'v) BoundedShardedMap \<times> ('e + 'r option)" where
  "with_hydrated_ref h m key load inspect =
     (case with_entry h m key (\<lambda>v. (v, inspect v)) of
        (m, Some r) \<Rightarrow> (m, Inr (Some r))
      | (m, None) \<Rightarrow>
          (case load of
             Inl e \<Rightarrow> (m, Inl e)
           | Inr None \<Rightarrow> (m, Inr None)
           | Inr (Some loaded) \<Rightarrow>
               (case install h m key loaded (\<lambda>v. (v, inspect v)) of (m, r) \<Rightarrow> (m, Inr (Some r)))))"

definition with_entry_hydrated :: "'k::linorder key_hash \<Rightarrow> 'v \<Rightarrow> ('k, 'v) BoundedShardedMap \<Rightarrow> 'k \<Rightarrow> 'e + 'v option
    \<Rightarrow> ('v \<Rightarrow> 'v \<times> 'r) \<Rightarrow> ('k, 'v) BoundedShardedMap \<times> ('e + 'r)" where
  "with_entry_hydrated h dflt m key load mutate =
     (case with_entry h m key mutate of
        (m, Some r) \<Rightarrow> (m, Inr r)
      | (m, None) \<Rightarrow>
          (case load of
             Inl e \<Rightarrow> (m, Inl e)
           | Inr loaded \<Rightarrow>
               (case install h m key (case loaded of None \<Rightarrow> dflt | Some v \<Rightarrow> v) mutate of (m, r) \<Rightarrow> (m, Inr r))))"

definition bounded_remove :: "'k::linorder key_hash \<Rightarrow> ('k, 'v) BoundedShardedMap \<Rightarrow> 'k
    \<Rightarrow> ('k, 'v) BoundedShardedMap \<times> 'v option" where
  "bounded_remove h m key =
     (let (inner, old) = sharded_remove h (bm_inner m) key in (m\<lparr>bm_inner := inner\<rparr>, map_option fst old))"

definition bounded_keys :: "('k, 'v) BoundedShardedMap \<Rightarrow> 'k list" where
  "bounded_keys m = sharded_keys (bm_inner m)"

definition bounded_len :: "('k, 'v) BoundedShardedMap \<Rightarrow> usize" where
  "bounded_len m = sharded_len (bm_inner m)"

definition bounded_is_empty :: "('k, 'v) BoundedShardedMap \<Rightarrow> bool" where
  "bounded_is_empty m \<longleftrightarrow> sharded_is_empty (bm_inner m)"


section \<open>Shards\<close>

lemma lemire_less: "0 < N \<Longrightarrow> lemire hash N < N"
proof -
  assume "0 < N"
  moreover have "unat hash < 2 ^ 64" using unsigned_less [of hash] by simp
  ultimately have "unat hash * N < 2 ^ 64 * N" by simp
  then show ?thesis by (simp add: lemire_def div_less_iff_less_mult mult.commute)
qed

definition shards_inv :: "'k::linorder key_hash \<Rightarrow> ('k, 'v) ShardedMap \<Rightarrow> bool" where
  "shards_inv h m \<longleftrightarrow> shards m \<noteq> [] \<and>
     (\<forall>i < length (shards m). om_inv (shards m ! i) \<and> (\<forall>k \<in> set (om_keys (shards m ! i)). shard_index h m k = i))"

lemma shard_index_less: "shards m \<noteq> [] \<Longrightarrow> shard_index h m key < length (shards m)"
  by (simp add: shard_index_def lemire_less)

lemma put_shard_simps [simp]:
  "length (shards (put_shard h m key s)) = length (shards m)"
  "shard_index h (put_shard h m key s) k = shard_index h m k"
  "sm_key0 (put_shard h m key s) = sm_key0 m" "sm_key1 (put_shard h m key s) = sm_key1 m"
  by (simp_all add: put_shard_def shard_index_def)

lemma get_put_shard:
  assumes "shards m \<noteq> []"
  shows "get_shard_containing h (put_shard h m key s) k
    = (if shard_index h m k = shard_index h m key then s else get_shard_containing h m k)"
  using shard_index_less [OF assms, of h] by (simp add: get_shard_containing_def) (simp add: put_shard_def)

lemma shards_inv_get: "shards_inv h m \<Longrightarrow> om_inv (get_shard_containing h m key)"
  by (simp add: shards_inv_def get_shard_containing_def shard_index_less)

lemma shards_inv_put:
  assumes "shards_inv h m" and "om_inv s"
    and "set (om_keys s) \<subseteq> insert key (set (om_keys (get_shard_containing h m key)))"
  shows "shards_inv h (put_shard h m key s)"
  unfolding shards_inv_def
proof (intro conjI allI impI)
  show "shards (put_shard h m key s) \<noteq> []"
    using assms(1) by (auto simp: shards_inv_def put_shard_def)
  fix i assume i: "i < length (shards (put_shard h m key s))"
  have "om_inv (shards (put_shard h m key s) ! i)
      \<and> (\<forall>k \<in> set (om_keys (shards (put_shard h m key s) ! i)). shard_index h m k = i)"
  proof (cases "i = shard_index h m key")
    case True
    then have "shards (put_shard h m key s) ! i = s" using i by (simp add: put_shard_def)
    moreover have "shard_index h m k = i" if "k \<in> set (om_keys s)" for k
      using that assms True i by (auto simp: shards_inv_def get_shard_containing_def)
    ultimately show ?thesis using assms(2) by simp
  next
    case False
    then have "shards (put_shard h m key s) ! i = shards m ! i" by (simp add: put_shard_def)
    then show ?thesis using assms(1) i by (simp add: shards_inv_def)
  qed
  then show "om_inv (shards (put_shard h m key s) ! i)"
    and "\<forall>k \<in> set (om_keys (shards (put_shard h m key s) ! i)). shard_index h (put_shard h m key s) k = i"
    by simp_all
qed

lemma set_om_keys_insert [simp]: "set (om_keys (om_insert k v m)) = insert k (set (om_keys m))"
  by (simp add: om_keys_def)

lemma set_om_keys_remove [simp]: "set (om_keys (om_remove k m)) = set (om_keys m) - {k}"
  by (auto simp: om_keys_def om_remove_def image_iff)

lemma om_inv_remove [simp, intro]: "om_inv m \<Longrightarrow> om_inv (om_remove k m)"
  using om_inv_retain [of m "\<lambda>k' _. k' \<noteq> k"] by (simp add: om_retain_def om_remove_def)

declare map_of_om_remove [simp]

lemma length_om_insert:
  "om_inv m \<Longrightarrow> length (om_insert k v m) = (if map_of m k = None then Suc (length m) else length m)"
proof (induction m)
  case (Cons e m)
  obtain k' v' where e: "e = (k', v')" by (cases e)
  then have "om_inv m" and "\<forall>j \<in> fst ` set m. k' < j" using Cons.prems by (auto simp: om_inv_Cons)
  moreover from this(2) have "map_of m k = None" if "k < k'"
    using that by (auto simp: map_of_eq_None_iff)
  ultimately show ?case using Cons.IH e by auto
qed simp

lemma length_om_remove: "om_inv m \<Longrightarrow> map_of m k \<noteq> None \<Longrightarrow> Suc (length (om_remove k m)) = length m"
proof (induction m)
  case (Cons e m)
  obtain k' v' where e: "e = (k', v')" by (cases e)
  then have inv: "om_inv m" "k' \<notin> fst ` set m" using Cons.prems by (auto simp: om_inv_Cons)
  show ?case
  proof (cases "k = k'")
    case True
    then have "filter (\<lambda>(k', _). k' \<noteq> k) m = m" using inv(2) by (auto simp: filter_id_conv image_iff)
    then show ?thesis using e True by (simp add: om_remove_def)
  next
    case False
    then show ?thesis using Cons inv e by (auto simp: om_remove_def)
  qed
qed simp

end
