(* ===== verification/Lru_Cache.thy ===== *)
theory Lru_Cache
  imports Sharded_Map
begin

text \<open>
  The bounded map as a cache. Every operation is a sequence of atomic steps: the draw of a tick, and
  a critical section that hits, inserts after an eviction, or removes. A tick may be drawn long before
  the section that uses it. The capacity and the placement of keys are invariants of the steps, so they
  hold however tasks interleave. Within a shard the entries in
  the order of their ticks are a queue that evicts its front. For the clients of the cache the locale
  \<open>entry_cache\<close> says what an operation does to the entries.
\<close>

section \<open>Steps\<close>

inductive cache_step :: "'k::linorder key_hash \<Rightarrow> ('k, 'v) BoundedShardedMap \<Rightarrow> ('k, 'v) BoundedShardedMap \<Rightarrow> bool"
  for h where
  draw: "cache_step h m (fst (next_tick m))"
| hit: "map_of (get_shard_containing h (bm_inner m) key) key = Some (v, t) \<Longrightarrow>
    cache_step h m (m\<lparr>bm_inner := put_shard h (bm_inner m) key
      (om_insert key (v', t') (get_shard_containing h (bm_inner m) key))\<rparr>)"
| fresh: "map_of (get_shard_containing h (bm_inner m) key) key = None \<Longrightarrow>
    cache_step h m (m\<lparr>bm_inner := put_shard h (bm_inner m) key
      (om_insert key (v', t') (evict_if_full_locked (per_shard_capacity m) (get_shard_containing h (bm_inner m) key) key))\<rparr>)"
| drop: "cache_step h m (m\<lparr>bm_inner := put_shard h (bm_inner m) key (om_remove key (get_shard_containing h (bm_inner m) key))\<rparr>)"

definition capacity_ok :: "('k, 'v) BoundedShardedMap \<Rightarrow> bool" where
  "capacity_ok m \<longleftrightarrow> (\<forall>cap. per_shard_capacity m = Some cap \<longrightarrow>
     0 < cap \<and> (\<forall>i < length (shards (bm_inner m)). length (shards (bm_inner m) ! i) \<le> cap))"

definition bounded_inv :: "'k::linorder key_hash \<Rightarrow> ('k, 'v) BoundedShardedMap \<Rightarrow> bool" where
  "bounded_inv h m \<longleftrightarrow> shards_inv h (bm_inner m) \<and> capacity_ok m"

lemma next_tick_simps [simp]:
  "bm_inner (fst (next_tick m)) = bm_inner m"
  "per_shard_capacity (fst (next_tick m)) = per_shard_capacity m"
  by (simp_all add: next_tick_def)

lemma next_tick_eq: "next_tick m = (m1, tick) \<Longrightarrow> bm_inner m1 = bm_inner m \<and> per_shard_capacity m1 = per_shard_capacity m"
  using next_tick_simps [of m] by simp

lemma min_by_tick_None: "min_by_tick es = None \<longleftrightarrow> es = []"
  by (induction es rule: min_by_tick.induct) (auto split: option.splits)

lemma min_by_tick_Some:
  "min_by_tick es = Some (k, t) \<Longrightarrow> (\<exists>v. (k, v, t) \<in> set es) \<and> (\<forall>(k', v', t') \<in> set es. t \<le> t')"
proof (induction es arbitrary: k t rule: min_by_tick.induct)
  case (2 k0 v0 t0 es)
  show ?case
  proof (cases "min_by_tick es")
    case None
    then have "es = []" by (simp add: min_by_tick_None)
    then show ?thesis using "2.prems" by auto
  next
    case (Some p)
    obtain k1 t1 where p: "p = (k1, t1)" by (cases p)
    from "2.IH" [of k1 t1] Some p obtain v1 where 1: "(k1, v1, t1) \<in> set es" and le: "\<forall>(k', v', t') \<in> set es. t1 \<le> t'"
      by auto
    show ?thesis
    proof (cases "t0 \<le> t1")
      case True
      then have "k = k0" "t = t0" using "2.prems" Some p by auto
      moreover have "t0 \<le> t'" if "(k', v', t') \<in> set es" for k' v' t'
        using le that True by fastforce
      ultimately show ?thesis by auto
    next
      case False
      then have "k = k1" "t = t1" using "2.prems" Some p by auto
      then show ?thesis using False 1 le by auto
    qed
  qed
qed simp

lemma evict_om_inv: "om_inv s \<Longrightarrow> om_inv (evict_if_full_locked cap s key)"
  by (auto simp: evict_if_full_locked_def split: option.splits)

lemma evict_keys: "set (om_keys (evict_if_full_locked cap s key)) \<subseteq> set (om_keys s)"
  by (auto simp: evict_if_full_locked_def split: option.splits)

lemma evict_map_of: "om_inv s \<Longrightarrow> map_of (evict_if_full_locked cap s key) k \<in> {None, map_of s k}"
  by (auto simp: evict_if_full_locked_def split: option.splits)

lemma evict_incoming: "om_inv s \<Longrightarrow> map_of s key = None \<Longrightarrow> map_of (evict_if_full_locked cap s key) key = None"
  using evict_map_of [of s cap key key] by auto

lemma evict_length:
  assumes "om_inv s" and "length s \<le> cap" and "0 < cap" and "map_of s key = None"
  shows "length (evict_if_full_locked (Some cap) s key) < cap"
proof (cases "length s < cap")
  case False
  then have "s \<noteq> []" using assms(3) by auto
  then obtain k t where k: "min_by_tick s = Some (k, t)"
    by (cases "min_by_tick s") (auto simp: min_by_tick_None)
  obtain v where "(k, v, t) \<in> set s" using min_by_tick_Some [OF k] by blast
  then have "k \<in> fst ` set s" by force
  then have "map_of s k \<noteq> None" by (simp add: map_of_eq_None_iff)
  then show ?thesis
    using length_om_remove [OF assms(1), of k] False assms(2,4) k by (simp add: evict_if_full_locked_def)
qed (simp add: evict_if_full_locked_def)

lemma capacity_put:
  assumes "capacity_ok m" and "\<forall>cap. per_shard_capacity m = Some cap \<longrightarrow> length s \<le> cap"
  shows "capacity_ok (m\<lparr>bm_inner := put_shard h (bm_inner m) key s\<rparr>)"
proof -
  have "length (shards (put_shard h (bm_inner m) key s) ! i) \<le> cap"
    if "per_shard_capacity m = Some cap" "i < length (shards (bm_inner m))" for cap i
    using assms that by (cases "i = shard_index h (bm_inner m) key") (auto simp: capacity_ok_def put_shard_def)
  then show ?thesis using assms(1) by (simp add: capacity_ok_def)
qed

lemma shard_le_cap:
  assumes "bounded_inv h m" and "per_shard_capacity m = Some cap"
  shows "length (get_shard_containing h (bm_inner m) key) \<le> cap" and "0 < cap"
  using assms shard_index_less [of "bm_inner m" h key]
  by (auto simp: bounded_inv_def capacity_ok_def shards_inv_def get_shard_containing_def)

lemma bounded_put:
  assumes inv: "bounded_inv h m" and "om_inv s"
    and "set (om_keys s) \<subseteq> insert key (set (om_keys (get_shard_containing h (bm_inner m) key)))"
    and "\<forall>cap. per_shard_capacity m = Some cap \<longrightarrow> length s \<le> cap"
  shows "bounded_inv h (m\<lparr>bm_inner := put_shard h (bm_inner m) key s\<rparr>)"
  using assms shards_inv_put [of h "bm_inner m" s key] capacity_put [of m s h key] by (simp add: bounded_inv_def)

lemma next_tick_inv: "next_tick m = (m1, tick) \<Longrightarrow> bounded_inv h m1 = bounded_inv h m"
  using next_tick_eq [of m m1 tick] by (simp add: bounded_inv_def capacity_ok_def)

lemma cache_step_inv:
  assumes "cache_step h m m'" and "bounded_inv h m"
  shows "bounded_inv h m'"
  using assms
proof cases
  case draw
  then show ?thesis using assms(2) next_tick_inv [of m "fst (next_tick m)" "snd (next_tick m)" h] by simp
next
  case (hit key v t v' t')
  let ?s = "get_shard_containing h (bm_inner m) key"
  have s: "om_inv ?s" using assms(2) by (simp add: bounded_inv_def shards_inv_get)
  show ?thesis unfolding hit(1)
    using assms(2) s hit(2) shard_le_cap(1) [OF assms(2), of _ key]
    by (intro bounded_put) (auto simp: length_om_insert)
next
  case (fresh key v' t')
  let ?s = "get_shard_containing h (bm_inner m) key"
  let ?s' = "evict_if_full_locked (per_shard_capacity m) ?s key"
  note inv = assms(2)
  then have s: "om_inv ?s" by (simp add: bounded_inv_def shards_inv_get)
  have "length (om_insert key (v', t') ?s') \<le> cap" if "per_shard_capacity m = Some cap" for cap
    using evict_length [OF s _ _ fresh(2), of cap] shard_le_cap(1) [OF inv that, of key] shard_le_cap(2) [OF inv that] evict_om_inv [OF s, of "Some cap" key]
      evict_incoming [OF s fresh(2)] that
    by (simp add: length_om_insert)
  then show ?thesis unfolding fresh(1)
    using inv s evict_keys [of "per_shard_capacity m" ?s key] evict_om_inv [OF s]
    by (intro bounded_put) auto
next
  case (drop key)
  let ?s = "get_shard_containing h (bm_inner m) key"
  have s: "om_inv ?s" using assms(2) by (simp add: bounded_inv_def shards_inv_get)
  have "length (om_remove key ?s) \<le> length ?s" by (simp add: om_remove_def)
  then show ?thesis unfolding drop
    using assms(2) s shard_le_cap(1) [OF assms(2), of _ key]
    by (intro bounded_put) (auto intro: order_trans)
qed


section \<open>Operations are steps\<close>

abbreviation cache_steps :: "'k::linorder key_hash \<Rightarrow> ('k, 'v) BoundedShardedMap \<Rightarrow> ('k, 'v) BoundedShardedMap \<Rightarrow> bool" where
  "cache_steps h \<equiv> (cache_step h)\<^sup>*\<^sup>*"

lemma cache_steps_inv: "cache_steps h m m' \<Longrightarrow> bounded_inv h m \<Longrightarrow> bounded_inv h m'"
  by (induction rule: rtranclp_induct) (auto intro: cache_step_inv)

lemma evict_resident: "map_of s key \<noteq> None \<Longrightarrow> evict_if_full_locked cap s key = s"
  by (simp add: evict_if_full_locked_def split: option.splits)

lemma evict_absent: "map_of s key = None \<Longrightarrow> map_of (evict_if_full_locked cap s key) key = None"
  by (auto simp: evict_if_full_locked_def map_of_eq_None_iff om_remove_def split: option.splits)

lemma touched_fresh: "next_tick m = (m1, tick) \<Longrightarrow> touched m1 tick tick = tick"
  by (simp add: touched_def)

lemma steps_miss: "next_tick m = (m1, tick) \<Longrightarrow> cache_steps h m m1"
  using draw [of h m] by (simp add: r_into_rtranclp)

lemma steps_hit: "next_tick m = (m1, tick) \<Longrightarrow> map_of (get_shard_containing h (bm_inner m1) key) key = Some (v, t) \<Longrightarrow>
    cache_steps h m (m1\<lparr>bm_inner := put_shard h (bm_inner m1) key (om_insert key (v', t') (get_shard_containing h (bm_inner m1) key))\<rparr>)"
  by (rule rtranclp.rtrancl_into_rtrancl, erule steps_miss, rule hit)

lemma steps_fresh: "next_tick m = (m1, tick) \<Longrightarrow> map_of (get_shard_containing h (bm_inner m1) key) key = None \<Longrightarrow>
    cache_steps h m (m1\<lparr>bm_inner := put_shard h (bm_inner m1) key
      (om_insert key (v', t') (evict_if_full_locked (per_shard_capacity m1) (get_shard_containing h (bm_inner m1) key) key))\<rparr>)"
  by (rule rtranclp.rtrancl_into_rtrancl, erule steps_miss, rule fresh)

lemma steps_with_entry: "cache_steps h m (fst (with_entry h m key f))"
  by (cases "next_tick m") (auto simp: with_entry_def Let_def split: option.splits prod.splits intro: steps_miss steps_hit)

lemma steps_get_cloned: "cache_steps h m (fst (bounded_get_cloned h m key))"
  by (cases "next_tick m") (auto simp: bounded_get_cloned_def Let_def split: option.splits prod.splits intro: steps_miss steps_hit)

lemma steps_get_or_insert: "cache_steps h m (fst (get_or_insert_with h m key made))"
  by (cases "next_tick m") (auto simp: get_or_insert_with_def Let_def split: option.splits prod.splits intro: steps_hit steps_fresh)

lemma steps_install: "cache_steps h m (fst (install h m key loaded f))"
  by (cases "next_tick m") (auto simp: install_def Let_def split: option.splits prod.splits intro: steps_hit steps_fresh)

lemma steps_remove: "cache_steps h m (fst (bounded_remove h m key))"
  using drop [of h m key] by (simp add: bounded_remove_def sharded_remove_def Let_def r_into_rtranclp)

lemma default_install: "with_entry_or_default h dflt m key f = install h m key dflt f"
proof -
  obtain m1 tick where t: "next_tick m = (m1, tick)" by (cases "next_tick m")
  show ?thesis
    by (cases "map_of (get_shard_containing h (bm_inner m1) key) key")
      (simp_all add: with_entry_or_default_def install_def t evict_absent evict_resident touched_fresh [OF t] split: prod.splits)
qed

lemma steps_then_install: "cache_steps h m m1 \<Longrightarrow> install h m1 key loaded f = (m2, r) \<Longrightarrow> cache_steps h m m2"
  using steps_install [of h m1 key loaded f] by (simp add: rtranclp_trans)

lemma steps_hydrated_ref: "cache_steps h m (fst (with_hydrated_ref h m key load inspect))"
proof -
  obtain m1 r where w: "with_entry h m key (\<lambda>v. (v, inspect v)) = (m1, r)" by (cases "with_entry h m key (\<lambda>v. (v, inspect v))")
  then have "cache_steps h m m1" using steps_with_entry [of h m key "\<lambda>v. (v, inspect v)"] by simp
  then show ?thesis
    by (auto simp: with_hydrated_ref_def w split: option.splits sum.splits prod.splits intro: steps_then_install)
qed

lemma steps_entry_hydrated: "cache_steps h m (fst (with_entry_hydrated h dflt m key load mutate))"
proof -
  obtain m1 r where w: "with_entry h m key mutate = (m1, r)" by (cases "with_entry h m key mutate")
  then have "cache_steps h m m1" using steps_with_entry [of h m key mutate] by simp
  then show ?thesis
    by (auto simp: with_entry_hydrated_def w split: option.splits sum.splits prod.splits intro: steps_then_install)
qed


section \<open>The entries\<close>

definition look :: "'k::linorder key_hash \<Rightarrow> ('k, 'v) BoundedShardedMap \<Rightarrow> 'k \<Rightarrow> 'v option" where
  "look h m k = map_option fst (map_of (get_shard_containing h (bm_inner m) k) k)"

lemma look_put:
  assumes "bounded_inv h m"
  shows "look h (m\<lparr>bm_inner := put_shard h (bm_inner m) key s\<rparr>) k
    = (if shard_index h (bm_inner m) k = shard_index h (bm_inner m) key then map_option fst (map_of s k) else look h m k)"
  using assms get_put_shard [of "bm_inner m" h key s k] by (simp add: look_def bounded_inv_def shards_inv_def)

lemma same_shard: "shard_index h m k = shard_index h m key \<Longrightarrow> get_shard_containing h m k = get_shard_containing h m key"
  by (simp add: get_shard_containing_def)

lemma look_tick: "next_tick m = (m1, tick) \<Longrightarrow> look h m1 = look h m"
  using next_tick_eq [of m m1 tick] by (simp add: look_def fun_eq_iff)

lemma look_hit:
  assumes "bounded_inv h m"
  shows "look h (m\<lparr>bm_inner := put_shard h (bm_inner m) key (om_insert key (v', t) (get_shard_containing h (bm_inner m) key))\<rparr>)
    = (look h m)(key \<mapsto> v')"
proof
  fix k
  have "om_inv (get_shard_containing h (bm_inner m) key)"
    using assms by (simp add: bounded_inv_def shards_inv_get)
  then show "look h (m\<lparr>bm_inner := put_shard h (bm_inner m) key (om_insert key (v', t) (get_shard_containing h (bm_inner m) key))\<rparr>) k
      = ((look h m)(key \<mapsto> v')) k"
    using same_shard [of h "bm_inner m" k key] by (auto simp: look_put [OF assms]) (simp add: look_def)
qed

lemma look_fresh:
  assumes "bounded_inv h m"
    and m'_def: "m' = m\<lparr>bm_inner := put_shard h (bm_inner m) key
      (om_insert key (v', t) (evict_if_full_locked cap (get_shard_containing h (bm_inner m) key) key))\<rparr>"
  shows "look h m' key = Some v'" and "k \<noteq> key \<Longrightarrow> look h m' k \<in> {None, look h m k}"
proof -
  let ?s = "get_shard_containing h (bm_inner m) key"
  have s: "om_inv ?s" using assms(1) by (simp add: bounded_inv_def shards_inv_get)
  show "look h m' key = Some v'"
    by (simp add: m'_def look_put [OF assms(1)] evict_om_inv [OF s])
  show "look h m' k \<in> {None, look h m k}" if "k \<noteq> key"
    using that same_shard [of h "bm_inner m" k key] evict_map_of [OF s, of cap key k]
    by (auto simp: m'_def look_put [OF assms(1)] evict_om_inv [OF s]) (simp_all add: look_def)
qed

lemma look_remove:
  assumes "bounded_inv h m"
  shows "look h (fst (bounded_remove h m key)) = (look h m)(key := None)"
proof
  fix k
  have s: "om_inv (get_shard_containing h (bm_inner m) key)" using assms by (simp add: bounded_inv_def shards_inv_get)
  show "look h (fst (bounded_remove h m key)) k = ((look h m)(key := None)) k"
    using same_shard [of h "bm_inner m" k key] s
    by (auto simp: bounded_remove_def sharded_remove_def Let_def look_put [OF assms]) (simp add: look_def)
qed

text \<open>
  The interface of the cache: what an operation returns and what it does to the entries. An operation
  on one key may evict others, and changes no other value.
\<close>

definition may_evict :: "('k \<Rightarrow> 'v option) \<Rightarrow> 'k \<Rightarrow> ('k \<Rightarrow> 'v option) \<Rightarrow> bool" where
  "may_evict l key l' \<longleftrightarrow> (\<forall>k. k \<noteq> key \<longrightarrow> l' k \<in> {None, l k})"

locale entry_cache =
  fixes inv :: "'m \<Rightarrow> bool" and lk :: "'m \<Rightarrow> 'k \<Rightarrow> 'v option" and dflt :: 'v
    and we :: "'m \<Rightarrow> 'k \<Rightarrow> ('v \<Rightarrow> 'v \<times> 'r) \<Rightarrow> 'm \<times> 'r option"
    and goi :: "'m \<Rightarrow> 'k \<Rightarrow> 'v \<Rightarrow> 'm \<times> 'v"
    and hyd_ref :: "'m \<Rightarrow> 'k \<Rightarrow> 'e + 'v option \<Rightarrow> ('v \<Rightarrow> 'q) \<Rightarrow> 'm \<times> ('e + 'q option)"
    and hyd :: "'m \<Rightarrow> 'k \<Rightarrow> 'f + 'v option \<Rightarrow> ('v \<Rightarrow> 'v \<times> 'p) \<Rightarrow> 'm \<times> ('f + 'p)"
    and rm :: "'m \<Rightarrow> 'k \<Rightarrow> 'm \<times> 'v option"
  assumes we_inv: "inv m \<Longrightarrow> inv (fst (we m key f))"
    and goi_inv: "inv m \<Longrightarrow> inv (fst (goi m key v))"
    and ref_inv: "inv m \<Longrightarrow> inv (fst (hyd_ref m key ld g))"
    and hyd_inv: "inv m \<Longrightarrow> inv (fst (hyd m key ld' f'))"
    and rm_inv: "inv m \<Longrightarrow> inv (fst (rm m key))"
    and we_none: "inv m \<Longrightarrow> lk m key = None \<Longrightarrow> snd (we m key f) = None \<and> lk (fst (we m key f)) = lk m"
    and we_some: "inv m \<Longrightarrow> lk m key = Some v \<Longrightarrow>
      snd (we m key f) = Some (snd (f v)) \<and> lk (fst (we m key f)) = (lk m)(key \<mapsto> fst (f v))"
    and goi_some: "inv m \<Longrightarrow> lk m key = Some v \<Longrightarrow> snd (goi m key u) = v \<and> lk (fst (goi m key u)) = lk m"
    and goi_none: "inv m \<Longrightarrow> lk m key = None \<Longrightarrow>
      snd (goi m key u) = u \<and> lk (fst (goi m key u)) key = Some u \<and> may_evict (lk m) key (lk (fst (goi m key u)))"
    and ref_some: "inv m \<Longrightarrow> lk m key = Some v \<Longrightarrow>
      snd (hyd_ref m key ld g) = Inr (Some (g v)) \<and> lk (fst (hyd_ref m key ld g)) = lk m"
    and ref_absent: "inv m \<Longrightarrow> lk m key = None \<Longrightarrow> ld = Inl e \<or> ld = Inr None \<Longrightarrow>
      snd (hyd_ref m key ld g) = (case ld of Inl e \<Rightarrow> Inl e | Inr _ \<Rightarrow> Inr None) \<and> lk (fst (hyd_ref m key ld g)) = lk m"
    and ref_load: "inv m \<Longrightarrow> lk m key = None \<Longrightarrow>
      snd (hyd_ref m key (Inr (Some v)) g) = Inr (Some (g v)) \<and> lk (fst (hyd_ref m key (Inr (Some v)) g)) key = Some v
      \<and> may_evict (lk m) key (lk (fst (hyd_ref m key (Inr (Some v)) g)))"
    and hyd_some: "inv m \<Longrightarrow> lk m key = Some v \<Longrightarrow>
      snd (hyd m key ld' f') = Inr (snd (f' v)) \<and> lk (fst (hyd m key ld' f')) = (lk m)(key \<mapsto> fst (f' v))"
    and hyd_err: "inv m \<Longrightarrow> lk m key = None \<Longrightarrow>
      snd (hyd m key (Inl e') f') = Inl e' \<and> lk (fst (hyd m key (Inl e') f')) = lk m"
    and hyd_load: "inv m \<Longrightarrow> lk m key = None \<Longrightarrow> v = (case l of None \<Rightarrow> dflt | Some w \<Rightarrow> w) \<Longrightarrow>
      snd (hyd m key (Inr l) f') = Inr (snd (f' v)) \<and> lk (fst (hyd m key (Inr l) f')) key = Some (fst (f' v))
      \<and> may_evict (lk m) key (lk (fst (hyd m key (Inr l) f')))"
    and rm_lk: "inv m \<Longrightarrow> lk (fst (rm m key)) = (lk m)(key := None)"
begin

text \<open>A property of the entries that the closures keep is kept by the cache.\<close>

definition entries :: "('k \<Rightarrow> 'v \<Rightarrow> bool) \<Rightarrow> 'm \<Rightarrow> bool" where
  "entries P m \<longleftrightarrow> (\<forall>k v. lk m k = Some v \<longrightarrow> P k v)"

lemma entriesD: "entries P m \<Longrightarrow> lk m k = Some v \<Longrightarrow> P k v"
  by (simp add: entries_def)

lemma entries_evict:
  assumes "entries P m" and "may_evict (lk m) key (lk m')" and "\<And>v. lk m' key = Some v \<Longrightarrow> P key v"
  shows "entries P m'"
  unfolding entries_def
proof (intro allI impI)
  fix k v
  assume "lk m' k = Some v"
  moreover have "k = key \<or> lk m' k \<in> {None, lk m k}" using assms(2) by (auto simp: may_evict_def)
  ultimately show "P k v" using assms(1,3) by (auto simp: entries_def)
qed

lemma entries_we:
  assumes "inv m" and "entries P m" and "\<And>v. P key v \<Longrightarrow> P key (fst (f v))"
  shows "entries P (fst (we m key f))"
proof (cases "lk m key")
  case None
  then show ?thesis using we_none [OF assms(1) None] assms(2) by (simp add: entries_def)
next
  case (Some v)
  then have "P key (fst (f v))" using assms(2,3) by (simp add: entries_def)
  then show ?thesis using we_some [OF assms(1) Some] assms(2) by (simp add: entries_def)
qed

lemma entries_goi:
  assumes "inv m" and "entries P m" and "lk m key = None \<Longrightarrow> P key u"
  shows "entries P (fst (goi m key u))"
proof (cases "lk m key")
  case None
  then show ?thesis using goi_none [OF assms(1) None] assms(3) by (intro entries_evict [OF assms(2)]) auto
next
  case (Some v)
  then show ?thesis using goi_some [OF assms(1) Some] assms(2) by (simp add: entries_def)
qed

lemma entries_ref:
  assumes "inv m" and "entries P m" and "\<And>v. ld = Inr (Some v) \<Longrightarrow> P key v"
  shows "entries P (fst (hyd_ref m key ld g))"
proof (cases "lk m key")
  case None
  consider (a) e where "ld = Inl e \<or> ld = Inr None" | (b) v where "ld = Inr (Some v)"
    by (cases ld) (auto intro: option.exhaust)
  then show ?thesis
  proof cases
    case a
    then show ?thesis using ref_absent [OF assms(1) None a] assms(2) by (simp add: entries_def)
  next
    case b
    then show ?thesis using ref_load [OF assms(1) None, of v g] assms(3) by (intro entries_evict [OF assms(2)]) auto
  qed
next
  case (Some v)
  then show ?thesis using ref_some [OF assms(1) Some] assms(2) by (simp add: entries_def)
qed

lemma entries_hyd:
  assumes "inv m" and "entries P m" and "\<And>v. P key v \<Longrightarrow> P key (fst (f' v))"
    and "\<And>l. lk m key = None \<Longrightarrow> ld' = Inr l \<Longrightarrow> P key (fst (f' (case l of None \<Rightarrow> dflt | Some w \<Rightarrow> w)))"
  shows "entries P (fst (hyd m key ld' f'))"
proof (cases "lk m key")
  case None
  show ?thesis
  proof (cases ld')
    case (Inl e)
    then show ?thesis using hyd_err [OF assms(1) None, of e f'] assms(2) by (simp add: entries_def)
  next
    case (Inr l)
    then show ?thesis
      using hyd_load [OF assms(1) None refl, of l f'] assms(4) [OF None Inr] by (intro entries_evict [OF assms(2)]) auto
  qed
next
  case (Some v)
  then have "P key (fst (f' v))" using assms(2,3) by (simp add: entries_def)
  then show ?thesis using hyd_some [OF assms(1) Some] assms(2) by (simp add: entries_def)
qed

lemma entries_rm: "inv m \<Longrightarrow> entries P m \<Longrightarrow> entries P (fst (rm m key))"
  by (simp add: entries_def rm_lk)

end


lemma look_inv_tick: "bounded_inv h m \<Longrightarrow> next_tick m = (m1, tick) \<Longrightarrow>
    bounded_inv h m1 \<and> look h m1 = look h m \<and> bm_inner m1 = bm_inner m"
  by (simp add: next_tick_inv look_tick next_tick_eq)

lemma look_Some: "look h m key = Some v \<longleftrightarrow> (\<exists>t. map_of (get_shard_containing h (bm_inner m) key) key = Some (v, t))"
  by (auto simp: look_def)

lemma look_None: "look h m key = None \<longleftrightarrow> map_of (get_shard_containing h (bm_inner m) key) key = None"
  by (simp add: look_def)

lemma with_entry_none:
  assumes "bounded_inv h m" and "look h m key = None"
  shows "snd (with_entry h m key f) = None \<and> look h (fst (with_entry h m key f)) = look h m"
proof -
  obtain m1 tick where t: "next_tick m = (m1, tick)" by (cases "next_tick m")
  then show ?thesis using look_inv_tick [OF assms(1) t] assms(2) by (simp add: with_entry_def look_None)
qed

lemma with_entry_some:
  assumes "bounded_inv h m" and "look h m key = Some v"
  shows "snd (with_entry h m key f) = Some (snd (f v)) \<and> look h (fst (with_entry h m key f)) = (look h m)(key \<mapsto> fst (f v))"
proof -
  obtain m1 tick where t: "next_tick m = (m1, tick)" by (cases "next_tick m")
  note m1 = look_inv_tick [OF assms(1) t]
  from assms(2) obtain tt where "map_of (get_shard_containing h (bm_inner m) key) key = Some (v, tt)" by (auto simp: look_Some)
  then show ?thesis
    using t m1 look_hit [of h m1 key "fst (f v)" "touched m1 tick tt"] by (simp add: with_entry_def case_prod_unfold Let_def)
qed

lemma get_or_insert_some:
  assumes "bounded_inv h m" and "look h m key = Some v"
  shows "snd (get_or_insert_with h m key u) = v \<and> look h (fst (get_or_insert_with h m key u)) = look h m"
proof -
  obtain m1 tick where t: "next_tick m = (m1, tick)" by (cases "next_tick m")
  note m1 = look_inv_tick [OF assms(1) t]
  from assms(2) obtain tt where "map_of (get_shard_containing h (bm_inner m) key) key = Some (v, tt)" by (auto simp: look_Some)
  then show ?thesis
    using t m1 look_hit [of h m1 key v "touched m1 tick tt"] assms(2) by (simp add: get_or_insert_with_def fun_upd_idem)
qed

lemma install_some:
  assumes "bounded_inv h m" and "look h m key = Some v"
  shows "snd (install h m key loaded f) = snd (f v) \<and> look h (fst (install h m key loaded f)) = (look h m)(key \<mapsto> fst (f v))"
proof -
  obtain m1 tick where t: "next_tick m = (m1, tick)" by (cases "next_tick m")
  note m1 = look_inv_tick [OF assms(1) t]
  from assms(2) obtain tt where "map_of (get_shard_containing h (bm_inner m) key) key = Some (v, tt)" by (auto simp: look_Some)
  then show ?thesis
    using t m1 look_hit [of h m1 key "fst (f v)" "touched m1 tick tt"] by (simp add: install_def case_prod_unfold Let_def)
qed

lemma install_none:
  assumes "bounded_inv h m" and "look h m key = None"
  shows "snd (install h m key loaded f) = snd (f loaded) \<and> look h (fst (install h m key loaded f)) key = Some (fst (f loaded))
    \<and> may_evict (look h m) key (look h (fst (install h m key loaded f)))"
proof -
  obtain m1 tick where t: "next_tick m = (m1, tick)" by (cases "next_tick m")
  note m1 = look_inv_tick [OF assms(1) t]
  have "fst (install h m key loaded f) = m1\<lparr>bm_inner := put_shard h (bm_inner m1) key
      (om_insert key (fst (f loaded), tick) (evict_if_full_locked (per_shard_capacity m1) (get_shard_containing h (bm_inner m1) key) key))\<rparr>"
    and r: "snd (install h m key loaded f) = snd (f loaded)"
    using t m1 assms(2) by (simp_all add: install_def look_None split: prod.splits)
  note f = look_fresh [OF conjunct1 [OF m1] this(1)]
  show ?thesis using r f(1) f(2) m1 by (simp add: may_evict_def)
qed

lemma get_or_insert_install: "get_or_insert_with h m key u = install h m key u (\<lambda>v. (v, v))"
  by (simp add: get_or_insert_with_def install_def Let_def split: prod.splits option.splits)

lemma inv_ops:
  assumes "bounded_inv h m"
  shows "bounded_inv h (fst (with_entry h m key f))" "bounded_inv h (fst (get_or_insert_with h m key u))"
    "bounded_inv h (fst (with_hydrated_ref h m key ld g))" "bounded_inv h (fst (with_entry_hydrated h dflt m key ld' f'))"
    "bounded_inv h (fst (bounded_remove h m key))"
  by (rule cache_steps_inv [OF _ assms];
      rule steps_with_entry steps_get_or_insert steps_hydrated_ref steps_entry_hydrated steps_remove)+

lemma hydrated_ref_some:
  assumes "bounded_inv h m" and "look h m key = Some v"
  shows "snd (with_hydrated_ref h m key ld g) = Inr (Some (g v)) \<and> look h (fst (with_hydrated_ref h m key ld g)) = look h m"
  using with_entry_some [OF assms, of "\<lambda>v. (v, g v)"] assms(2)
  by (cases "with_entry h m key (\<lambda>v. (v, g v))") (simp add: with_hydrated_ref_def fun_upd_idem)

lemma hydrated_ref_none:
  assumes "bounded_inv h m" and "look h m key = None"
  shows "ld = Inl e \<or> ld = Inr None \<Longrightarrow>
      snd (with_hydrated_ref h m key ld g) = (case ld of Inl e \<Rightarrow> Inl e | Inr _ \<Rightarrow> Inr None)
      \<and> look h (fst (with_hydrated_ref h m key ld g)) = look h m"
    and "snd (with_hydrated_ref h m key (Inr (Some v)) g) = Inr (Some (g v))
      \<and> look h (fst (with_hydrated_ref h m key (Inr (Some v)) g)) key = Some v
      \<and> may_evict (look h m) key (look h (fst (with_hydrated_ref h m key (Inr (Some v)) g)))"
proof -
  obtain m1 r where w: "with_entry h m key (\<lambda>v. (v, g v)) = (m1, r)" by (cases "with_entry h m key (\<lambda>v. (v, g v))")
  have r: "r = None" and l: "look h m1 = look h m" and i: "bounded_inv h m1"
    using with_entry_none [OF assms, of "\<lambda>v. (v, g v)"] inv_ops(1) [OF assms(1), of key "\<lambda>v. (v, g v)"] w by simp_all
  show "ld = Inl e \<or> ld = Inr None \<Longrightarrow>
      snd (with_hydrated_ref h m key ld g) = (case ld of Inl e \<Rightarrow> Inl e | Inr _ \<Rightarrow> Inr None)
      \<and> look h (fst (with_hydrated_ref h m key ld g)) = look h m"
    using w r l by (auto simp: with_hydrated_ref_def)
  show "snd (with_hydrated_ref h m key (Inr (Some v)) g) = Inr (Some (g v))
      \<and> look h (fst (with_hydrated_ref h m key (Inr (Some v)) g)) key = Some v
      \<and> may_evict (look h m) key (look h (fst (with_hydrated_ref h m key (Inr (Some v)) g)))"
    using install_none [OF i, of key v "\<lambda>v. (v, g v)"] l assms(2) w r
    by (cases "install h m1 key v (\<lambda>v. (v, g v))") (simp add: with_hydrated_ref_def)
qed

lemma entry_hydrated_some:
  assumes "bounded_inv h m" and "look h m key = Some v"
  shows "snd (with_entry_hydrated h dflt m key ld f) = Inr (snd (f v))
    \<and> look h (fst (with_entry_hydrated h dflt m key ld f)) = (look h m)(key \<mapsto> fst (f v))"
  using with_entry_some [OF assms, of f] by (cases "with_entry h m key f") (simp add: with_entry_hydrated_def)

lemma entry_hydrated_none:
  assumes "bounded_inv h m" and "look h m key = None"
  shows "snd (with_entry_hydrated h dflt m key (Inl e) f) = Inl e
      \<and> look h (fst (with_entry_hydrated h dflt m key (Inl e) f)) = look h m"
    and "v = (case l of None \<Rightarrow> dflt | Some w \<Rightarrow> w) \<Longrightarrow>
      snd (with_entry_hydrated h dflt m key (Inr l) f) = Inr (snd (f v))
      \<and> look h (fst (with_entry_hydrated h dflt m key (Inr l) f)) key = Some (fst (f v))
      \<and> may_evict (look h m) key (look h (fst (with_entry_hydrated h dflt m key (Inr l) f)))"
proof -
  obtain m1 r where w: "with_entry h m key f = (m1, r)" by (cases "with_entry h m key f")
  have r: "r = None" and l: "look h m1 = look h m" and i: "bounded_inv h m1"
    using with_entry_none [OF assms, of f] inv_ops(1) [OF assms(1), of key f] w by simp_all
  show "snd (with_entry_hydrated h dflt m key (Inl e) f) = Inl e
      \<and> look h (fst (with_entry_hydrated h dflt m key (Inl e) f)) = look h m"
    using w r l by (simp add: with_entry_hydrated_def)
  show "snd (with_entry_hydrated h dflt m key (Inr l) f) = Inr (snd (f v))
      \<and> look h (fst (with_entry_hydrated h dflt m key (Inr l) f)) key = Some (fst (f v))
      \<and> may_evict (look h m) key (look h (fst (with_entry_hydrated h dflt m key (Inr l) f)))"
    if "v = (case l of None \<Rightarrow> dflt | Some w \<Rightarrow> w)"
    using install_none [OF i, of key v f] \<open>look h m1 = look h m\<close> assms(2) w r that
    by (cases "install h m1 key v f") (simp add: with_entry_hydrated_def)
qed

interpretation bounded: entry_cache "bounded_inv h" "look h" dflt "with_entry h" "get_or_insert_with h"
    "with_hydrated_ref h" "with_entry_hydrated h dflt" "bounded_remove h" for h dflt
proof (unfold_locales, goal_cases)
  case 8
  then show ?case by (rule get_or_insert_some)
next
  case (9 m key u)
  then show ?case using install_none [of h m key u "\<lambda>v. (v, v)"] by (simp add: get_or_insert_install)
next
  case 11
  then show ?case by (rule hydrated_ref_none(1))
qed (simp_all add: inv_ops with_entry_none with_entry_some hydrated_ref_some hydrated_ref_none(2)
    entry_hydrated_some entry_hydrated_none look_remove)


section \<open>The order of eviction\<close>

text \<open>
  The specification of a shard: a queue of entries, the least recently used first. An access moves
  its key to the back; an insertion into a full queue drops the front.
\<close>

definition lru_access :: "usize \<Rightarrow> 'k \<Rightarrow> 'v \<Rightarrow> ('k \<times> 'v) list \<Rightarrow> ('k \<times> 'v) list" where
  "lru_access cap key v q =
     (if key \<in> fst ` set q then filter (\<lambda>e. fst e \<noteq> key) q
      else if length q < cap then q else tl q) @ [(key, v)]"

definition tick_of :: "'k \<times> 'v \<times> Tick \<Rightarrow> Tick" where
  "tick_of e = snd (snd e)"

definition lru_of :: "('k, 'v \<times> Tick) omap \<Rightarrow> ('k \<times> 'v) list" where
  "lru_of s = map (\<lambda>(k, v, t). (k, v)) (sort_key tick_of s)"

definition ticks_below :: "Tick \<Rightarrow> ('k, 'v \<times> Tick) omap \<Rightarrow> bool" where
  "ticks_below tick s \<longleftrightarrow> inj_on tick_of (set s) \<and> (\<forall>e \<in> set s. tick_of e < tick)"

lemma mset_om_insert: "om_inv s \<Longrightarrow> mset (om_insert k v s) = mset (filter (\<lambda>e. fst e \<noteq> k) s) + {#(k, v)#}"
proof (induction s)
  case (Cons e s)
  obtain k' v' where e: "e = (k', v')" by (cases e)
  then have "om_inv s" and gt: "\<forall>j \<in> fst ` set s. k' < j" using Cons.prems by (auto simp: om_inv_Cons)
  moreover have "filter (\<lambda>e. fst e \<noteq> k) s = s" if "k \<le> k'"
    using gt that by (auto simp: filter_id_conv)
  then have "filter_mset (\<lambda>e. fst e \<noteq> k) (mset s) = mset s" if "k \<le> k'"
    using that by (metis mset_filter)
  ultimately show ?case using Cons.IH e by auto
qed simp

lemma sort_insert:
  assumes "om_inv s" and "ticks_below tick s"
  shows "sort_key tick_of (om_insert k (v, tick) s) = filter (\<lambda>e. fst e \<noteq> k) (sort_key tick_of s) @ [(k, v, tick)]"
proof (rule sort_key_inj_key_eq)
  have set: "set (om_insert k (v, tick) s) = set (filter (\<lambda>e. fst e \<noteq> k) s) \<union> {(k, v, tick)}"
    using mset_om_insert [OF assms(1), of k "(v, tick)"] by (metis set_mset_mset set_mset_union set_mset_single)
  show "mset (om_insert k (v, tick) s) = mset (filter (\<lambda>e. fst e \<noteq> k) (sort_key tick_of s) @ [(k, v, tick)])"
    by (simp add: mset_om_insert [OF assms(1)])
  have "tick_of (k, v, tick) = tick" by (simp add: tick_of_def)
  then show "inj_on tick_of (set (om_insert k (v, tick) s))"
    using assms(2) unfolding set ticks_below_def inj_on_def by auto
  show "sorted (map tick_of (filter (\<lambda>e. fst e \<noteq> k) (sort_key tick_of s) @ [(k, v, tick)]))"
    using assms(2) by (auto simp: ticks_below_def sorted_append tick_of_def sorted_filter less_imp_le)
qed

lemma lru_insert:
  assumes "om_inv s" and "ticks_below tick s"
  shows "lru_of (om_insert k (v, tick) s) = filter (\<lambda>e. fst e \<noteq> k) (lru_of s) @ [(k, v)]"
  by (simp add: lru_of_def sort_insert [OF assms] filter_map comp_def case_prod_unfold)

lemma set_lru: "set (lru_of s) = (\<lambda>(k, v, t). (k, v)) ` set s"
  by (simp add: lru_of_def)

lemma lru_keys: "fst ` set (lru_of s) = fst ` set s"
  by (force simp: set_lru)

lemma length_lru [simp]: "length (lru_of s) = length s"
  by (simp add: lru_of_def)

lemma lru_evict:
  assumes "om_inv s" and "ticks_below tick s" and "min_by_tick s = Some (victim, t)"
  shows "lru_of (om_remove victim s) = tl (lru_of s)"
proof -
  obtain v where v: "(victim, v, t) \<in> set s" and le: "\<forall>(k', v', t') \<in> set s. t \<le> t'"
    using min_by_tick_Some [OF assms(3)] by blast
  then obtain x xs where x: "sort_key tick_of s = x # xs"
    by (cases "sort_key tick_of s") (auto dest: arg_cong [where f = set])
  have set: "set s = insert x (set xs)" using x by (metis set_sort list.simps(15))
  have "sorted (map tick_of (x # xs))" using x by (metis sorted_sort_key)
  then have "tick_of x \<le> tick_of (victim, v, t)" using v set by auto
  moreover have "t \<le> tick_of x" using le set by (auto simp: tick_of_def split: prod.splits)
  ultimately have xv: "x = (victim, v, t)"
    using assms(2) v set by (auto simp: ticks_below_def tick_of_def inj_on_def)
  have "distinct (map fst s)" using assms(1) by (simp add: om_inv_def strict_sorted_iff)
  then have "distinct (map fst (x # xs))" using x by (metis mset_map mset_eq_imp_distinct_iff mset_sort)
  then have "filter (\<lambda>e. fst e \<noteq> victim) xs = xs" using xv by (auto simp: filter_id_conv image_iff)
  moreover have "om_remove victim s = filter (\<lambda>e. fst e \<noteq> victim) s"
    by (simp add: om_remove_def case_prod_unfold)
  ultimately have "sort_key tick_of (om_remove victim s) = xs"
    using filter_sort [of "\<lambda>e. fst e \<noteq> victim" tick_of s] x xv by simp
  then show ?thesis using x by (simp add: lru_of_def)
qed

lemma ticks_remove: "ticks_below tick s \<Longrightarrow> ticks_below tick (om_remove k s)"
  by (auto simp: ticks_below_def om_remove_def inj_on_def)

lemma ticks_evict: "ticks_below tick s \<Longrightarrow> ticks_below tick (evict_if_full_locked cap s key)"
  by (auto simp: evict_if_full_locked_def ticks_remove split: option.splits)

lemma lru_hit:
  assumes "om_inv s" and "ticks_below tick s" and "map_of s key \<noteq> None"
  shows "lru_of (om_insert key (v, tick) s) = lru_access cap key v (lru_of s)"
  using assms(3) by (simp add: lru_insert [OF assms(1,2)] lru_access_def lru_keys map_of_eq_None_iff)

lemma lru_fresh:
  assumes "om_inv s" and "ticks_below tick s" and "map_of s key = None"
  shows "lru_of (om_insert key (v, tick) (evict_if_full_locked (Some cap) s key)) = lru_access cap key v (lru_of s)"
proof -
  let ?s = "evict_if_full_locked (Some cap) s key"
  have n: "key \<notin> fst ` set s" using assms(3) by (simp add: map_of_eq_None_iff)
  have "lru_of ?s = (if length s < cap then lru_of s else tl (lru_of s))"
    using assms(3) lru_evict [OF assms(1,2)] min_by_tick_None [of s]
    by (auto simp: evict_if_full_locked_def lru_of_def split: option.splits)
  moreover have "\<forall>e \<in> set (lru_of s). fst e \<noteq> key" using n lru_keys [of s] by auto
  then have "filter (\<lambda>e. fst e \<noteq> key) (lru_of s) = lru_of s" and "filter (\<lambda>e. fst e \<noteq> key) (tl (lru_of s)) = tl (lru_of s)"
    by (simp_all add: filter_id_conv) (cases "lru_of s", auto)
  ultimately show ?thesis
    using n by (simp add: lru_insert [OF evict_om_inv [OF assms(1)] ticks_evict [OF assms(2)]] lru_access_def lru_keys)
qed

lemma tick_less: "tick + 1 \<noteq> (0 :: Tick) \<Longrightarrow> tick < tick + 1"
  using unatSuc [of tick] by (simp add: add.commute word_less_nat_alt)

lemma ticks_insert:
  assumes "om_inv s" and "ticks_below tick s" and "tick + 1 \<noteq> 0"
  shows "ticks_below (tick + 1) (om_insert k (v, tick) s)"
proof -
  have set: "set (om_insert k (v, tick) s) = set (filter (\<lambda>e. fst e \<noteq> k) s) \<union> {(k, v, tick)}"
    using mset_om_insert [OF assms(1), of k "(v, tick)"] by (metis set_mset_mset set_mset_union set_mset_single)
  have "tick < tick + 1" using assms(3) by (rule tick_less)
  then show ?thesis using assms(2) unfolding ticks_below_def set inj_on_def tick_of_def by (auto intro: less_trans)
qed

lemma ticks_mono: "ticks_below tick s \<Longrightarrow> tick + 1 \<noteq> 0 \<Longrightarrow> ticks_below (tick + 1) s"
  using tick_less [of tick] by (auto simp: ticks_below_def intro: less_trans)


definition clock_inv :: "('k, 'v) BoundedShardedMap \<Rightarrow> bool" where
  "clock_inv m \<longleftrightarrow> (\<forall>s \<in> set (shards (bm_inner m)). ticks_below (bm_tick m) s)"

lemma clock_shard: "bounded_inv h m \<Longrightarrow> clock_inv m \<Longrightarrow> ticks_below (bm_tick m) (get_shard_containing h (bm_inner m) key)"
  using shard_index_less [of "bm_inner m" h key]
  by (simp add: clock_inv_def bounded_inv_def shards_inv_def get_shard_containing_def)

lemma clock_put:
  assumes "clock_inv m" and "ticks_below (bm_tick m + 1) s" and "bm_tick m + 1 \<noteq> 0"
  shows "clock_inv (m\<lparr>bm_tick := bm_tick m + 1, bm_inner := put_shard h (bm_inner m) key s\<rparr>)"
proof -
  have "set (shards (put_shard h (bm_inner m) key s)) \<subseteq> insert s (set (shards (bm_inner m)))"
    by (simp add: put_shard_def set_update_subset_insert)
  then show ?thesis using assms ticks_mono [OF _ assms(3)] by (auto simp: clock_inv_def)
qed

lemma other_shard:
  assumes "bounded_inv h m" and "shard_index h (bm_inner m) k \<noteq> shard_index h (bm_inner m) key"
  shows "get_shard_containing h (put_shard h (bm_inner m) key s) k = get_shard_containing h (bm_inner m) k"
  using assms get_put_shard [of "bm_inner m" h key s k] by (simp add: bounded_inv_def shards_inv_def)

lemma own_shard: "bounded_inv h m \<Longrightarrow> get_shard_containing h (put_shard h (bm_inner m) key s) key = s"
  using get_put_shard [of "bm_inner m" h key s key] by (simp add: bounded_inv_def shards_inv_def)

text \<open>One access as the queue sees it.\<close>

definition accessed :: "'k::linorder key_hash \<Rightarrow> usize \<Rightarrow> ('k, 'v) BoundedShardedMap \<Rightarrow> 'k \<Rightarrow> 'v \<Rightarrow> ('k, 'v) BoundedShardedMap \<Rightarrow> bool" where
  "accessed h cap m key v m' \<longleftrightarrow>
     lru_of (get_shard_containing h (bm_inner m') key) = lru_access cap key v (lru_of (get_shard_containing h (bm_inner m) key))
   \<and> (\<forall>k. shard_index h (bm_inner m) k \<noteq> shard_index h (bm_inner m) key \<longrightarrow>
         get_shard_containing h (bm_inner m') k = get_shard_containing h (bm_inner m) k)
   \<and> clock_inv m' \<and> bm_tick m' = bm_tick m + 1"

lemma accessed_put:
  assumes "bounded_inv h m" and "clock_inv m" and "bm_tick m + 1 \<noteq> 0"
    and "lru_of s = lru_access cap key v (lru_of (get_shard_containing h (bm_inner m) key))"
    and "ticks_below (bm_tick m + 1) s"
  shows "accessed h cap m key v (m\<lparr>bm_tick := bm_tick m + 1, bm_inner := put_shard h (bm_inner m) key s\<rparr>)"
  using assms clock_put [OF assms(2,5,3), of h key] by (simp add: accessed_def own_shard other_shard)

lemma next_tick_bounded: "per_shard_capacity m = Some cap \<Longrightarrow> next_tick m = (m\<lparr>bm_tick := bm_tick m + 1\<rparr>, bm_tick m)"
  by (simp add: next_tick_def)

lemma accessed_hit:
  assumes "bounded_inv h m" and "clock_inv m" and "bm_tick m + 1 \<noteq> 0"
    and "map_of (get_shard_containing h (bm_inner m) key) key = Some e"
  shows "accessed h cap m key v (m\<lparr>bm_tick := bm_tick m + 1, bm_inner := put_shard h (bm_inner m) key
    (om_insert key (v, bm_tick m) (get_shard_containing h (bm_inner m) key))\<rparr>)"
proof -
  let ?s = "get_shard_containing h (bm_inner m) key"
  have s: "om_inv ?s" "ticks_below (bm_tick m) ?s"
    using assms(1,2) clock_shard [OF assms(1,2)] by (auto simp: bounded_inv_def shards_inv_get)
  show ?thesis
    using assms(4) by (intro accessed_put [OF assms(1-3) _ ticks_insert [OF s assms(3)]] lru_hit [OF s]) simp
qed

lemma accessed_fresh:
  assumes "bounded_inv h m" and "clock_inv m" and "bm_tick m + 1 \<noteq> 0"
    and "map_of (get_shard_containing h (bm_inner m) key) key = None"
  shows "accessed h cap m key v (m\<lparr>bm_tick := bm_tick m + 1, bm_inner := put_shard h (bm_inner m) key
    (om_insert key (v, bm_tick m) (evict_if_full_locked (Some cap) (get_shard_containing h (bm_inner m) key) key))\<rparr>)"
proof -
  let ?s = "get_shard_containing h (bm_inner m) key"
  have s: "om_inv ?s" "ticks_below (bm_tick m) ?s"
    using assms(1,2) clock_shard [OF assms(1,2)] by (auto simp: bounded_inv_def shards_inv_get)
  show ?thesis
    by (rule accessed_put [OF assms(1-3) lru_fresh [OF s assms(4)] ticks_insert [OF evict_om_inv [OF s(1)] ticks_evict [OF s(2)] assms(3)]])
qed

lemma accessed_install:
  assumes "bounded_inv h m" and "clock_inv m" and "bm_tick m + 1 \<noteq> 0" and "per_shard_capacity m = Some cap"
  shows "accessed h cap m key (fst (f (case look h m key of None \<Rightarrow> loaded | Some v \<Rightarrow> v))) (fst (install h m key loaded f))"
proof (cases "map_of (get_shard_containing h (bm_inner m) key) key")
  case None
  then show ?thesis
    using accessed_fresh [OF assms(1-3) None] assms(4)
    by (simp add: install_def next_tick_bounded look_def case_prod_unfold Let_def)
next
  case (Some e)
  then show ?thesis
    using accessed_hit [OF assms(1-3) Some] assms(4)
    by (cases e) (simp add: install_def next_tick_bounded look_def case_prod_unfold Let_def touched_def)
qed

lemma accessed_with_entry:
  assumes "bounded_inv h m" and "clock_inv m" and "bm_tick m + 1 \<noteq> 0" and "per_shard_capacity m = Some cap"
    and "look h m key = Some v"
  shows "accessed h cap m key (fst (f v)) (fst (with_entry h m key f))"
proof -
  from assms(5) obtain t where t: "map_of (get_shard_containing h (bm_inner m) key) key = Some (v, t)" by (auto simp: look_Some)
  then show ?thesis
    using accessed_hit [OF assms(1-3) t] assms(4)
    by (simp add: with_entry_def next_tick_bounded case_prod_unfold Let_def touched_def)
qed


section \<open>Properties\<close>

lemma fresh_map_inv: "0 < N \<Longrightarrow> bounded_inv h (with_capacity (bounded_with_key N k0 k1) n)"
  by (auto simp: bounded_inv_def shards_inv_def capacity_ok_def with_capacity_def bounded_with_key_def sharded_with_key_def
      om_keys_def om_inv_def)

lemma cache_steps_shape:
  "cache_steps h m m' \<Longrightarrow> length (shards (bm_inner m')) = length (shards (bm_inner m)) \<and> per_shard_capacity m' = per_shard_capacity m"
proof (induction rule: rtranclp_induct)
  case (step y z)
  from step(2) have "length (shards (bm_inner z)) = length (shards (bm_inner y)) \<and> per_shard_capacity z = per_shard_capacity y"
    by cases (simp_all add: put_shard_def)
  then show ?case using step.IH by simp
qed simp

lemma sum_list_bound: "\<forall>i < length xs. length (xs ! i) \<le> cap \<Longrightarrow> sum_list (map length xs) \<le> length xs * cap"
proof -
  assume "\<forall>i < length xs. length (xs ! i) \<le> cap"
  then have "\<And>x. x \<in> set xs \<Longrightarrow> length x \<le> cap" by (auto simp: in_set_conv_nth)
  then have "sum_list (map length xs) \<le> sum_list (map (\<lambda>_. cap) xs)" by (intro sum_list_mono) simp
  then show ?thesis by (simp add: sum_list_triv)
qed

lemma shards_inv_distinct:
  assumes "shards_inv h m"
  shows "distinct (sharded_keys m)"
proof -
  have "distinct (concat (map om_keys ss))"
    if "\<forall>i < length ss. om_inv (ss ! i) \<and> (\<forall>k \<in> set (om_keys (ss ! i)). g k = c + i)" for ss :: "('a, 'b) omap list" and g and c :: nat
    using that
  proof (induction ss arbitrary: c)
    case (Cons s ss)
    have rest: "\<forall>i < length ss. om_inv (ss ! i) \<and> (\<forall>k \<in> set (om_keys (ss ! i)). g k = Suc c + i)"
      using Cons.prems by (auto dest: spec [of _ "Suc _"])
    have hd: "om_inv s" "\<forall>k \<in> set (om_keys s). g k = c" using Cons.prems by (auto dest: spec [of _ 0])
    have "k \<notin> set (om_keys s)" if s': "s' \<in> set ss" "k \<in> set (om_keys s')" for s' k
    proof -
      obtain i where "i < length ss" "s' = ss ! i" using s'(1) by (auto simp: in_set_conv_nth)
      then have "g k = Suc c + i" using rest s'(2) by blast
      then show ?thesis using hd(2) by fastforce
    qed
    then show ?case using Cons.IH [OF rest] hd(1) by (auto simp: om_inv_def om_keys_def strict_sorted_iff)
  qed simp
  from this [of "shards m" "shard_index h m" 0] show ?thesis using assms by (simp add: shards_inv_def sharded_keys_def)
qed

text \<open>
  C40: However the steps of the tree cache interleave, starting from an empty map of \<open>N\<close> shards
  with a total capacity, no key is resident twice and there are never more entries than \<open>N\<close> times the
  rounded-up capacity of a shard; and every operation is made of those steps.
\<close>

theorem cache_capacity:
  assumes "0 < N" and "cache_steps h (with_capacity (bounded_with_key N k0 k1) max_entries) m"
  shows "bounded_len m \<le> N * max (div_ceil max_entries N) 1 \<and> distinct (bounded_keys m)
    \<and> cache_steps h m (fst (bounded_get_cloned h m key)) \<and> cache_steps h m (fst (with_entry h m key f))
    \<and> cache_steps h m (fst (with_entry_or_default h dflt m key f)) \<and> cache_steps h m (fst (get_or_insert_with h m key v))
    \<and> cache_steps h m (fst (with_hydrated_ref h m key load inspect)) \<and> cache_steps h m (fst (bounded_remove h m key))
    \<and> cache_steps h m (fst (with_entry_hydrated h dflt m key load mutate))"
proof -
  have inv: "bounded_inv h m" by (rule cache_steps_inv [OF assms(2) fresh_map_inv [OF assms(1)]])
  have len: "length (shards (bm_inner m)) = N" and cap: "per_shard_capacity m = Some (max (div_ceil max_entries N) 1)"
    using cache_steps_shape [OF assms(2)] by (simp_all add: with_capacity_def bounded_with_key_def sharded_with_key_def)
  have "bounded_len m \<le> N * max (div_ceil max_entries N) 1"
    using inv cap sum_list_bound [of "shards (bm_inner m)" "max (div_ceil max_entries N) 1"] len
    by (simp add: bounded_inv_def capacity_ok_def bounded_len_def sharded_len_def)
  moreover have "distinct (bounded_keys m)"
    using inv shards_inv_distinct by (auto simp: bounded_inv_def bounded_keys_def)
  ultimately show ?thesis
    using steps_get_cloned [of h m key] steps_with_entry [of h m key f] steps_install [of h m key dflt f]
      steps_get_or_insert [of h m key v] steps_remove [of h m key]
    by (simp add: default_install steps_hydrated_ref steps_entry_hydrated)
qed

theorem cache_capacity_witness:
  "0 < (2 :: nat) \<and> (let h = (\<lambda>_ _ k. k * 2 ^ 63) :: u64 key_hash; m0 = with_capacity (bounded_with_key 2 0 0) 3;
     m = fst (get_or_insert_with h m0 5 (7 :: nat)) in cache_steps h m0 m \<and> bounded_len m \<le> 4)"
proof -
  let ?h = "(\<lambda>_ _ k. k * 2 ^ 63) :: u64 key_hash"
  let ?m0 = "with_capacity (bounded_with_key 2 0 0) 3"
  have s: "cache_steps ?h ?m0 (fst (get_or_insert_with ?h ?m0 5 (7 :: nat)))"
    by (rule steps_get_or_insert)
  have "2 * max (div_ceil 3 2) 1 = (4 :: nat)" by (simp add: div_ceil_def)
  moreover have "bounded_len (fst (get_or_insert_with ?h ?m0 5 (7 :: nat))) \<le> 2 * max (div_ceil 3 2) 1"
    by (rule conjunct1 [OF cache_capacity [OF _ s]]) simp
  ultimately show ?thesis using s by (simp add: Let_def)
qed

text \<open>
  C12: A shard of the bounded map refines a least-recently-used queue. Listed in the order of their
  ticks, the entries of the shard of a key change under an access to that key as the queue does: the key
  moves to the back, and an insertion into a full shard drops the front. The other shards keep their
  entries, and the clock stays ahead of every tick unless it wraps.
\<close>

theorem cache_refines_lru:
  assumes "bounded_inv h m" and "clock_inv m" and "bm_tick m + 1 \<noteq> 0" and "per_shard_capacity m = Some cap"
  shows "accessed h cap m key (fst (f (case look h m key of None \<Rightarrow> dflt | Some v \<Rightarrow> v))) (fst (with_entry_or_default h dflt m key f))
    \<and> accessed h cap m key (snd (get_or_insert_with h m key made)) (fst (get_or_insert_with h m key made))
    \<and> (\<forall>v. look h m key = Some v \<longrightarrow> accessed h cap m key (fst (f v)) (fst (with_entry h m key f)))"
  using accessed_install [OF assms, of key f dflt] accessed_install [OF assms, of key "\<lambda>v. (v, v)" made]
    accessed_with_entry [OF assms, of key]
    install_some [OF assms(1), of key _ made "\<lambda>v. (v, v)"] install_none [OF assms(1), of key made "\<lambda>v. (v, v)"]
  by (auto simp: default_install get_or_insert_install split: option.splits)


definition sample_cache :: "(u64, nat) BoundedShardedMap" where
  "sample_cache = \<lparr>bm_inner = \<lparr>shards = [[(1, 7, 1), (2, 8, 0)]], sm_key0 = 0, sm_key1 = 0\<rparr>,
     bm_tick = 2, per_shard_capacity = Some 2\<rparr>"

theorem cache_refines_lru_witness:
  "bounded_inv (\<lambda>_ _ k. k) sample_cache \<and> clock_inv sample_cache
   \<and> lru_of (get_shard_containing (\<lambda>_ _ k. k) (bm_inner (fst (get_or_insert_with (\<lambda>_ _ k. k) sample_cache 3 9))) 3) = [(1, 7), (3, 9)]"
proof -
  have inv: "bounded_inv (\<lambda>_ _ k. k) sample_cache"
    by (simp add: bounded_inv_def shards_inv_def capacity_ok_def sample_cache_def om_inv_def om_keys_def shard_index_def
        lemire_def div_eq_0_iff)
  have clock: "clock_inv sample_cache"
    by (simp add: clock_inv_def ticks_below_def sample_cache_def tick_of_def inj_on_def)
  have cap: "bm_tick sample_cache + 1 \<noteq> 0" "per_shard_capacity sample_cache = Some 2"
    by (simp_all add: sample_cache_def)
  have "get_shard_containing (\<lambda>_ _ k. k) (bm_inner sample_cache) 3 = [(1, 7, 1), (2, 8, 0)]"
    by (simp add: get_shard_containing_def sample_cache_def shard_index_def lemire_def)
  moreover have "snd (get_or_insert_with (\<lambda>_ _ k. k) sample_cache 3 9) = 9"
    by (simp add: get_or_insert_with_def sample_cache_def next_tick_def get_shard_containing_def shard_index_def lemire_def Let_def)
  ultimately show ?thesis
    using cache_refines_lru [OF inv clock cap, of 3 "\<lambda>v. (v, ())" 0 9] inv clock
    by (simp add: accessed_def lru_of_def lru_access_def tick_of_def insort_key.simps)
qed

end
