(* ===== verification/Spec2Isabelle.thy ===== *)
theory Spec2Isabelle
  imports Lru_Cache
begin

text \<open>
  \<^bold>\<open>Subduction\<close>: verification of the core of a peer-to-peer synchronisation protocol for
  hash-linked data.

  \<^bold>\<open>The program.\<close> Peers hold documents as \<^emph>\<open>sedimentrees\<close>: loose commits, and fragments that
  stand for a compressed range of commits. Commits and fragments travel as signed payloads with a
  canonical encoding, next to the blob they describe. Two peers authenticate each other in a
  handshake, exchange fingerprint summaries of their trees, and send each other what is missing. A
  node keeps the trees it works on in a bounded cache. The development covers the crates
  \<^verbatim>\<open>sedimentree_core\<close>, \<^verbatim>\<open>subduction_crypto\<close> and the pure parts of \<^verbatim>\<open>subduction_core\<close>. The theories
  follow the order in which the parts build on each other.

  \<^bold>\<open>Conventions.\<close>
  \<^item> Fallible code returns a sum, with the error on the left (\<open>'e + 'a\<close>). A panic (a failing
    \<open>expect\<close>, an index out of range, a division by zero) is \<open>None\<close> of an \<open>option\<close> around the result.
  \<^item> Machine integers whose width matters are words. Lengths of vectors in memory are \<open>nat\<close>.
  \<^item> \<open>BTreeMap\<close> and \<open>BTreeSet\<close> are strictly sorted lists (the operations \<open>om_insert\<close>, \<open>om_remove\<close>
    and their relatives of \<^verbatim>\<open>Prelude\<close>), so equal collections are equal values. The type alias
    \<open>Map\<close> of \<^verbatim>\<open>collections.rs\<close> is the ordered map, as in the build without \<open>std\<close>.
  \<^item> Build profile. Additions of offsets in the message decoders wrap, as they do in a release build.
    Where wrapping would hide a defect that the checked build reports, the checked build is modelled:
    \<open>i64_abs\<close> of the drift correction and the counters of the topological sort are \<open>None\<close> on overflow.
    The theorems about them show under which conditions this does not happen, and there the two
    profiles agree.
  \<^item> Mutable state is passed explicitly. A critical section under a mutex is one step.
  \<^item> External functions are parameters: BLAKE3, SipHash, the variable length integers of
    \<open>bijoux\<close>, Ed25519 and the signer, the transport, the commit store. What is assumed of them
    (\<open>blake3_ok\<close>, \<open>signer_ok\<close>, the laws of \<open>bijoux\<close>) is a hypothesis of the theorems that need it;
    \<^verbatim>\<open>Instances\<close> has concrete functions that satisfy these laws, and the witnesses compute with
    them. The clock and random nonces are arguments.

  \<^bold>\<open>Theories.\<close>
  \<^item> \<^verbatim>\<open>Prelude\<close>: words and bytes, results, ordered collections, and the stack driven graph walk
    \<open>walk\<close> with the lemma \<open>walk_reach\<close> that it computes reachability.
  \<^item> \<^verbatim>\<open>Codec\<close> (\<^verbatim>\<open>sedimentree_core/src/codec\<close>): errors, primitive readers and writers,
    \<open>verify_sorted\<close>. The traits \<open>Schema\<close>, \<open>EncodeFields\<close> and \<open>DecodeFields\<close> are a record of
    operations, and the locale \<open>payload_codec\<close> is their contract.
  \<^item> \<^verbatim>\<open>Types\<close> (\<^verbatim>\<open>id.rs\<close>, \<^verbatim>\<open>crypto/\<close>, \<^verbatim>\<open>blob.rs\<close>, \<^verbatim>\<open>depth.rs\<close>, \<^verbatim>\<open>loose_commit.rs\<close>, \<^verbatim>\<open>fragment.rs\<close>):
    the data, the support relation between fragments, and the wire formats of commits and fragments.
  \<^item> \<^verbatim>\<open>Signed\<close>, \<^verbatim>\<open>Instances\<close>, \<^verbatim>\<open>Payload_Props\<close> (\<^verbatim>\<open>subduction_crypto/src\<close>): sealing, decoding,
    verification, blob checks. Shown: round trips, canonicity of the decoders, soundness of
    verification, and what the one byte parent count does at 256 parents.
  \<^item> \<^verbatim>\<open>Commit_Dag\<close> (\<^verbatim>\<open>sedimentree/commit_dag.rs\<close>): the index-linked adjacency vectors and
    \<open>simplify\<close>. The inductive relation \<open>in_range\<close> says which ranges the walk visits a commit in.
  \<^item> \<^verbatim>\<open>Sedimentree\<close>, \<^verbatim>\<open>Sedimentree_Merge\<close>, \<^verbatim>\<open>Sedimentree_Minimize\<close>, \<^verbatim>\<open>Sedimentree_Diff\<close>,
    \<^verbatim>\<open>Sedimentree_Props\<close> (\<^verbatim>\<open>sedimentree.rs\<close>, \<^verbatim>\<open>sedimentree/minimized.rs\<close>): construction, merging,
    minimisation, heads, summaries, diffs, and the wrapper with the dirty flag. Shown: merging is a join,
    so replicas converge; the two minimisations agree, keep exactly the fragments no deeper one
    supports, drop exactly the commits whose ranges are covered, and are idempotent; the diffs send
    exactly what is missing and echoed fingerprints resolve to it.
  \<^item> \<^verbatim>\<open>Topsort\<close> (\<open>topsorted_blob_order\<close>, \<^verbatim>\<open>topsorted.rs\<close>): Kahn's algorithm. Shown: a complete order on
    acyclic trees, \<open>CycleError\<close> on the others, no panic.
  \<^item> \<^verbatim>\<open>Peer_Time\<close> (\<^verbatim>\<open>peer/id.rs\<close>, \<^verbatim>\<open>timestamp.rs\<close>, \<^verbatim>\<open>nonce.rs\<close>, the drift correction of
    \<^verbatim>\<open>handshake.rs\<close>): exact behaviour for clocks less than \<open>2^63\<close> seconds apart; the lemma
    \<open>drift_adjust_truncates\<close> shows what truncation does beyond.
  \<^item> \<^verbatim>\<open>Simulation\<close>, \<^verbatim>\<open>Nonce_Cache\<close> (\<^verbatim>\<open>nonce_cache.rs\<close>): the locale \<open>simulation\<close> lifts a
    simulated step to runs; the cache refines a window of accepted nonces.
  \<^item> \<^verbatim>\<open>Handshake_Payloads\<close>, \<^verbatim>\<open>Handshake\<close>, \<^verbatim>\<open>Handshake_Props\<close> (\<^verbatim>\<open>handshake.rs\<close>, \<^verbatim>\<open>handshake/\<close>): messages, both
    roles over an arbitrary transport, simultaneous open with its tie-break. Shown: what
    success proves to either role, what a failure leaves behind, completion of honest runs, the wire
    format and the separation of signed payloads. The lemma \<open>replay_accepted_after_expiry\<close>
    exhibits the limit of the replay protection.
  \<^item> \<^verbatim>\<open>Fragment_Builder\<close> (\<^verbatim>\<open>commit.rs\<close>): building fragments over an arbitrary store. The
    documentation and the code differ on commits with the depth of the head: the code puts them on the
    boundary (lemma \<open>fragment_same_depth_boundary\<close>). The theorem on single fragments is stated for
    histories where the two readings agree.
  \<^item> \<^verbatim>\<open>Wire\<close>, \<^verbatim>\<open>Sync_Message\<close>, \<^verbatim>\<open>Sync_Message_Props\<close> (\<^verbatim>\<open>connection/message.rs\<close>): every sync message, its
    encoder and its decoder. The locale \<open>wire_type\<close> is the contract of a part with a reader and a
    writer. Shown: the round trip within the limits of the format, that decoded messages are within
    them, and the loss beyond them.
  \<^item> \<^verbatim>\<open>Sharded_Map\<close>, \<^verbatim>\<open>Lru_Cache\<close> (\<^verbatim>\<open>collections/sharded_map.rs\<close>, \<^verbatim>\<open>collections/bounded_sharded_map.rs\<close>): the
    sharded map and the cache around it. The capacity is an invariant of the relation \<open>cache_step\<close>, in
    which a tick may be drawn long before the section that uses it, so it holds for every
    interleaving. The least-recently-used order is shown for operations run one after the other:
    there the draw of the tick and the section are one operation. The locale \<open>entry_cache\<close>
    is the interface for clients.

  \<^bold>\<open>Termination and bounds.\<close> No loop has fuel. The graph walk and the walk of the commit dag
  terminate because every node is expanded at most once (for the dag: once per range); Kahn's loop
  because queueing an item uses up its in-degree; the advance of the nonce ring because the head moves
  up to the oldest bucket of the window. A commit store is a function that may find unboundedly many commits, so
  \<open>fragment_loop\<close> and \<open>build_loop\<close> are partial functions, and the theorems prove that they return
  on stores with finitely many commits.

  \<^bold>\<open>Not modelled.\<close> The asynchronous shell: storage backends and capabilities, policies,
  ingestion, the sync handler, the orchestration in \<^verbatim>\<open>subduction.rs\<close>, connection management, metrics.
  They wire the modelled parts to I/O and to an executor. Also left out are the other crates
  (ephemeral messages, keyhive, network transports, persistent storage, WebAssembly bindings, the
  command line), text formats and serde, the depth metric on big integers (an instance of the
  metric parameter), and \<open>build_fragment_store_par\<close>, which runs on a thread pool.
\<close>

end
